(* ===== verification/Prelude.thy ===== *)
theory Prelude
  imports Main "HOL-Library.Word" "HOL-Library.Multiset"
begin

text \<open>
  Shared vocabulary of the development: the C integer types, the outcome of a kernel
  routine, byte-addressed stores with little-endian 16 and 32 bit accesses, and the
  generic list facts the component theories use.
\<close>

unbundle bit_operations_syntax

section \<open>Integer types (types.h)\<close>

type_synonym uint = "32 word"
type_synonym ushort = "16 word"
type_synonym uchar = "8 word"

section \<open>Outcomes\<close>

text \<open>
  A routine ends in one of four ways: it returns a value (\<open>Inr\<close>), it calls \<^verbatim>\<open>panic\<close>
  with a message, it performs an access the C language leaves undefined (an index
  outside an array, a null pointer), or it puts the calling process to sleep until
  another process acts.
\<close>

datatype err = Panic string | Undef string | Blocked string

type_synonym 'a res = "err + 'a"

definition rbind :: "'a res \<Rightarrow> ('a \<Rightarrow> 'b res) \<Rightarrow> 'b res" where
  "rbind r f = (case r of Inl e \<Rightarrow> Inl e | Inr x \<Rightarrow> f x)"

named_theorems res_elims "inversion of sequenced kernel routines"

lemma rbind_simps [simp]:
  "rbind (Inl e) f = Inl e"
  "rbind (Inr x) f = f x"
  by (simp_all add: rbind_def)

lemma rbind_eq_Inr [res_elims]:
  "rbind r f = Inr y \<longleftrightarrow> (\<exists>x. r = Inr x \<and> f x = Inr y)"
  by (cases r) simp_all

lemma rbind_eq_Inl:
  "rbind r f = Inl e \<longleftrightarrow> r = Inl e \<or> (\<exists>x. r = Inr x \<and> f x = Inl e)"
  by (cases r) simp_all

lemma rbind_assoc: "rbind (rbind r f) g = rbind r (\<lambda>x. rbind (f x) g)"
  by (cases r) simp_all

lemma rbind_cong [fundef_cong]:
  "r = r' \<Longrightarrow> (\<And>x. r' = Inr x \<Longrightarrow> f x = g x) \<Longrightarrow> rbind r f = rbind r' g"
  by (cases r') simp_all

lemma rbind_split:
  "P (rbind r f) \<longleftrightarrow> (\<forall>e. r = Inl e \<longrightarrow> P (Inl e)) \<and> (\<forall>x. r = Inr x \<longrightarrow> P (f x))"
  by (cases r) simp_all

text \<open>\<open>ensure b e\<close> is the guard \<^verbatim>\<open>if(!b) panic(...)\<close>.\<close>

definition ensure :: "bool \<Rightarrow> err \<Rightarrow> unit res" where
  "ensure b e = (if b then Inr () else Inl e)"

lemma ensure_simps [simp]:
  "ensure True e = Inr ()"
  "ensure False e = Inl e"
  by (simp_all add: ensure_def)

lemma ensure_eq_Inr [simp]: "ensure b e = Inr u \<longleftrightarrow> b"
  by (simp add: ensure_def)

text \<open>A loop over given indices, each round of which may fail.\<close>

primrec rfold :: "('i \<Rightarrow> 's \<Rightarrow> 's res) \<Rightarrow> 'i list \<Rightarrow> 's \<Rightarrow> 's res" where
  "rfold f [] s = Inr s"
| "rfold f (i # is) s = rbind (f i s) (rfold f is)"

lemma rfold_append: "rfold f (xs @ ys) s = rbind (rfold f xs s) (rfold f ys)"
  by (induction xs arbitrary: s) (auto simp: rbind_assoc intro!: rbind_cong)

lemma rfold_cong [fundef_cong]:
  "xs = ys \<Longrightarrow> s = t \<Longrightarrow> (\<And>x u. x \<in> set ys \<Longrightarrow> f x u = g x u) \<Longrightarrow> rfold f xs s = rfold g ys t"
  by (induction ys arbitrary: xs s t) (auto intro!: rbind_cong)

text \<open>An invariant kept by every round: \<open>P k\<close> holds before round \<open>k\<close>, and every round succeeds.\<close>

lemma rfold_inv:
  assumes "P 0 s" "\<And>k t. k < n \<Longrightarrow> P k t \<Longrightarrow> \<exists>u. f k t = Inr u \<and> P (Suc k) u"
  shows "\<exists>t. rfold f [0..<n] s = Inr t \<and> P n t"
  using assms
proof (induction n)
  case (Suc n)
  then obtain t where "rfold f [0..<n] s = Inr t" "P n t" by force
  moreover from this(2) Suc.prems(2) [of n t] obtain u where "f n t = Inr u" "P (Suc n) u" by auto
  ultimately show ?case by (simp add: rfold_append)
qed simp

section \<open>Byte stores\<close>

text \<open>
  A page of physical memory, a disk block and a file are all byte arrays; a store maps
  an offset to the byte there. A multi-byte field is read and written little-endian,
  as on the x86.
\<close>

type_synonym bytes = "nat \<Rightarrow> uchar"

definition byte_of :: "nat \<Rightarrow> uint \<Rightarrow> uchar" where
  "byte_of k w = ucast (drop_bit (8 * k) w)"

definition le32 :: "uchar \<Rightarrow> uchar \<Rightarrow> uchar \<Rightarrow> uchar \<Rightarrow> uint" where
  "le32 b0 b1 b2 b3 =
     ucast b0 OR push_bit 8 (ucast b1) OR push_bit 16 (ucast b2) OR push_bit 24 (ucast b3)"

definition le16 :: "uchar \<Rightarrow> uchar \<Rightarrow> ushort" where
  "le16 b0 b1 = ucast b0 OR push_bit 8 (ucast b1)"

definition rd32 :: "bytes \<Rightarrow> nat \<Rightarrow> uint" where
  "rd32 f a = le32 (f a) (f (a + 1)) (f (a + 2)) (f (a + 3))"

definition wr32 :: "bytes \<Rightarrow> nat \<Rightarrow> uint \<Rightarrow> bytes" where
  "wr32 f a w = f(a := byte_of 0 w, a + 1 := byte_of 1 w, a + 2 := byte_of 2 w, a + 3 := byte_of 3 w)"

definition rd16 :: "bytes \<Rightarrow> nat \<Rightarrow> ushort" where
  "rd16 f a = le16 (f a) (f (a + 1))"

definition wr16 :: "bytes \<Rightarrow> nat \<Rightarrow> ushort \<Rightarrow> bytes" where
  "wr16 f a w = f(a := ucast w, a + 1 := ucast (drop_bit 8 w))"

text \<open>\<open>blit d i s j n\<close> is \<open>d\<close> with its \<open>n\<close> bytes from \<open>i\<close> replaced by those of \<open>s\<close> from \<open>j\<close>.\<close>

definition blit :: "bytes \<Rightarrow> nat \<Rightarrow> bytes \<Rightarrow> nat \<Rightarrow> nat \<Rightarrow> bytes" where
  "blit d i s j n = (\<lambda>k. if i \<le> k \<and> k < i + n then s (j + (k - i)) else d k)"

lemma bit_le32:
  "bit (le32 a b c d) n \<longleftrightarrow>
     (if n < 8 then bit a n else if n < 16 then bit b (n - 8)
      else if n < 24 then bit c (n - 16) else n < 32 \<and> bit d (n - 24))"
  by (auto simp: le32_def bit_simps dest: bit_imp_le_length)

lemma bit_le16:
  "bit (le16 a b) n \<longleftrightarrow> (if n < 8 then bit a n else n < 16 \<and> bit b (n - 8))"
  by (auto simp: le16_def bit_simps dest: bit_imp_le_length)

lemma bit_byte_of: "bit (byte_of k w) n \<longleftrightarrow> n < 8 \<and> bit w (8 * k + n)"
  by (auto simp: byte_of_def bit_simps)

lemma le32_bytes: "le32 (byte_of 0 w) (byte_of (Suc 0) w) (byte_of 2 w) (byte_of 3 w) = w"
  by (rule bit_word_eqI) (auto simp: bit_le32 bit_byte_of)

lemma le16_bytes: "le16 (ucast w) (ucast (drop_bit 8 w)) = w"
  by (rule bit_word_eqI) (auto simp: bit_le16 bit_simps)

lemma byte_of_le32:
  "byte_of 0 (le32 a b c d) = a" "byte_of (Suc 0) (le32 a b c d) = b"
  "byte_of 2 (le32 a b c d) = c" "byte_of 3 (le32 a b c d) = d"
  by (auto simp: bit_le32 bit_byte_of intro!: bit_word_eqI)

lemma rd32_wr32_same [simp]: "rd32 (wr32 f a w) a = w"
  by (simp add: rd32_def wr32_def le32_bytes)

lemma rd32_wr32_other: "b + 4 \<le> a \<or> a + 4 \<le> b \<Longrightarrow> rd32 (wr32 f a w) b = rd32 f b"
  by (auto simp: rd32_def wr32_def)

lemma wr32_wr32_same [simp]: "wr32 (wr32 f a v) a w = wr32 f a w"
  by (auto simp: wr32_def fun_eq_iff)

lemma wr32_rd32_same [simp]: "wr32 f a (rd32 f a) = f"
  by (auto simp: wr32_def rd32_def byte_of_le32 fun_eq_iff)

lemma wr32_apply_other: "k < a \<or> a + 4 \<le> k \<Longrightarrow> wr32 f a w k = f k"
  by (auto simp: wr32_def)

lemma rd16_wr16_same [simp]: "rd16 (wr16 f a w) a = w"
  by (simp add: rd16_def wr16_def le16_bytes)

lemma rd16_wr16_other: "b + 2 \<le> a \<or> a + 2 \<le> b \<Longrightarrow> rd16 (wr16 f a w) b = rd16 f b"
  by (auto simp: rd16_def wr16_def)

text \<open>Word-sized array elements: entry \<open>i\<close> is at offset \<open>4 * i\<close>.\<close>

lemma rd32_wr32_index [simp]:
  "rd32 (wr32 f (4 * i) w) (4 * j) = (if i = j then w else rd32 f (4 * j))"
  by (cases "i < j") (auto simp: rd32_wr32_other)

lemma rd32_zero [simp]: "rd32 (\<lambda>_. 0) a = 0"
  by (simp add: rd32_def le32_def)

lemma rd16_zero [simp]: "rd16 (\<lambda>_. 0) a = 0"
  by (simp add: rd16_def le16_def)

lemma blit_0 [simp]: "blit d i s j 0 = d"
  by (auto simp: blit_def fun_eq_iff)

lemma blit_in: "i \<le> k \<Longrightarrow> k < i + n \<Longrightarrow> blit d i s j n k = s (j + (k - i))"
  by (simp add: blit_def)

lemma blit_out: "k < i \<or> i + n \<le> k \<Longrightarrow> blit d i s j n k = d k"
  by (auto simp: blit_def)

lemma blit_blit: "blit (blit d i s j m) (i + m) s (j + m) n = blit d i s j (m + n)"
  by (auto simp: blit_def fun_eq_iff)

lemma blit_page [simp]: "blit d 0 s 0 n k = (if k < n then s k else d k)"
  by (simp add: blit_def)

section \<open>Lists\<close>

lemma nth_upd: "k < length xs \<Longrightarrow> xs[i := x] ! k = (if i = k then x else xs ! k)"
  by (cases "i = k") auto

lemma mset_take_update:
  assumes "i < n" "n \<le> length xs"
  shows "mset (take n (xs[i := x])) = add_mset x (mset (take n xs) - {#xs ! i#})"
proof -
  have "take n (xs[i := x]) = (take n xs)[i := x]"
    by (simp add: take_update_swap)
  with assms show ?thesis by (simp add: mset_update)
qed

section \<open>Transition systems\<close>

text \<open>
  Concurrent parts of the kernel are step relations; the contract a step relation offers is
  an invariant that holds initially and that every step keeps.
\<close>

inductive reach :: "('s \<Rightarrow> bool) \<Rightarrow> ('s \<Rightarrow> 's \<Rightarrow> bool) \<Rightarrow> 's \<Rightarrow> bool"
  for init :: "'s \<Rightarrow> bool" and step :: "'s \<Rightarrow> 's \<Rightarrow> bool" where
  reach_init: "init s \<Longrightarrow> reach init step s"
| reach_step: "reach init step s \<Longrightarrow> step s t \<Longrightarrow> reach init step t"

locale inv_system =
  fixes init :: "'s \<Rightarrow> bool"
    and step :: "'s \<Rightarrow> 's \<Rightarrow> bool"
    and inv :: "'s \<Rightarrow> bool"
  assumes inv_init: "init s \<Longrightarrow> inv s"
    and inv_step: "inv s \<Longrightarrow> step s t \<Longrightarrow> inv t"
begin

lemma reach_inv: "reach init step s \<Longrightarrow> inv s"
  by (induction rule: reach.induct) (auto intro: inv_init inv_step)

lemma steps_inv: "step\<^sup>*\<^sup>* s t \<Longrightarrow> inv s \<Longrightarrow> inv t"
  by (induction rule: rtranclp_induct) (auto intro: inv_step)

end

end
