(* ===== verification/PriorityQueue.thy ===== *)
theory PriorityQueue
  imports Prelude
begin

text \<open>
  The binary min-heap of \<^verbatim>\<open>priorityQueue.c\<close>, in which each process keeps its resident
  pages ordered for replacement. The C array is a list, its live prefix is given by
  \<open>sz\<close> (the C parameter \<^verbatim>\<open>size\<close>). The lemmas show that every operation restores the heap order and changes the
  multiset of stored nodes exactly as a priority queue should; the contract is the
  locale \<open>prio_queue\<close>, interpreted on the heap at the end.
\<close>

section \<open>Definitions\<close>

record heap_p =
  index :: int
  priority :: uint

definition swapHeapNode :: "heap_p list \<Rightarrow> nat \<Rightarrow> nat \<Rightarrow> heap_p list" where
  "swapHeapNode array i j = array[i := array ! j, j := array ! i]"

definition peekHeap :: "heap_p list \<Rightarrow> heap_p" where
  "peekHeap array = array ! 0"

definition left_or_self :: "heap_p list \<Rightarrow> nat \<Rightarrow> nat \<Rightarrow> nat" where
  "left_or_self array sz i =
     (let l = 2 * i + 1
      in if l < sz \<and> priority (array ! l) < priority (array ! i) then l else i)"

definition smallest_child :: "heap_p list \<Rightarrow> nat \<Rightarrow> nat \<Rightarrow> nat" where
  "smallest_child array sz i =
     (let smallest = left_or_self array sz i; r = 2 * i + 2
      in if r < sz \<and> priority (array ! r) < priority (array ! smallest) then r else smallest)"

lemma smallest_child_cases:
  "smallest_child array sz i = i \<or>
   (smallest_child array sz i < sz \<and>
    (smallest_child array sz i = 2 * i + 1 \<or> smallest_child array sz i = 2 * i + 2))"
  by (simp add: smallest_child_def left_or_self_def Let_def)

function heapify :: "heap_p list \<Rightarrow> nat \<Rightarrow> nat \<Rightarrow> heap_p list" where
  "heapify array sz i =
     (if sz = 1 then array
      else let smallest = smallest_child array sz i
           in if smallest \<noteq> i then heapify (swapHeapNode array i smallest) sz smallest
              else array)"
  by pat_completeness auto
termination
proof (relation "measure (\<lambda>(array, sz, i). sz - i)")
  fix array sz i x
  assume "x = smallest_child array sz i" "x \<noteq> i"
  with smallest_child_cases [of array sz i]
  show "((swapHeapNode array i x, sz, x), array, sz, i) \<in> measure (\<lambda>(array, sz, i). sz - i)"
    by auto
qed simp

declare heapify.simps [simp del]

text \<open>\<open>heapify_all array sz k\<close> is the loop \<^verbatim>\<open>for(i = k - 1; i >= 0; i--) heapify(array, sz, i)\<close>.\<close>

primrec heapify_all :: "heap_p list \<Rightarrow> nat \<Rightarrow> nat \<Rightarrow> heap_p list" where
  "heapify_all array sz 0 = array"
| "heapify_all array sz (Suc i) = heapify_all (heapify array sz i) sz i"

definition insertHeap :: "heap_p list \<Rightarrow> heap_p \<Rightarrow> nat \<Rightarrow> (heap_p list \<times> nat) res" where
  "insertHeap array newHeap sz =
     (if length array \<le> sz then Inl (Undef ''insertHeap'')
      else if sz = 0 then Inr (array[0 := newHeap], 1)
      else let array1 = array[sz := newHeap]; sz1 = sz + 1
           in Inr (heapify_all array1 sz1 (sz1 div 2), sz1))"

function scan_index :: "heap_p list \<Rightarrow> int \<Rightarrow> nat \<Rightarrow> nat \<Rightarrow> nat" where
  "scan_index array idx sz i =
     (if i < sz then (if idx = index (array ! i) then i else scan_index array idx sz (i + 1))
      else i)"
  by pat_completeness auto
termination
  by (relation "measure (\<lambda>(array, idx, sz, i). sz - i)") auto

declare scan_index.simps [simp del]

definition no_node :: heap_p where
  "no_node = \<lparr>index = -1, priority = -1\<rparr>"

definition deleteRoot :: "heap_p list \<Rightarrow> int \<Rightarrow> nat \<Rightarrow> heap_p \<times> heap_p list \<times> nat" where
  "deleteRoot array idx sz =
     (let i = scan_index array idx sz 0
      in if sz \<le> i then (no_node, array, sz)
         else let out = array ! i;
                  array1 = swapHeapNode array i (sz - 1);
                  sz1 = sz - 1
              in (out, heapify_all array1 sz1 (sz1 div 2), sz1))"

definition extractMin :: "heap_p list \<Rightarrow> nat \<Rightarrow> (heap_p \<times> heap_p list \<times> nat) res" where
  "extractMin array sz =
     (if sz = 0 then Inl (Undef ''extractMin'')
      else if sz = 1 then Inr (array ! 0, array, 0)
      else let root = array ! 0;
               array1 = array[0 := array ! (sz - 1)]
           in Inr (root, heapify array1 (sz - 1) 0, sz - 1))"

definition initHeap :: "heap_p list \<Rightarrow> nat \<Rightarrow> heap_p list" where
  "initHeap array sz = replicate (min sz (length array)) no_node @ drop sz array"

definition findInHeap :: "heap_p list \<Rightarrow> int \<Rightarrow> nat \<Rightarrow> (heap_p \<times> heap_p list \<times> nat) res" where
  "findInHeap array pageNum sz =
     (case deleteRoot array pageNum sz of (temp, array1, sz1) \<Rightarrow>
        if index temp \<noteq> -1
        then rbind (insertHeap array1 temp sz1) (\<lambda>(array2, sz2). Inr (temp, array2, sz2))
        else Inr (temp, array1, sz1))"

function scan_max :: "heap_p list \<Rightarrow> nat \<Rightarrow> nat \<Rightarrow> nat \<Rightarrow> nat" where
  "scan_max array sz i best =
     (if i < sz
      then scan_max array sz (i + 1)
             (if priority (array ! i) > priority (array ! best) then i else best)
      else best)"
  by pat_completeness auto
termination
  by (relation "measure (\<lambda>(array, sz, i, best). sz - i)") auto

declare scan_max.simps [simp del]

definition findMaxElementIndex :: "heap_p list \<Rightarrow> nat \<Rightarrow> nat" where
  "findMaxElementIndex array sz = scan_max array sz (1 + sz div 2) (sz div 2)"

section \<open>Heap order and contents\<close>

abbreviation par :: "nat \<Rightarrow> nat" where "par k \<equiv> (k - 1) div 2"

definition heap_from :: "nat \<Rightarrow> heap_p list \<Rightarrow> nat \<Rightarrow> bool" where
  "heap_from j a n \<longleftrightarrow>
     (\<forall>k<n. 0 < k \<and> j \<le> par k \<longrightarrow> priority (a ! par k) \<le> priority (a ! k))"

definition is_heap :: "heap_p list \<Rightarrow> nat \<Rightarrow> bool" where
  "is_heap a n \<longleftrightarrow> n \<le> length a \<and> heap_from 0 a n"

definition sift_ok :: "nat \<Rightarrow> heap_p list \<Rightarrow> nat \<Rightarrow> nat \<Rightarrow> bool" where
  "sift_ok j a n i \<longleftrightarrow>
     (\<forall>k<n. 0 < k \<and> j \<le> par k \<and> par k \<noteq> i \<longrightarrow> priority (a ! par k) \<le> priority (a ! k)) \<and>
     (\<forall>k<n. 0 < k \<and> par k = i \<and> 0 < i \<and> j \<le> par i \<longrightarrow> priority (a ! par i) \<le> priority (a ! k))"

lemma length_swap [simp]: "length (swapHeapNode a i j) = length a"
  by (simp add: swapHeapNode_def)

lemma nth_swap:
  "i < length a \<Longrightarrow> j < length a \<Longrightarrow>
   swapHeapNode a i j ! k = (if k = j then a ! i else if k = i then a ! j else a ! k)"
  by (auto simp: swapHeapNode_def nth_list_update)

lemma take_swap:
  "i < n \<Longrightarrow> j < n \<Longrightarrow> n \<le> length a \<Longrightarrow> mset (take n (swapHeapNode a i j)) = mset (take n a)"
  using mset_swap [of j "take n a" i] by (simp add: swapHeapNode_def take_update_swap)

lemma drop_swap: "i < n \<Longrightarrow> j < n \<Longrightarrow> drop n (swapHeapNode a i j) = drop n a"
  by (simp add: swapHeapNode_def)

lemma smallest_child_le:
  assumes "k < n" "0 < k" "par k = i"
  shows "priority (a ! smallest_child a n i) \<le> priority (a ! k)"
proof -
  from assms have "k = 2 * i + 1 \<or> k = 2 * i + 2" by auto
  with assms show ?thesis
    by (auto simp: smallest_child_def left_or_self_def Let_def)
qed

lemma smallest_child_less:
  "smallest_child a n i \<noteq> i \<Longrightarrow> priority (a ! smallest_child a n i) < priority (a ! i)"
  by (auto simp: smallest_child_def left_or_self_def Let_def split: if_splits)

lemma sift_step:
  assumes ok: "sift_ok j a n i" and n: "n \<le> length a" and ij: "j \<le> i"
    and s: "s = smallest_child a n i" "s \<noteq> i"
  shows "sift_ok j (swapHeapNode a i s) n s"
proof -
  have sn: "s < n" "par s = i" "i < s"
    using smallest_child_cases [of a n i] s by auto
  have less: "priority (a ! s) < priority (a ! i)"
    using s smallest_child_less by blast
  have "priority (swapHeapNode a i s ! par k) \<le> priority (swapHeapNode a i s ! k)"
    if k: "k < n" "0 < k" "j \<le> par k" "par k \<noteq> s" for k
  proof -
    consider "k = s" | "k = i" | "k \<noteq> s" "par k = i" | "k \<noteq> s" "k \<noteq> i" "par k \<noteq> i" by blast
    then show ?thesis
    proof cases
      case 1 then show ?thesis using sn n less by (simp add: nth_swap)
    next
      case 2
      then have "priority (a ! par i) \<le> priority (a ! s)"
        using ok k sn by (simp add: sift_ok_def)
      then show ?thesis using 2 sn n k by (auto simp: nth_swap)
    next
      case 3
      then have "priority (a ! s) \<le> priority (a ! k)"
        using smallest_child_le [OF k(1,2) 3(2)] s by simp
      then show ?thesis using 3 sn n k by (auto simp: nth_swap)
    next
      case 4
      then show ?thesis using ok k sn n by (auto simp: nth_swap sift_ok_def)
    qed
  qed
  moreover have "priority (swapHeapNode a i s ! par s) \<le> priority (swapHeapNode a i s ! k)"
    if "k < n" "0 < k" "par k = s" "0 < s" "j \<le> par s" for k
  proof -
    have "priority (a ! s) \<le> priority (a ! k)"
      using ok that sn ij by (auto simp: sift_ok_def)
    then show ?thesis using that sn n by (auto simp: nth_swap)
  qed
  ultimately show ?thesis by (simp add: sift_ok_def)
qed

lemma heapify_heap:
  "sift_ok j a n i \<Longrightarrow> n \<le> length a \<Longrightarrow> j \<le> i \<Longrightarrow> heap_from j (heapify a n i) n"
proof (induction a n i rule: heapify.induct)
  case (1 a n i)
  let ?s = "smallest_child a n i"
  show ?case
  proof (cases "n = 1 \<or> ?s = i")
    case True
    then have "heapify a n i = a" by (auto simp: heapify.simps [of a n i])
    moreover have "priority (a ! i) \<le> priority (a ! k)" if "k < n" "0 < k" "par k = i" for k
      using True that smallest_child_le [OF that, of a] by auto
    ultimately show ?thesis
      using "1.prems"(1) by (auto simp: heap_from_def sift_ok_def)
  next
    case False
    then have "i < ?s" using smallest_child_cases [of a n i] by auto
    with False show ?thesis
      using "1.IH" [of ?s] "1.prems" sift_step [OF "1.prems", of ?s]
      by (simp add: heapify.simps [of a n i] Let_def)
  qed
qed

lemma heapify_frame:
  "i < n \<Longrightarrow> n \<le> length a \<Longrightarrow>
   length (heapify a n i) = length a \<and> mset (take n (heapify a n i)) = mset (take n a) \<and>
   drop n (heapify a n i) = drop n a"
proof (induction a n i rule: heapify.induct)
  case (1 a n i)
  let ?s = "smallest_child a n i"
  show ?case
  proof (cases "n = 1 \<or> ?s = i")
    case True
    then show ?thesis by (auto simp: heapify.simps [of a n i])
  next
    case False
    then have "?s < n" using smallest_child_cases [of a n i] by auto
    with False show ?thesis
      using "1.IH" [of ?s] "1.prems" take_swap [of i n ?s a] drop_swap [of i n ?s a]
      by (simp add: heapify.simps [of a n i] Let_def)
  qed
qed

lemma heapify_all_heap:
  "heap_from k a n \<Longrightarrow> n \<le> length a \<Longrightarrow> k \<le> n \<Longrightarrow> heap_from 0 (heapify_all a n k) n"
proof (induction k arbitrary: a)
  case (Suc i)
  have "sift_ok i a n i"
    using Suc.prems(1) by (auto simp: sift_ok_def heap_from_def)
  then have "heap_from i (heapify a n i) n"
    using heapify_heap Suc.prems by blast
  with Suc show ?case by (simp add: heapify_frame)
qed simp

lemma heapify_all_frame:
  "k \<le> n \<Longrightarrow> n \<le> length a \<Longrightarrow>
   length (heapify_all a n k) = length a \<and> mset (take n (heapify_all a n k)) = mset (take n a) \<and>
   drop n (heapify_all a n k) = drop n a"
  by (induction k arbitrary: a) (simp_all add: heapify_frame)

lemma rebuild_heap: "n \<le> length a \<Longrightarrow> is_heap (heapify_all a n (n div 2)) n"
proof -
  assume n: "n \<le> length a"
  have "heap_from (n div 2) a n" by (auto simp: heap_from_def)
  then show ?thesis using n heapify_all_heap [of "n div 2" a n]
    by (simp add: is_heap_def heapify_all_frame)
qed

abbreviation nodes :: "heap_p list \<Rightarrow> nat \<Rightarrow> heap_p multiset" where
  "nodes a n \<equiv> mset (take n a)"

lemma heap_root_min: "is_heap a n \<Longrightarrow> k < n \<Longrightarrow> priority (a ! 0) \<le> priority (a ! k)"
proof (induction k rule: less_induct)
  case (less k)
  show ?case
  proof (cases "k = 0")
    case False
    then have "par k < k" "par k < n" using less.prems by auto
    then have "priority (a ! 0) \<le> priority (a ! par k)" using less by blast
    also have "\<dots> \<le> priority (a ! k)"
      using False less.prems by (simp add: is_heap_def heap_from_def)
    finally show ?thesis .
  qed simp
qed

lemma set_take_nth: "n \<le> length a \<Longrightarrow> set (take n a) = (!) a ` {..<n}"
  by (simp add: nth_image [symmetric] lessThan_atLeast0)

lemma insertHeap_ok:
  assumes "n < length a"
  shows "\<exists>a'. insertHeap a x n = Inr (a', n + 1) \<and> length a' = length a \<and> is_heap a' (n + 1) \<and>
           nodes a' (n + 1) = add_mset x (nodes a n)"
proof (cases "n = 0")
  case True
  then show ?thesis using assms
    by (cases a) (auto simp: insertHeap_def is_heap_def heap_from_def)
next
  case False
  let ?b = "a[n := x]"
  have "nodes ?b (n + 1) = add_mset x (nodes a n)"
    using assms by (simp add: take_Suc_conv_app_nth)
  moreover have "is_heap (heapify_all ?b (n + 1) ((n + 1) div 2)) (n + 1)"
    using assms by (intro rebuild_heap) simp
  ultimately show ?thesis using assms False
    by (simp add: insertHeap_def Let_def heapify_all_frame)
qed

lemma scan_index_spec:
  "i \<le> n \<Longrightarrow> (let r = scan_index a idx n i in i \<le> r \<and> r \<le> n \<and>
     (r < n \<longrightarrow> index (a ! r) = idx) \<and> (\<forall>k. i \<le> k \<and> k < r \<longrightarrow> index (a ! k) \<noteq> idx))"
proof (induction a idx n i rule: scan_index.induct)
  case (1 a idx n i)
  show ?case
  proof (cases "i < n \<and> idx \<noteq> index (a ! i)")
    case True
    let ?r = "scan_index a idx n (i + 1)"
    have IH: "i + 1 \<le> ?r" "?r \<le> n" "?r < n \<longrightarrow> index (a ! ?r) = idx"
      "\<And>k. i + 1 \<le> k \<Longrightarrow> k < ?r \<Longrightarrow> index (a ! k) \<noteq> idx"
      using "1.IH" True by (auto simp: Let_def)
    have "index (a ! k) \<noteq> idx" if "i \<le> k" "k < ?r" for k
      using that True IH(4) [of k] by (cases "k = i") auto
    then show ?thesis
      using True IH(1-3) by (simp add: scan_index.simps [of a idx n i])
  next
    case False
    then show ?thesis
      using "1.prems" by (auto simp: scan_index.simps [of a idx n i] Let_def)
  qed
qed

lemma deleteRoot_absent:
  assumes "n \<le> length a" "idx \<notin> index ` set (take n a)"
  shows "deleteRoot a idx n = (no_node, a, n)"
proof -
  have "\<not> scan_index a idx n 0 < n"
    using scan_index_spec [of 0 n a idx] assms by (force simp: Let_def set_take_nth)
  then show ?thesis by (simp add: deleteRoot_def Let_def)
qed

lemma deleteRoot_found:
  assumes n: "n \<le> length a" and idx: "idx \<in> index ` set (take n a)"
  shows "\<exists>out a'. deleteRoot a idx n = (out, a', n - 1) \<and> length a' = length a \<and>
           is_heap a' (n - 1) \<and> index out = idx \<and> out \<in># nodes a n \<and>
           nodes a' (n - 1) = nodes a n - {#out#}"
proof -
  let ?i = "scan_index a idx n 0"
  from idx n obtain k where "k < n" "index (a ! k) = idx"
    by (auto simp: set_take_nth)
  then have i: "?i < n" "index (a ! ?i) = idx"
    using scan_index_spec [of 0 n a idx] by (auto simp: Let_def not_less le_less)
  let ?b = "swapHeapNode a ?i (n - 1)"
  have "nodes a n = nodes ?b n"
    using i n by (simp add: take_swap)
  also have "\<dots> = add_mset (?b ! (n - 1)) (nodes ?b (n - 1))"
    using i n take_Suc_conv_app_nth [of "n - 1" ?b] by simp
  also have "?b ! (n - 1) = a ! ?i"
    using i n by (simp add: nth_swap)
  finally have *: "nodes a n = add_mset (a ! ?i) (nodes ?b (n - 1))" .
  have "is_heap (heapify_all ?b (n - 1) ((n - 1) div 2)) (n - 1)"
    using n by (intro rebuild_heap) simp
  then show ?thesis
    using i n * by (simp add: deleteRoot_def Let_def heapify_all_frame)
qed

lemma extractMin_ok:
  assumes h: "is_heap a n" and n: "0 < n"
  shows "\<exists>out a'. extractMin a n = Inr (out, a', n - 1) \<and> length a' = length a \<and>
           is_heap a' (n - 1) \<and> out \<in># nodes a n \<and> nodes a' (n - 1) = nodes a n - {#out#} \<and>
           (\<forall>x \<in># nodes a n. priority out \<le> priority x)"
proof -
  have len: "n \<le> length a" using h by (simp add: is_heap_def)
  have min: "\<forall>x \<in># nodes a n. priority (a ! 0) \<le> priority x"
    using heap_root_min [OF h] len by (auto simp: set_take_nth)
  have root: "a ! 0 \<in># nodes a n"
    using n len by (auto simp: set_take_nth)
  show ?thesis
  proof (cases "n = 1")
    case True
    then show ?thesis using min root len
      by (cases a) (auto simp: extractMin_def is_heap_def heap_from_def)
  next
    case False
    let ?b = "a[0 := a ! (n - 1)]"
    have "sift_ok 0 ?b (n - 1) 0"
      using h len by (auto simp: sift_ok_def is_heap_def heap_from_def nth_list_update)
    then have "heap_from 0 (heapify ?b (n - 1) 0) (n - 1)"
      using len by (intro heapify_heap) auto
    moreover have "nodes a n = add_mset (a ! 0) (nodes ?b (n - 1))"
    proof -
      have "nodes a n = add_mset (a ! (n - 1)) (nodes a (n - 1))"
        using n len take_Suc_conv_app_nth [of "n - 1" a] by simp
      moreover have "a ! 0 \<in># nodes a (n - 1)"
        using n len False by (auto simp: set_take_nth)
      ultimately show ?thesis
        using n len False by (simp add: mset_take_update insert_DiffM)
    qed
    ultimately show ?thesis
      using n False len min root
      by (simp add: extractMin_def Let_def is_heap_def heapify_frame)
  qed
qed

lemma heap_leaf_bound:
  "is_heap a n \<Longrightarrow> k < n \<Longrightarrow> \<exists>m<n. n div 2 \<le> m \<and> priority (a ! k) \<le> priority (a ! m)"
proof (induction "n - k" arbitrary: k rule: less_induct)
  case less
  show ?case
  proof (cases "n div 2 \<le> k")
    case True then show ?thesis using less.prems by auto
  next
    case False
    then have c: "2 * k + 1 < n" by simp
    then have le: "priority (a ! k) \<le> priority (a ! (2 * k + 1))"
      using less.prems by (auto simp: is_heap_def heap_from_def dest: spec [of _ "2 * k + 1"])
    obtain m where "m < n" "n div 2 \<le> m" "priority (a ! (2 * k + 1)) \<le> priority (a ! m)"
      using less.hyps [of "2 * k + 1"] less.prems c by (auto simp: diff_less_mono2)
    with le show ?thesis by (meson order_trans)
  qed
qed

lemma scan_max_spec:
  "best < n \<Longrightarrow> (let r = scan_max a n i best in r < n \<and> priority (a ! best) \<le> priority (a ! r) \<and>
     (\<forall>k. i \<le> k \<and> k < n \<longrightarrow> priority (a ! k) \<le> priority (a ! r)))"
proof (induction a n i best rule: scan_max.induct)
  case (1 a n i best)
  let ?b = "if priority (a ! i) > priority (a ! best) then i else best"
  show ?case
  proof (cases "i < n")
    case True
    let ?r = "scan_max a n (i + 1) ?b"
    have IH: "?r < n" "priority (a ! ?b) \<le> priority (a ! ?r)"
      "\<And>k. i + 1 \<le> k \<Longrightarrow> k < n \<Longrightarrow> priority (a ! k) \<le> priority (a ! ?r)"
      using "1.IH" [OF True] True "1.prems" by (auto simp: Let_def)
    have "priority (a ! best) \<le> priority (a ! ?r)" "priority (a ! i) \<le> priority (a ! ?r)"
      using IH(2) by (auto split: if_splits)
    moreover have "priority (a ! k) \<le> priority (a ! ?r)" if "i \<le> k" "k < n" for k
      using that IH(3) [of k] calculation(2) by (cases "k = i") auto
    ultimately show ?thesis
      using True IH(1) by (simp add: scan_max.simps [of a n i best] Let_def)
  qed (use "1.prems" in \<open>auto simp: scan_max.simps [of a n i best]\<close>)
qed

lemma findMaxElementIndex_max:
  assumes "is_heap a n" "0 < n" 
  shows "findMaxElementIndex a n < n" and "k < n \<Longrightarrow> priority (a ! k) \<le> priority (a ! findMaxElementIndex a n)"
proof -
  let ?r = "findMaxElementIndex a n"
  have sp: "?r < n" "priority (a ! (n div 2)) \<le> priority (a ! ?r)"
    "\<And>k. 1 + n div 2 \<le> k \<Longrightarrow> k < n \<Longrightarrow> priority (a ! k) \<le> priority (a ! ?r)"
    using scan_max_spec [of "n div 2" n a "1 + n div 2"] assms(2)
    by (auto simp: findMaxElementIndex_def Let_def)
  show "?r < n" by (rule sp(1))
  show "priority (a ! k) \<le> priority (a ! ?r)" if k: "k < n"
  proof -
    obtain m where m: "m < n" "n div 2 \<le> m" "priority (a ! k) \<le> priority (a ! m)"
      using heap_leaf_bound [OF assms(1) k] by blast
    have "priority (a ! m) \<le> priority (a ! ?r)"
      using sp(2,3) m by (cases "m = n div 2") auto
    with m(3) show ?thesis by (rule order_trans)
  qed
qed

lemma findInHeap_absent:
  "n \<le> length a \<Longrightarrow> idx \<notin> index ` set (take n a) \<Longrightarrow> findInHeap a idx n = Inr (no_node, a, n)"
  by (simp add: findInHeap_def deleteRoot_absent no_node_def)

lemma findInHeap_found:
  assumes n: "n \<le> length a" and idx: "idx \<in> index ` set (take n a)" "idx \<noteq> -1"
  shows "\<exists>out a'. findInHeap a idx n = Inr (out, a', n) \<and> length a' = length a \<and> is_heap a' n \<and>
           index out = idx \<and> out \<in># nodes a n \<and> nodes a' n = nodes a n"
proof -
  obtain out b where b: "deleteRoot a idx n = (out, b, n - 1)" "length b = length a"
      "index out = idx" "out \<in># nodes a n" "nodes b (n - 1) = nodes a n - {#out#}"
    using deleteRoot_found [OF n idx(1)] by blast
  have "0 < n" using b(4) by (cases n) auto
  obtain a' where "insertHeap b out (n - 1) = Inr (a', n)" "length a' = length a" "is_heap a' n"
      "nodes a' n = add_mset out (nodes b (n - 1))"
    using insertHeap_ok [of "n - 1" b out] b(2) n \<open>0 < n\<close> by (auto simp: less_le_trans [of _ n])
  with b idx show ?thesis by (simp add: findInHeap_def)
qed

section \<open>The priority queue contract\<close>

text \<open>\<open>drain ext n q\<close> removes \<open>n\<close> elements one after the other and returns them in order.\<close>

primrec drain :: "('q \<Rightarrow> ('a \<times> 'q) res) \<Rightarrow> nat \<Rightarrow> 'q \<Rightarrow> ('a list \<times> 'q) res" where
  "drain ext 0 q = Inr ([], q)"
| "drain ext (Suc n) q =
     rbind (ext q) (\<lambda>(x, q1). rbind (drain ext n q1) (\<lambda>(xs, q2). Inr (x # xs, q2)))"

locale prio_queue =
  fixes inv :: "'q \<Rightarrow> bool"
    and content :: "'q \<Rightarrow> 'a multiset"
    and room :: "'q \<Rightarrow> bool"
    and key :: "'a \<Rightarrow> 'k::linorder"
    and ins :: "'a \<Rightarrow> 'q \<Rightarrow> 'q res"
    and ext :: "'q \<Rightarrow> ('a \<times> 'q) res"
  assumes ins_law: "inv q \<Longrightarrow> room q \<Longrightarrow>
      \<exists>q'. ins x q = Inr q' \<and> inv q' \<and> content q' = add_mset x (content q)"
    and ext_law: "inv q \<Longrightarrow> content q \<noteq> {#} \<Longrightarrow>
      \<exists>x q'. ext q = Inr (x, q') \<and> inv q' \<and> content q = add_mset x (content q') \<and>
        (\<forall>y \<in># content q'. key x \<le> key y)"
begin

lemma drain_sorted:
  "inv q \<Longrightarrow> size (content q) = n \<Longrightarrow>
   \<exists>xs q'. drain ext n q = Inr (xs, q') \<and> inv q' \<and> content q' = {#} \<and> mset xs = content q \<and>
     sorted (map key xs)"
proof (induction n arbitrary: q)
  case 0
  then show ?case by auto
next
  case (Suc n)
  then have "content q \<noteq> {#}" by auto
  then obtain x q1 where q1: "ext q = Inr (x, q1)" "inv q1" "content q = add_mset x (content q1)"
      "\<forall>y \<in># content q1. key x \<le> key y"
    using ext_law [OF Suc.prems(1)] by blast
  then have "size (content q1) = n" using Suc.prems(2) by simp
  then obtain xs q2 where q2: "drain ext n q1 = Inr (xs, q2)" "inv q2" "content q2 = {#}"
      "mset xs = content q1" "sorted (map key xs)"
    using Suc.IH [OF q1(2)] by blast
  have "\<forall>y \<in> set xs. key x \<le> key y"
    using q1(4) q2(4) by (metis set_mset_mset)
  with q1 q2 show ?case by simp
qed

lemma ins_then_min:
  assumes "inv q" "room q" "\<forall>y \<in># content q. key x < key y"
  shows "\<exists>q1 q2. ins x q = Inr q1 \<and> ext q1 = Inr (x, q2) \<and> content q2 = content q"
proof -
  obtain q1 where q1: "ins x q = Inr q1" "inv q1" "content q1 = add_mset x (content q)"
    using ins_law [OF assms(1,2)] by blast
  then obtain y q2 where q2: "ext q1 = Inr (y, q2)" "content q1 = add_mset y (content q2)"
      "\<forall>z \<in># content q2. key y \<le> key z"
    using ext_law [OF q1(2)] by (metis add_mset_not_empty)
  have "y = x"
  proof (rule ccontr)
    assume "y \<noteq> x"
    then have "y \<in># content q" "x \<in># content q2"
      using q1(3) q2(2) by (metis insert_noteq_member union_single_eq_member)+
    then show False using assms(3) q2(3) by fastforce
  qed
  with q1 q2 show ?thesis by auto
qed

end

definition heap_inv :: "heap_p list \<times> nat \<Rightarrow> bool" where
  "heap_inv q \<longleftrightarrow> is_heap (fst q) (snd q)"

definition heap_nodes :: "heap_p list \<times> nat \<Rightarrow> heap_p multiset" where
  "heap_nodes q = nodes (fst q) (snd q)"

definition heap_ins :: "heap_p \<Rightarrow> heap_p list \<times> nat \<Rightarrow> (heap_p list \<times> nat) res" where
  "heap_ins x q = insertHeap (fst q) x (snd q)"

definition heap_ext :: "heap_p list \<times> nat \<Rightarrow> (heap_p \<times> (heap_p list \<times> nat)) res" where
  "heap_ext q = extractMin (fst q) (snd q)"

interpretation heapq: prio_queue heap_inv heap_nodes "\<lambda>q. snd q < length (fst q)" priority heap_ins heap_ext
proof
  fix q :: "heap_p list \<times> nat" and x
  assume "heap_inv q" "snd q < length (fst q)"
  then show "\<exists>q'. heap_ins x q = Inr q' \<and> heap_inv q' \<and> heap_nodes q' = add_mset x (heap_nodes q)"
    using insertHeap_ok [of "snd q" "fst q" x]
    by (auto simp: heap_ins_def heap_inv_def heap_nodes_def)
next
  fix q :: "heap_p list \<times> nat"
  assume inv: "heap_inv q" and ne: "heap_nodes q \<noteq> {#}"
  then have "0 < snd q" by (auto simp: heap_nodes_def)
  then obtain out a' where e: "extractMin (fst q) (snd q) = Inr (out, a', snd q - 1)"
      "is_heap a' (snd q - 1)" "out \<in># nodes (fst q) (snd q)"
      "nodes a' (snd q - 1) = nodes (fst q) (snd q) - {#out#}"
      "\<forall>x \<in># nodes (fst q) (snd q). priority out \<le> priority x"
    using extractMin_ok inv by (metis heap_inv_def)
  have "\<forall>y \<in># heap_nodes (a', snd q - 1). priority out \<le> priority y"
    using e(4,5) by (auto simp: heap_nodes_def dest: in_diffD)
  moreover have "heap_nodes q = add_mset out (heap_nodes (a', snd q - 1))"
    using e(3,4) by (simp add: heap_nodes_def)
  ultimately show "\<exists>x q'. heap_ext q = Inr (x, q') \<and> heap_inv q' \<and>
      heap_nodes q = add_mset x (heap_nodes q') \<and> (\<forall>y \<in># heap_nodes q'. priority x \<le> priority y)"
    using e(1,2) by (auto simp: heap_ext_def heap_inv_def intro!: exI)
qed

section \<open>Properties\<close>

text \<open>
  C5. Emptying a heap with \<^verbatim>\<open>extractMin\<close>, as the replacement policies do with a copy of the
  queue, never reads outside the array, returns exactly the stored nodes and returns
  them in order of increasing priority.
\<close>

theorem extractMin_drains_sorted:
  assumes "is_heap array sz"
  shows "\<exists>xs array'. drain heap_ext sz (array, sz) = Inr (xs, array', 0) \<and>
           mset xs = nodes array sz \<and> sorted (map priority xs)"
proof -
  have "size (heap_nodes (array, sz)) = sz"
    using assms by (simp add: heap_nodes_def is_heap_def)
  then obtain xs q' where q: "drain heap_ext sz (array, sz) = Inr (xs, q')" "heap_inv q'"
      "heap_nodes q' = {#}" "mset xs = heap_nodes (array, sz)" "sorted (map priority xs)"
    using heapq.drain_sorted [of "(array, sz)" sz] assms by (auto simp: heap_inv_def)
  have "snd q' = 0"
    using q(2,3) by (auto simp: heap_nodes_def heap_inv_def is_heap_def)
  with q show ?thesis by (cases q') (auto simp: heap_nodes_def)
qed

theorem extractMin_drains_sorted_witness:
  "\<exists>xs array'. drain heap_ext 3 ([\<lparr>index = 4, priority = 1\<rparr>, \<lparr>index = 7, priority = 5\<rparr>,
      \<lparr>index = 2, priority = 3\<rparr>], 3) = Inr (xs, array', 0) \<and>
    mset xs = nodes [\<lparr>index = 4, priority = 1\<rparr>, \<lparr>index = 7, priority = 5\<rparr>,
      \<lparr>index = 2, priority = 3\<rparr>] 3 \<and> sorted (map priority xs)"
  by (rule extractMin_drains_sorted) (auto simp: is_heap_def heap_from_def less_Suc_eq numeral_3_eq_3)

text \<open>
  C6. Inserting a node and then deleting the page with its index gives the node back,
  restores the multiset of stored nodes and leaves the array a heap; the array keeps its
  length throughout.
\<close>

theorem insertHeap_deleteRoot:
  assumes "sz < length array" and "index node \<notin> index ` set (take sz array)"
  shows "\<exists>array1 array2. insertHeap array node sz = Inr (array1, sz + 1) \<and> is_heap array1 (sz + 1) \<and>
           deleteRoot array1 (index node) (sz + 1) = (node, array2, sz) \<and> is_heap array2 sz \<and>
           nodes array2 sz = nodes array sz \<and> length array2 = length array"
proof -
  obtain a1 where a1: "insertHeap array node sz = Inr (a1, sz + 1)" "length a1 = length array"
      "is_heap a1 (sz + 1)" "nodes a1 (sz + 1) = add_mset node (nodes array sz)"
    using insertHeap_ok [OF assms(1)] by blast
  have set: "set (take (sz + 1) a1) = insert node (set (take sz array))"
    using a1(4) by (metis set_mset_add_mset_insert set_mset_mset)
  then obtain out a2 where a2: "deleteRoot a1 (index node) (sz + 1) = (out, a2, sz)"
      "length a2 = length a1" "is_heap a2 sz" "index out = index node" "out \<in># nodes a1 (sz + 1)"
      "nodes a2 sz = nodes a1 (sz + 1) - {#out#}"
    using deleteRoot_found [of "sz + 1" a1 "index node"] a1(2) assms(1) by auto
  have "out = node"
    using a2(4,5) assms(2) set by (auto simp: image_iff)
  with a1 a2 show ?thesis by auto
qed

theorem insertHeap_deleteRoot_witness:
  "\<exists>array1 array2. insertHeap [\<lparr>index = 4, priority = 1\<rparr>, no_node] \<lparr>index = 9, priority = 0\<rparr> 1
       = Inr (array1, 1 + 1) \<and> is_heap array1 (1 + 1) \<and>
     deleteRoot array1 (index \<lparr>index = 9, priority = 0\<rparr>) (1 + 1)
       = (\<lparr>index = 9, priority = 0\<rparr>, array2, 1) \<and> is_heap array2 1 \<and>
     nodes array2 1 = nodes [\<lparr>index = 4, priority = 1\<rparr>, no_node] 1 \<and>
     length array2 = length [\<lparr>index = 4, priority = 1\<rparr>, no_node]"
  by (rule insertHeap_deleteRoot) auto

text \<open>
  C7. \<^verbatim>\<open>findMaxElementIndex\<close>, which scans only the second half of the array, finds a node of
  the largest priority of the whole heap.
\<close>

theorem findMaxElementIndex_correct:
  assumes "is_heap array sz" and "k < sz"
  shows "findMaxElementIndex array sz < sz \<and>
         priority (array ! k) \<le> priority (array ! findMaxElementIndex array sz)"
  using findMaxElementIndex_max [OF assms(1)] assms(2) by simp

theorem findMaxElementIndex_correct_witness:
  "findMaxElementIndex [\<lparr>index = 4, priority = 1\<rparr>, \<lparr>index = 7, priority = 5\<rparr>] 2 < 2 \<and>
   priority ([\<lparr>index = 4, priority = 1\<rparr>, \<lparr>index = 7, priority = 5\<rparr>] ! 0) \<le>
     priority ([\<lparr>index = 4, priority = 1\<rparr>, \<lparr>index = 7, priority = 5\<rparr>] !
       findMaxElementIndex [\<lparr>index = 4, priority = 1\<rparr>, \<lparr>index = 7, priority = 5\<rparr>] 2)"
  by (rule findMaxElementIndex_correct) (auto simp: is_heap_def heap_from_def less_2_cases_iff)

end
