(* ===== verification/Spinlock.thy ===== *)
theory Spinlock
  imports Prelude
begin

text \<open>
  The spin locks of \<^verbatim>\<open>spinlock.c\<close>. Every processor runs on its own: a step relation
  interleaves the processors at the atomic actions of \<^verbatim>\<open>acquire\<close> and \<^verbatim>\<open>release\<close> (the checks
  with interrupts off, one \<^verbatim>\<open>xchg\<close> of the spin loop, the record of the owner, the final store
  of 0). The saved call stack \<^verbatim>\<open>pcs\<close> and the name are debugging data and are left out.
\<close>

section \<open>State\<close>

text \<open>The part of \<^verbatim>\<open>struct cpu\<close> the locks use; \<open>if_flag\<close> is the flag \<^verbatim>\<open>FL_IF\<close> of \<^verbatim>\<open>eflags\<close>.\<close>

record cpu =
  if_flag :: bool
  ncli :: int
  intena :: bool

record spinlock =
  locked :: bool
  lcpu :: "nat option"

definition initlock :: spinlock where
  "initlock = \<lparr>locked = False, lcpu = None\<rparr>"

section \<open>Operations\<close>

definition pushcli :: "cpu \<Rightarrow> cpu" where
  "pushcli c = (let eflags = if_flag c; c1 = c\<lparr>if_flag := False\<rparr>;
                    c2 = (if ncli c1 = 0 then c1\<lparr>intena := eflags\<rparr> else c1)
                in c2\<lparr>ncli := ncli c2 + 1\<rparr>)"

definition popcli :: "cpu \<Rightarrow> cpu res" where
  "popcli c =
     (if if_flag c then Inl (Panic ''popcli - interruptible'')
      else let c1 = c\<lparr>ncli := ncli c - 1\<rparr>
           in if ncli c1 < 0 then Inl (Panic ''popcli'')
              else if ncli c1 = 0 \<and> intena c1 then Inr (c1\<lparr>if_flag := True\<rparr>)
              else Inr c1)"

text \<open>\<open>me\<close> is the number of the processor that executes, \<^verbatim>\<open>mycpu() - cpus\<close>.\<close>

definition holding :: "nat \<Rightarrow> spinlock \<Rightarrow> cpu \<Rightarrow> (bool \<times> cpu) res" where
  "holding me lk c =
     (let c1 = pushcli c; r = (locked lk \<and> lcpu lk = Some me)
      in rbind (popcli c1) (\<lambda>c2. Inr (r, c2)))"

text \<open>\<^verbatim>\<open>acquire\<close> up to its spin loop.\<close>

definition acquire_enter :: "nat \<Rightarrow> spinlock \<Rightarrow> cpu \<Rightarrow> cpu res" where
  "acquire_enter me lk c =
     rbind (holding me lk (pushcli c)) (\<lambda>(h, c1).
     if h then Inl (Panic ''acquire'') else Inr c1)"

text \<open>One \<^verbatim>\<open>xchg(&lk->locked, 1)\<close>: the old value and the lock after it.\<close>

definition xchg_locked :: "spinlock \<Rightarrow> bool \<times> spinlock" where
  "xchg_locked lk = (locked lk, lk\<lparr>locked := True\<rparr>)"

definition acquire_record :: "nat \<Rightarrow> spinlock \<Rightarrow> spinlock" where
  "acquire_record me lk = lk\<lparr>lcpu := Some me\<rparr>"

text \<open>\<^verbatim>\<open>release\<close> up to the store that frees the lock, and from it on.\<close>

definition release_enter :: "nat \<Rightarrow> spinlock \<Rightarrow> cpu \<Rightarrow> (spinlock \<times> cpu) res" where
  "release_enter me lk c =
     rbind (holding me lk c) (\<lambda>(h, c1).
     if \<not> h then Inl (Panic ''release'') else Inr (lk\<lparr>lcpu := None\<rparr>, c1))"

definition release_store :: "spinlock \<Rightarrow> cpu \<Rightarrow> (spinlock \<times> cpu) res" where
  "release_store lk c = rbind (popcli c) (\<lambda>c1. Inr (lk\<lparr>locked := False\<rparr>, c1))"

section \<open>Interrupt nesting\<close>

lemma pushcli_simps [simp]:
  "ncli (pushcli c) = ncli c + 1" "if_flag (pushcli c) = False"
  "intena (pushcli c) = (if ncli c = 0 then if_flag c else intena c)"
  by (simp_all add: pushcli_def Let_def)

text \<open>A processor state the kernel keeps: inside a nesting of \<^verbatim>\<open>pushcli\<close> interrupts are off.\<close>

definition cpu_ok :: "cpu \<Rightarrow> bool" where
  "cpu_ok c \<longleftrightarrow> 0 \<le> ncli c \<and> (0 < ncli c \<longrightarrow> \<not> if_flag c)"

lemma cpu_ok_push [simp, intro]: "cpu_ok c \<Longrightarrow> cpu_ok (pushcli c)"
  by (simp add: cpu_ok_def)

lemma popcli_nested:
  "cpu_ok c \<Longrightarrow> 1 < ncli c \<Longrightarrow> popcli c = Inr (c\<lparr>ncli := ncli c - 1\<rparr>)"
  by (simp add: popcli_def cpu_ok_def Let_def)

lemma popcli_ok:
  "cpu_ok c \<Longrightarrow> 0 < ncli c \<Longrightarrow> \<exists>c'. popcli c = Inr c' \<and> ncli c' = ncli c - 1 \<and> cpu_ok c'"
  by (auto simp: popcli_def cpu_ok_def Let_def)

lemma pop_push:
  "cpu_ok c \<Longrightarrow>
     \<exists>c'. popcli (pushcli c) = Inr c' \<and> ncli c' = ncli c \<and> if_flag c' = if_flag c \<and>
          (0 < ncli c \<longrightarrow> intena c' = intena c)"
  by (auto simp: popcli_def pushcli_def cpu_ok_def Let_def)

lemma holding_ok:
  assumes "cpu_ok c"
  obtains c' where "holding me lk c = Inr (locked lk \<and> lcpu lk = Some me, c')"
    "ncli c' = ncli c" "cpu_ok c'" "if_flag c' = if_flag c" "0 < ncli c \<Longrightarrow> intena c' = intena c"
  using pop_push [OF assms] assms by (auto simp: holding_def cpu_ok_def)

section \<open>Processors running concurrently\<close>

text \<open>
  Where a processor is: outside the lock code, spinning, between its successful \<^verbatim>\<open>xchg\<close> and
  the record of the owner, or between the erasure of the owner and the final store.
  \<open>held\<close> and \<open>extra\<close> are history: the locks whose \<^verbatim>\<open>xchg\<close> succeeded and that are not yet
  stored back, and the depth of the \<^verbatim>\<open>pushcli\<close> nesting outside the lock code.
\<close>

datatype pc = Run | Spin nat | Got nat | Rel nat

record lsys =
  cpus :: "nat \<Rightarrow> cpu"
  locks :: "nat \<Rightarrow> spinlock"
  pcs :: "nat \<Rightarrow> pc"
  held :: "nat \<Rightarrow> nat set"
  extra :: "nat \<Rightarrow> nat"

inductive lstep :: "lsys \<Rightarrow> lsys \<Rightarrow> bool" where
  enter: "pcs s c = Run \<Longrightarrow> acquire_enter c (locks s l) (cpus s c) = Inr k \<Longrightarrow>
    lstep s (s\<lparr>cpus := (cpus s)(c := k), pcs := (pcs s)(c := Spin l)\<rparr>)"
| spin: "pcs s c = Spin l \<Longrightarrow> xchg_locked (locks s l) = (True, lk) \<Longrightarrow>
    lstep s (s\<lparr>locks := (locks s)(l := lk)\<rparr>)"
| take: "pcs s c = Spin l \<Longrightarrow> xchg_locked (locks s l) = (False, lk) \<Longrightarrow>
    lstep s (s\<lparr>locks := (locks s)(l := lk), pcs := (pcs s)(c := Got l),
               held := (held s)(c := insert l (held s c))\<rparr>)"
| own: "pcs s c = Got l \<Longrightarrow>
    lstep s (s\<lparr>locks := (locks s)(l := acquire_record c (locks s l)), pcs := (pcs s)(c := Run)\<rparr>)"
| leave: "pcs s c = Run \<Longrightarrow> release_enter c (locks s l) (cpus s c) = Inr (lk, k) \<Longrightarrow>
    lstep s (s\<lparr>locks := (locks s)(l := lk), cpus := (cpus s)(c := k), pcs := (pcs s)(c := Rel l)\<rparr>)"
| store: "pcs s c = Rel l \<Longrightarrow> release_store (locks s l) (cpus s c) = Inr (lk, k) \<Longrightarrow>
    lstep s (s\<lparr>locks := (locks s)(l := lk), cpus := (cpus s)(c := k), pcs := (pcs s)(c := Run),
               held := (held s)(c := held s c - {l})\<rparr>)"
| push: "pcs s c = Run \<Longrightarrow>
    lstep s (s\<lparr>cpus := (cpus s)(c := pushcli (cpus s c)), extra := (extra s)(c := extra s c + 1)\<rparr>)"
| pop: "pcs s c = Run \<Longrightarrow> extra s c > 0 \<Longrightarrow> popcli (cpus s c) = Inr k \<Longrightarrow>
    lstep s (s\<lparr>cpus := (cpus s)(c := k), extra := (extra s)(c := extra s c - 1)\<rparr>)"
| sti: "pcs s c = Run \<Longrightarrow> ncli (cpus s c) = 0 \<Longrightarrow>
    lstep s (s\<lparr>cpus := (cpus s)(c := (cpus s c)\<lparr>if_flag := True\<rparr>)\<rparr>)"

definition linit :: "lsys \<Rightarrow> bool" where
  "linit s \<longleftrightarrow> (\<forall>c. pcs s c = Run \<and> held s c = {} \<and> extra s c = 0 \<and> ncli (cpus s c) = 0) \<and>
              (\<forall>l. locks s l = initlock)"

text \<open>
  The invariant: the lock word is set exactly when some processor holds the lock, at most
  one does, the owner field names the holder except at the two ends of its ownership, and
  the nesting depth of each processor counts its locks.
\<close>

fun spinning :: "pc \<Rightarrow> nat" where
  "spinning (Spin l) = 1"
| "spinning _ = 0"

fun pc_ok :: "pc \<Rightarrow> nat set \<Rightarrow> bool" where
  "pc_ok Run H \<longleftrightarrow> True"
| "pc_ok (Spin l) H \<longleftrightarrow> l \<notin> H"
| "pc_ok (Got l) H \<longleftrightarrow> l \<in> H"
| "pc_ok (Rel l) H \<longleftrightarrow> l \<in> H"

definition cpu_inv :: "lsys \<Rightarrow> nat \<Rightarrow> bool" where
  "cpu_inv s c \<longleftrightarrow> finite (held s c) \<and> cpu_ok (cpus s c) \<and>
     ncli (cpus s c) = int (card (held s c) + spinning (pcs s c) + extra s c) \<and>
     pc_ok (pcs s c) (held s c)"

definition lock_inv :: "lsys \<Rightarrow> nat \<Rightarrow> bool" where
  "lock_inv s l \<longleftrightarrow> (locked (locks s l) \<longleftrightarrow> (\<exists>c. l \<in> held s c)) \<and>
     (\<forall>c d. l \<in> held s c \<and> l \<in> held s d \<longrightarrow> c = d) \<and>
     (\<forall>c. lcpu (locks s l) = Some c \<longleftrightarrow> l \<in> held s c \<and> pcs s c \<noteq> Got l \<and> pcs s c \<noteq> Rel l)"

definition linv :: "lsys \<Rightarrow> bool" where
  "linv s \<longleftrightarrow> (\<forall>c. cpu_inv s c) \<and> (\<forall>l. lock_inv s l)"

lemma acquire_enter_ok:
  assumes "cpu_ok c" "acquire_enter me lk c = Inr k"
  shows "cpu_ok k" "ncli k = ncli c + 1" "\<not> (locked lk \<and> lcpu lk = Some me)"
proof -
  from holding_ok [OF cpu_ok_push [OF assms(1)], of me lk]
  obtain c' where "holding me lk (pushcli c) = Inr (locked lk \<and> lcpu lk = Some me, c')"
    "ncli c' = ncli (pushcli c)" "cpu_ok c'" by blast
  with assms(2) show "cpu_ok k" "ncli k = ncli c + 1" "\<not> (locked lk \<and> lcpu lk = Some me)"
    by (auto simp: acquire_enter_def split: if_splits)
qed

lemma release_enter_ok:
  assumes "cpu_ok c" "release_enter me lk c = Inr (lk', k)"
  shows "cpu_ok k" "ncli k = ncli c" "locked lk" "lcpu lk = Some me" "lk' = lk\<lparr>lcpu := None\<rparr>"
proof -
  from holding_ok [OF assms(1), of me lk]
  obtain c' where "holding me lk c = Inr (locked lk \<and> lcpu lk = Some me, c')"
    "ncli c' = ncli c" "cpu_ok c'" by blast
  with assms(2) show "cpu_ok k" "ncli k = ncli c" "locked lk" "lcpu lk = Some me" "lk' = lk\<lparr>lcpu := None\<rparr>"
    by (auto simp: release_enter_def split: if_splits)
qed

lemma release_store_ok:
  assumes "cpu_ok c" "release_store lk c = Inr (lk', k)" "0 < ncli c"
  shows "cpu_ok k" "ncli k = ncli c - 1" "lk' = lk\<lparr>locked := False\<rparr>"
  using popcli_ok [OF assms(1,3)] assms(2) by (auto simp: release_store_def)

lemma card_pos: "finite A \<Longrightarrow> x \<in> A \<Longrightarrow> 0 < card A"
  by (auto simp: card_gt_0_iff)

lemma cpu_inv_step:
  assumes inv: "linv s" and st: "lstep s t"
  shows "cpu_inv t d"
proof -
  have ci: "cpu_inv s c" for c using inv by (simp add: linv_def)
  have ok: "cpu_ok (cpus s c)" "finite (held s c)" for c using ci [of c] by (simp_all add: cpu_inv_def)
  from st show ?thesis
  proof cases
    case (enter c l k)
    have "l \<notin> held s c"
      using acquire_enter_ok(3) [OF ok(1) enter(3)] inv enter(2) by (auto simp: linv_def lock_inv_def)
    with acquire_enter_ok(1,2) [OF ok(1) enter(3)] ci [of d] enter show ?thesis
      by (auto simp: cpu_inv_def)
  next
    case (spin c l lk)
    with ci [of d] show ?thesis by (simp add: cpu_inv_def)
  next
    case (take c l lk)
    with ci [of d] show ?thesis by (auto simp: cpu_inv_def)
  next
    case (own c l)
    with ci [of d] show ?thesis by (auto simp: cpu_inv_def)
  next
    case (leave c l lk k)
    have "l \<in> held s c"
      using release_enter_ok(4) [OF ok(1) leave(3)] inv by (auto simp: linv_def lock_inv_def)
    with release_enter_ok(1,2) [OF ok(1) leave(3)] ci [of d] leave show ?thesis
      by (auto simp: cpu_inv_def)
  next
    case (store c l lk k)
    have h: "l \<in> held s c" "ncli (cpus s c) = int (card (held s c) + extra s c)"
      using ci [of c] store(2) by (simp_all add: cpu_inv_def)
    have "0 < card (held s c)" using h(1) ok(2) by (rule card_pos [rotated])
    with release_store_ok(1,2) [OF ok(1) store(3)] h ci [of d] store ok(2) [of c] show ?thesis
      by (auto simp: cpu_inv_def)
  next
    case (push c)
    with ci [of d] show ?thesis by (auto simp: cpu_inv_def)
  next
    case (pop c k)
    with popcli_ok [OF ok(1), of c] ci [of d] ci [of c] show ?thesis
      by (auto simp: cpu_inv_def of_nat_diff)
  next
    case (sti c)
    with ci [of d] show ?thesis by (auto simp: cpu_inv_def cpu_ok_def)
  qed
qed

lemma lock_inv_step:
  assumes inv: "linv s" and st: "lstep s t"
  shows "lock_inv t m"
proof -
  have li: "lock_inv s l" for l using inv by (simp add: linv_def)
  have ci: "cpu_inv s c" for c using inv by (simp add: linv_def)
  have ok: "cpu_ok (cpus s c)" for c using ci [of c] by (simp add: cpu_inv_def)
  from st show ?thesis
  proof cases
    case (enter c l k)
    with li [of m] show ?thesis by (auto simp: lock_inv_def)
  next
    case (spin c l lk)
    with li [of m] show ?thesis by (auto simp: lock_inv_def xchg_locked_def)
  next
    case (take c l lk)
    have lc: "lcpu (locks s l) = None"
      using li [of l] take(3) by (cases "lcpu (locks s l)") (auto simp: lock_inv_def xchg_locked_def)
    show ?thesis
    proof (cases "m = l")
      case True
      with take li [of l] lc show ?thesis by (auto simp: lock_inv_def xchg_locked_def)
    next
      case False
      with take li [of m] show ?thesis by (auto simp: lock_inv_def)
    qed
  next
    case (own c l)
    have "l \<in> held s c" using ci [of c] own(2) by (simp add: cpu_inv_def)
    with own li [of m] show ?thesis
      by (cases "m = l") (auto simp: lock_inv_def acquire_record_def)
  next
    case (leave c l lk k)
    note r = release_enter_ok(3,4,5) [OF ok leave(3)]
    with leave li [of m] show ?thesis
      by (cases "m = l") (auto simp: lock_inv_def)
  next
    case (store c l lk k)
    have h: "l \<in> held s c" "finite (held s c)" "ncli (cpus s c) = int (card (held s c) + extra s c)"
      using ci [of c] store(2) by (simp_all add: cpu_inv_def)
    then have "0 < ncli (cpus s c)" using card_pos [OF h(2,1)] by simp
    note r = release_store_ok(3) [OF ok store(3) this]
    have "lcpu (locks s l) = None"
      using li [of l] store(2) h(1) by (cases "lcpu (locks s l)") (auto simp: lock_inv_def)
    with r store h(1) li [of m] show ?thesis
      by (cases "m = l") (auto simp: lock_inv_def)
  qed (use li [of m] in \<open>auto simp: lock_inv_def\<close>)
qed

interpretation spin_sys: inv_system linit lstep linv
proof
  show "linv s" if "linit s" for s
    using that by (simp add: linit_def linv_def cpu_inv_def lock_inv_def cpu_ok_def initlock_def)
  show "linv t" if "linv s" "lstep s t" for s t
    using cpu_inv_step [OF that] lock_inv_step [OF that] by (simp add: linv_def)
qed

section \<open>Properties\<close>

text \<open>
  C11. Mutual exclusion: however the processors interleave, at most one of them has taken a
  spin lock and not yet freed it, that processor runs with interrupts disabled, and a
  processor that is past \<^verbatim>\<open>acquire\<close> is the one the lock records.
\<close>

theorem spinlock_mutual_exclusion:
  assumes "reach linit lstep s" and "l \<in> held s c"
  shows "(\<forall>d. l \<in> held s d \<longrightarrow> d = c) \<and> \<not> if_flag (cpus s c) \<and>
         (pcs s c = Run \<longrightarrow> lcpu (locks s l) = Some c)"
proof -
  have inv: "linv s" using assms(1) by (rule spin_sys.reach_inv)
  then have "lock_inv s l" "cpu_inv s c" by (auto simp: linv_def)
  moreover have "0 < card (held s c)"
    using \<open>cpu_inv s c\<close> assms(2) by (auto simp: cpu_inv_def intro: card_pos)
  ultimately show ?thesis using assms(2) by (auto simp: lock_inv_def cpu_inv_def cpu_ok_def)
qed

definition lock_boot :: lsys where
  "lock_boot = \<lparr>cpus = (\<lambda>_. \<lparr>if_flag = False, ncli = 0, intena = False\<rparr>), locks = (\<lambda>_. initlock),
                pcs = (\<lambda>_. Run), held = (\<lambda>_. {}), extra = (\<lambda>_. 0)\<rparr>"

definition lock_taken :: lsys where
  "lock_taken = \<lparr>cpus = (\<lambda>c. if c = 0 then \<lparr>if_flag = False, ncli = 1, intena = False\<rparr>
                                 else \<lparr>if_flag = False, ncli = 0, intena = False\<rparr>),
     locks = (\<lambda>l. if l = 0 then \<lparr>locked = True, lcpu = Some 0\<rparr> else initlock),
     pcs = (\<lambda>_. Run), held = (\<lambda>c. if c = 0 then {0} else {}), extra = (\<lambda>_. 0)\<rparr>"

lemma lock_taken_reach: "reach linit lstep lock_taken"
proof -
  let ?k = "\<lparr>if_flag = False, ncli = 1, intena = False\<rparr> :: cpu"
  let ?s1 = "lock_boot\<lparr>cpus := (cpus lock_boot)(0 := ?k), pcs := (pcs lock_boot)(0 := Spin 0)\<rparr>"
  let ?s2 = "?s1\<lparr>locks := (locks ?s1)(0 := \<lparr>locked = True, lcpu = None\<rparr>), pcs := (pcs ?s1)(0 := Got 0),
               held := (held ?s1)(0 := insert 0 (held ?s1 0))\<rparr>"
  have "reach linit lstep lock_boot"
    by (rule reach_init) (simp add: linit_def lock_boot_def)
  moreover have "lstep lock_boot ?s1"
    by (rule lstep.enter)
       (simp_all add: lock_boot_def acquire_enter_def holding_def popcli_def pushcli_def initlock_def Let_def)
  ultimately have "reach linit lstep ?s1" by (rule reach_step)
  moreover have "lstep ?s1 ?s2"
    by (rule lstep.take) (simp_all add: lock_boot_def xchg_locked_def initlock_def)
  ultimately have "reach linit lstep ?s2" by (rule reach_step)
  moreover have "lstep ?s2 lock_taken"
  proof -
    have "lock_taken = ?s2\<lparr>locks := (locks ?s2)(0 := acquire_record 0 (locks ?s2 0)), pcs := (pcs ?s2)(0 := Run)\<rparr>"
      by (simp add: lock_taken_def lock_boot_def acquire_record_def fun_eq_iff)
    moreover have "lstep ?s2 \<dots>" by (rule lstep.own) simp
    ultimately show ?thesis by (simp only:)
  qed
  ultimately show ?thesis by (rule reach_step)
qed

theorem spinlock_mutual_exclusion_witness:
  "0 \<in> held lock_taken 0 \<and> \<not> if_flag (cpus lock_taken 0) \<and> lcpu (locks lock_taken 0) = Some 0"
proof -
  have h: "0 \<in> held lock_taken 0" "pcs lock_taken 0 = Run" by (simp_all add: lock_taken_def)
  from spinlock_mutual_exclusion [OF lock_taken_reach h(1)] h show ?thesis by blast
qed

text \<open>
  C12. Releasing never panics for the holder, and the lock code is balanced: a processor
  that acquires a free lock and releases it is left at the same nesting depth with the
  same interrupt flag, so interrupts come back on exactly if they were on before.
\<close>

theorem acquire_release_balanced:
  assumes "cpu_ok c" and "\<not> locked lk"
  shows "\<exists>c1 lk1 lk2 c2 lk3 c3.
     acquire_enter me lk c = Inr c1 \<and> xchg_locked lk = (False, lk1) \<and> \<not> if_flag c1 \<and>
     acquire_record me lk1 = lk2 \<and> release_enter me lk2 c1 = Inr (lk3, c2) \<and>
     release_store lk3 c2 = Inr (initlock, c3) \<and> if_flag c3 = if_flag c \<and> ncli c3 = ncli c"
proof -
  let ?lk2 = "\<lparr>locked = True, lcpu = Some me\<rparr>" and ?lk3 = "\<lparr>locked = True, lcpu = None\<rparr>"
  obtain c1 where h1: "holding me lk (pushcli c) = Inr (False, c1)" "ncli c1 = ncli c + 1" "cpu_ok c1"
    "\<not> if_flag c1" "intena c1 = intena (pushcli c)"
    using holding_ok [OF cpu_ok_push [OF assms(1)], of me lk] assms by (auto simp: cpu_ok_def)
  obtain c2 where h2: "holding me ?lk2 c1 = Inr (True, c2)" "ncli c2 = ncli c + 1"
    "\<not> if_flag c2" "intena c2 = intena (pushcli c)"
    using holding_ok [OF h1(3), of me ?lk2] h1 assms(1) by (auto simp: cpu_ok_def)
  obtain c3 where h3: "popcli c2 = Inr c3" "if_flag c3 = if_flag c" "ncli c3 = ncli c"
    using h2 assms(1) by (cases "ncli c = 0"; cases "if_flag c") (simp_all add: popcli_def cpu_ok_def Let_def)
  have "acquire_enter me lk c = Inr c1" by (simp add: acquire_enter_def h1(1))
  moreover have "xchg_locked lk = (False, lk\<lparr>locked := True\<rparr>)" using assms(2) by (simp add: xchg_locked_def)
  moreover have "acquire_record me (lk\<lparr>locked := True\<rparr>) = ?lk2" by (cases lk) (simp add: acquire_record_def)
  moreover have "release_enter me ?lk2 c1 = Inr (?lk3, c2)" by (simp add: release_enter_def h2(1))
  moreover have "release_store ?lk3 c2 = Inr (initlock, c3)" by (simp add: release_store_def h3(1) initlock_def)
  ultimately show ?thesis using h1(4) h3(2,3)
    by (intro exI [of _ c1] exI [of _ "lk\<lparr>locked := True\<rparr>"] exI [of _ ?lk2] exI [of _ c2]
          exI [of _ ?lk3] exI [of _ c3]) simp
qed

theorem acquire_release_balanced_witness:
  "\<exists>c1 lk1 lk2 c2 lk3 c3.
     acquire_enter 1 initlock \<lparr>if_flag = True, ncli = 0, intena = False\<rparr> = Inr c1 \<and>
     xchg_locked initlock = (False, lk1) \<and> \<not> if_flag c1 \<and>
     acquire_record 1 lk1 = lk2 \<and> release_enter 1 lk2 c1 = Inr (lk3, c2) \<and>
     release_store lk3 c2 = Inr (initlock, c3) \<and> if_flag c3 \<and> ncli c3 = 0"
  using acquire_release_balanced [of "\<lparr>if_flag = True, ncli = 0, intena = False\<rparr>" initlock 1]
  by (simp add: cpu_ok_def initlock_def)

end
