(* ===== verification/Mmu.thy ===== *)
theory Mmu
  imports Prelude
begin

text \<open>
  Address arithmetic of \<^verbatim>\<open>mmu.h\<close> and \<^verbatim>\<open>memlayout.h\<close>: the split of a linear address into
  page directory index, page table index and offset, rounding to pages, the fields of a
  page table entry, and the fixed map between physical and kernel virtual addresses.
\<close>

section \<open>Constants\<close>

abbreviation PGSIZE :: uint where "PGSIZE \<equiv> 4096"
abbreviation PTXSHIFT :: nat where "PTXSHIFT \<equiv> 12"
abbreviation PDXSHIFT :: nat where "PDXSHIFT \<equiv> 22"
abbreviation EXTMEM :: uint where "EXTMEM \<equiv> 0x100000"
abbreviation PHYSTOP :: uint where "PHYSTOP \<equiv> 0xE000000"
abbreviation DEVSPACE :: uint where "DEVSPACE \<equiv> 0xFE000000"
abbreviation KERNBASE :: uint where "KERNBASE \<equiv> 0x80000000"
abbreviation KERNLINK :: uint where "KERNLINK \<equiv> 0x80100000"
abbreviation PTE_P :: uint where "PTE_P \<equiv> 0x001"
abbreviation PTE_W :: uint where "PTE_W \<equiv> 0x002"
abbreviation PTE_U :: uint where "PTE_U \<equiv> 0x004"
abbreviation PTE_A :: uint where "PTE_A \<equiv> 0x020"
abbreviation PTE_PG :: uint where "PTE_PG \<equiv> 0x200"
abbreviation PTE_COW :: uint where "PTE_COW \<equiv> 0x800"
abbreviation NPDENTRIES :: nat where "NPDENTRIES \<equiv> 1024"
abbreviation MAXPAGES :: nat where "MAXPAGES \<equiv> 0xE000"

section \<open>Macros\<close>

definition PDX :: "uint \<Rightarrow> uint" where "PDX va = drop_bit PDXSHIFT va AND 0x3FF"
definition PTX :: "uint \<Rightarrow> uint" where "PTX va = drop_bit PTXSHIFT va AND 0x3FF"

definition PGADDR :: "uint \<Rightarrow> uint \<Rightarrow> uint \<Rightarrow> uint" where
  "PGADDR d t o' = push_bit PDXSHIFT d OR push_bit PTXSHIFT t OR o'"

definition PGROUNDUP :: "uint \<Rightarrow> uint" where
  "PGROUNDUP sz = (sz + PGSIZE - 1) AND NOT (PGSIZE - 1)"

definition PGROUNDDOWN :: "uint \<Rightarrow> uint" where
  "PGROUNDDOWN a = a AND NOT (PGSIZE - 1)"

definition PTE_ADDR :: "uint \<Rightarrow> uint" where "PTE_ADDR pte = pte AND NOT 0xFFF"
definition PTE_FLAGS :: "uint \<Rightarrow> uint" where "PTE_FLAGS pte = pte AND 0xFFF"

definition V2P :: "uint \<Rightarrow> uint" where "V2P a = a - KERNBASE"
definition P2V :: "uint \<Rightarrow> uint" where "P2V a = a + KERNBASE"

section \<open>Lemmas\<close>

lemma V2P_P2V [simp]: "V2P (P2V a) = a"
  by (simp add: V2P_def P2V_def)

lemma P2V_V2P [simp]: "P2V (V2P a) = a"
  by (simp add: V2P_def P2V_def)

lemma P2V_eq_iff [simp]: "P2V a = P2V b \<longleftrightarrow> a = b"
  by (simp add: P2V_def)

definition page_aligned :: "uint \<Rightarrow> bool" where
  "page_aligned a \<longleftrightarrow> take_bit 12 a = 0"

lemma low_mask: "(0xFFF :: uint) = mask 12"
  by (simp add: mask_eq_exp_minus_1)

lemma index_mask: "(0x3FF :: uint) = mask 10"
  by (simp add: mask_eq_exp_minus_1)

lemma PTE_FLAGS_take: "PTE_FLAGS a = take_bit 12 a"
  by (simp add: PTE_FLAGS_def low_mask take_bit_eq_mask)

lemma PTE_ADDR_push: "PTE_ADDR a = push_bit 12 (drop_bit 12 a)"
  by (rule bit_word_eqI) (auto simp: PTE_ADDR_def low_mask bit_simps)

lemma PGROUNDDOWN_push: "PGROUNDDOWN a = push_bit 12 (drop_bit 12 a)"
  by (rule bit_word_eqI) (auto simp: PGROUNDDOWN_def low_mask bit_simps)

lemma PDX_take: "PDX a = take_bit 10 (drop_bit 22 a)"
  by (simp add: PDX_def index_mask take_bit_eq_mask)

lemma PTX_take: "PTX a = take_bit 10 (drop_bit 12 a)"
  by (simp add: PTX_def index_mask take_bit_eq_mask)

lemma bit_PGROUNDDOWN: "bit (PGROUNDDOWN a) n \<longleftrightarrow> 12 \<le> n \<and> bit a n"
  by (auto simp: PGROUNDDOWN_def low_mask bit_simps dest: bit_imp_le_length)

lemma bit_PTE_ADDR: "bit (PTE_ADDR a) n \<longleftrightarrow> 12 \<le> n \<and> bit a n"
  by (auto simp: PTE_ADDR_def low_mask bit_simps dest: bit_imp_le_length)

lemma bit_PTE_FLAGS: "bit (PTE_FLAGS a) n \<longleftrightarrow> n < 12 \<and> bit a n"
  by (auto simp: PTE_FLAGS_take bit_simps)

lemma bit_PDX: "bit (PDX a) n \<longleftrightarrow> n < 10 \<and> bit a (22 + n)"
  by (auto simp: PDX_take bit_simps)

lemma bit_PTX: "bit (PTX a) n \<longleftrightarrow> n < 10 \<and> bit a (12 + n)"
  by (auto simp: PTX_take bit_simps)

lemma page_aligned_bit: "page_aligned a \<longleftrightarrow> (\<forall>n<12. \<not> bit a n)"
  by (auto simp: page_aligned_def bit_eq_iff bit_simps)

lemma page_aligned_mod: "page_aligned a \<longleftrightarrow> a mod PGSIZE = 0"
  by (simp add: page_aligned_def take_bit_eq_mod)

lemma page_aligned_PTE_ADDR [simp]: "page_aligned (PTE_ADDR a)"
  by (simp add: page_aligned_bit bit_PTE_ADDR)

lemma page_aligned_PGROUNDDOWN [simp]: "page_aligned (PGROUNDDOWN a)"
  by (simp add: page_aligned_bit bit_PGROUNDDOWN)

lemma page_aligned_PGROUNDUP [simp]: "page_aligned (PGROUNDUP a)"
  by (auto simp: page_aligned_bit PGROUNDUP_def low_mask bit_simps)

lemma frame_addr_push: "of_nat i * PGSIZE = push_bit 12 (of_nat i :: uint)"
  by (simp add: push_bit_eq_mult)

lemma page_aligned_frame [simp]: "page_aligned (of_nat i * PGSIZE)"
  by (simp add: page_aligned_bit frame_addr_push bit_simps)

lemma PTE_ADDR_or:
  assumes "page_aligned a" and "\<And>n. 12 \<le> n \<Longrightarrow> \<not> bit f n"
  shows "PTE_ADDR (a OR f) = a"
proof (rule bit_word_eqI)
  fix n
  show "bit (PTE_ADDR (a OR f)) n = bit a n"
    using assms by (cases "n < 12") (auto simp: bit_PTE_ADDR page_aligned_bit bit_simps)
qed

lemma PTE_FLAGS_or:
  assumes "page_aligned a" and "\<And>n. 12 \<le> n \<Longrightarrow> \<not> bit f n"
  shows "PTE_FLAGS (a OR f) = f"
proof (rule bit_word_eqI)
  fix n
  show "bit (PTE_FLAGS (a OR f)) n = bit f n"
    using assms by (cases "n < 12") (auto simp: bit_PTE_FLAGS page_aligned_bit bit_simps)
qed

lemma PTE_ADDR_or_FLAGS: "PTE_ADDR a OR PTE_FLAGS a = a"
  by (rule bit_word_eqI) (auto simp: bit_simps bit_PTE_ADDR bit_PTE_FLAGS)

lemma unat_PDX: "unat (PDX a) < 1024"
  by (simp add: PDX_take take_bit_eq_mod unat_mod)

lemma unat_PTX: "unat (PTX a) < 1024"
  by (simp add: PTX_take take_bit_eq_mod unat_mod)

lemma bit_PGADDR:
  "bit (PGADDR d t o') n \<longleftrightarrow>
     n < 32 \<and> (22 \<le> n \<and> bit d (n - 22) \<or> 12 \<le> n \<and> bit t (n - 12) \<or> bit o' n)"
  by (auto simp: PGADDR_def bit_simps dest: bit_imp_le_length)

lemma PGADDR_PDX_PTX: "PGADDR (PDX a) (PTX a) (PTE_FLAGS a) = a"
proof (rule bit_word_eqI)
  fix n assume "n < LENGTH(32)"
  then show "bit (PGADDR (PDX a) (PTX a) (PTE_FLAGS a)) n = bit a n"
    by (cases "n < 12"; cases "n < 22") (auto simp: bit_PGADDR bit_PDX bit_PTX bit_PTE_FLAGS)
qed

lemma same_entry_iff: "PDX a = PDX b \<and> PTX a = PTX b \<longleftrightarrow> PGROUNDDOWN a = PGROUNDDOWN b"
proof
  assume "PDX a = PDX b \<and> PTX a = PTX b"
  then have h: "bit a (22 + n) = bit b (22 + n)" "bit a (12 + n) = bit b (12 + n)" if "n < 10" for n
    using that bit_PDX [of a n] bit_PDX [of b n] bit_PTX [of a n] bit_PTX [of b n] by auto
  have "bit a n = bit b n" if "12 \<le> n" "n < 32" for n
    using h(1) [of "n - 22"] h(2) [of "n - 12"] that by (cases "22 \<le> n") auto
  then show "PGROUNDDOWN a = PGROUNDDOWN b"
    by (intro bit_word_eqI) (auto simp: bit_PGROUNDDOWN)
next
  assume "PGROUNDDOWN a = PGROUNDDOWN b"
  then have "bit a n = bit b n" if "12 \<le> n" "n < 32" for n
    using that by (auto simp: bit_eq_iff bit_PGROUNDDOWN dest!: spec [of _ n])
  then show "PDX a = PDX b \<and> PTX a = PTX b"
    by (auto intro!: bit_word_eqI simp: bit_PDX bit_PTX)
qed

lemma PGROUNDDOWN_aligned: "page_aligned a \<Longrightarrow> PGROUNDDOWN a = a"
  by (rule bit_word_eqI) (auto simp: bit_PGROUNDDOWN page_aligned_bit not_less)

lemma unat_PGROUNDDOWN: "unat (PGROUNDDOWN a) = unat a div 4096 * 4096"
proof -
  have "unat a div 4096 * 4096 < 2 ^ 32"
    using unsigned_less [of a, where 'a = nat] div_times_less_eq_dividend [of "unat a" 4096]
    by (simp del: div_times_less_eq_dividend)
  then show ?thesis
    by (simp add: PGROUNDDOWN_push push_bit_eq_mult drop_bit_eq_div unat_mult_lem [THEN iffD1] unat_div)
qed

lemma PGROUNDUP_PGROUNDDOWN: "PGROUNDUP a = PGROUNDDOWN (a + 4095)"
  by (simp add: PGROUNDUP_def PGROUNDDOWN_def add_diff_eq [symmetric])

lemma unat_PGROUNDUP:
  "unat a + 4095 < 2 ^ 32 \<Longrightarrow> unat (PGROUNDUP a) = (unat a + 4095) div 4096 * 4096"
  by (simp add: PGROUNDUP_PGROUNDDOWN unat_PGROUNDDOWN unat_add_lem [THEN iffD1])

end
