(* ===== verification/Kalloc.thy ===== *)
theory Kalloc
  imports Mmu
begin

text \<open>
  The physical page allocator of \<^verbatim>\<open>kalloc.c\<close>. Free frames are linked through \<^verbatim>\<open>runArr\<close>,
  an array indexed by frame number that also holds the reference count of each frame
  (shared frames arise from copy-on-write fork). The state is the base record of the
  kernel state, so that every later component extends it; a critical section under
  \<^verbatim>\<open>kmem.lock\<close> is one atomic operation here.
\<close>

section \<open>State\<close>

record run =
  run_next :: "nat option"
  run_ref :: int

text \<open>
  \<open>kend\<close> is the linker symbol \<^verbatim>\<open>end\<close>; \<open>pmem\<close> is physical memory, a page of bytes for
  each page base address. A pointer to \<^verbatim>\<open>runArr[i]\<close> is the index \<open>i\<close>, null is \<open>None\<close>.
\<close>

record kmem =
  kend :: uint
  use_lock :: bool
  freelist :: "nat option"
  runArr :: "nat \<Rightarrow> run"
  occupiedPages :: int
  pmem :: "uint \<Rightarrow> bytes"

section \<open>Operations\<close>

definition run_idx :: "uint \<Rightarrow> nat" where
  "run_idx v = unat (V2P v div PGSIZE)"

definition put_page :: "uint \<Rightarrow> bytes \<Rightarrow> 'a kmem_scheme \<Rightarrow> 'a kmem_scheme" where
  "put_page pa f k = k\<lparr>pmem := (pmem k)(pa := f)\<rparr>"

text \<open>\<^verbatim>\<open>memset(v, c, PGSIZE)\<close> on a whole page.\<close>

definition memset_page :: "uint \<Rightarrow> uchar \<Rightarrow> 'a kmem_scheme \<Rightarrow> 'a kmem_scheme" where
  "memset_page v c k = put_page (V2P v) (\<lambda>_. c) k"

definition kfree :: "uint \<Rightarrow> 'a kmem_scheme \<Rightarrow> 'a kmem_scheme res" where
  "kfree v k =
     (if v mod PGSIZE \<noteq> 0 \<or> v < kend k \<or> V2P v \<ge> PHYSTOP then Inl (Panic ''kfree'')
      else let k1 = memset_page v 1 k; i = run_idx v
           in if run_ref (runArr k1 i) \<noteq> 1 then Inl (Panic ''kfree: ref'')
              else Inr (k1\<lparr>runArr := (runArr k1)(i := \<lparr>run_next = freelist k1, run_ref = 0\<rparr>),
                           occupiedPages := occupiedPages k1 - 1,
                           freelist := Some i\<rparr>))"

definition kfree0 :: "uint \<Rightarrow> 'a kmem_scheme \<Rightarrow> 'a kmem_scheme res" where
  "kfree0 v k =
     (if v mod PGSIZE \<noteq> 0 \<or> v < kend k \<or> V2P v \<ge> PHYSTOP then Inl (Panic ''kfree'')
      else let k1 = memset_page v 1 k; i = run_idx v
           in Inr (k1\<lparr>runArr := (runArr k1)(i := \<lparr>run_next = freelist k1, run_ref = 0\<rparr>),
                      freelist := Some i\<rparr>))"

definition kalloc :: "'a kmem_scheme \<Rightarrow> uint \<times> 'a kmem_scheme" where
  "kalloc k =
     (case freelist k of
        None \<Rightarrow> (0, k)
      | Some i \<Rightarrow>
          (P2V (of_nat i * PGSIZE),
           k\<lparr>freelist := run_next (runArr k i),
             runArr := (runArr k)(i := (runArr k i)\<lparr>run_ref := 1\<rparr>),
             occupiedPages := occupiedPages k + 1\<rparr>))"

definition getNumberOfFreePages :: "'a kmem_scheme \<Rightarrow> int" where
  "getNumberOfFreePages k = int MAXPAGES - occupiedPages k"

definition update_ref :: "uint \<Rightarrow> (int \<Rightarrow> int) \<Rightarrow> 'a kmem_scheme \<Rightarrow> 'a kmem_scheme res" where
  "update_ref v f k =
     (let i = run_idx v
      in if i < MAXPAGES
         then Inr (k\<lparr>runArr := (runArr k)(i := (runArr k i)\<lparr>run_ref := f (run_ref (runArr k i))\<rparr>)\<rparr>)
         else Inl (Undef ''runArr''))"

definition incrementReferences :: "uint \<Rightarrow> 'a kmem_scheme \<Rightarrow> 'a kmem_scheme res" where
  "incrementReferences v k = update_ref v (\<lambda>r. r + 1) k"

definition decrementReferences :: "uint \<Rightarrow> 'a kmem_scheme \<Rightarrow> 'a kmem_scheme res" where
  "decrementReferences v k = update_ref v (\<lambda>r. r - 1) k"

definition getNumberReferences :: "uint \<Rightarrow> 'a kmem_scheme \<Rightarrow> int res" where
  "getNumberReferences v k =
     (if run_idx v < MAXPAGES then Inr (run_ref (runArr k (run_idx v))) else Inl (Undef ''runArr''))"

definition decrementReferencesAndGetPrevVal ::
  "uint \<Rightarrow> 'a kmem_scheme \<Rightarrow> (int \<times> 'a kmem_scheme) res" where
  "decrementReferencesAndGetPrevVal v k =
     rbind (getNumberReferences v k) (\<lambda>ans.
     rbind (update_ref v (\<lambda>r. if r > 1 then r - 1 else r) k) (\<lambda>k1.
     Inr (ans, k1)))"

text \<open>The idiom \<^verbatim>\<open>if(decrementReferencesAndGetPrevVal(v) == 1) kfree(v)\<close> of the callers.\<close>

definition drop_page :: "uint \<Rightarrow> 'a kmem_scheme \<Rightarrow> 'a kmem_scheme res" where
  "drop_page v k =
     rbind (decrementReferencesAndGetPrevVal v k) (\<lambda>(prev, k1).
     if prev = 1 then kfree v k1 else Inr k1)"

section \<open>Frames and addresses\<close>

lemma unat_frame: "i < MAXPAGES \<Longrightarrow> unat (of_nat i * PGSIZE) = i * 4096"
  by (simp add: unat_word_ariths unat_of_nat)

lemma frame_less_PHYSTOP: "i < MAXPAGES \<Longrightarrow> of_nat i * PGSIZE < PHYSTOP"
  by (simp add: word_less_nat_alt unat_frame)

lemma run_idx_frame [simp]: "i < MAXPAGES \<Longrightarrow> run_idx (P2V (of_nat i * PGSIZE)) = i"
  by (simp add: run_idx_def unat_div unat_frame)

lemma page_aligned_add: "page_aligned a \<Longrightarrow> page_aligned b \<Longrightarrow> page_aligned (a + b)"
proof -
  assume "page_aligned a" "page_aligned b"
  then have "push_bit 12 (drop_bit 12 a) + push_bit 12 (drop_bit 12 b) = a + b"
    by (simp add: PGROUNDDOWN_aligned flip: PGROUNDDOWN_push)
  then have "a + b = push_bit 12 (drop_bit 12 a + drop_bit 12 b)"
    by (simp add: push_bit_add)
  then show ?thesis by (simp add: page_aligned_bit bit_simps)
qed

lemma page_aligned_P2V [simp]: "page_aligned (P2V a) \<longleftrightarrow> page_aligned a"
proof -
  have base: "page_aligned KERNBASE" by (simp add: page_aligned_def)
  have "P2V a + KERNBASE = a" by (simp add: P2V_def)
  then show ?thesis
    using page_aligned_add [OF _ base, of a] page_aligned_add [OF _ base, of "P2V a"]
    unfolding P2V_def by argo
qed

lemma page_aligned_V2P [simp]: "page_aligned (V2P a) \<longleftrightarrow> page_aligned a"
  using page_aligned_P2V [of "V2P a"] by simp

lemma frame_addr_mod [simp]: "P2V (of_nat i * PGSIZE) mod PGSIZE = 0"
  by (simp flip: page_aligned_mod)

lemma P2V_frame_nonzero: "i < MAXPAGES \<Longrightarrow> P2V (of_nat i * PGSIZE) \<noteq> 0"
proof -
  assume i: "i < MAXPAGES"
  have "unat (P2V (of_nat i * PGSIZE)) = i * 4096 + 0x80000000"
    using i unat_frame [OF i] by (simp add: P2V_def unat_word_ariths)
  then show ?thesis by auto
qed

lemma frame_of_addr:
  assumes "v mod PGSIZE = 0" and "V2P v < PHYSTOP"
  shows "run_idx v < MAXPAGES" and "P2V (of_nat (run_idx v) * PGSIZE) = v"
proof -
  have lt: "unat (V2P v) < 0xE000000"
    using assms(2) by (simp add: word_less_nat_alt)
  then show "run_idx v < MAXPAGES"
    by (simp add: run_idx_def unat_div)
  have "page_aligned (V2P v)"
    using assms(1) by (simp add: page_aligned_mod [symmetric])
  then have "V2P v = push_bit 12 (drop_bit 12 (V2P v))"
    using PGROUNDDOWN_aligned [of "V2P v"] by (simp add: PGROUNDDOWN_push)
  also have "\<dots> = of_nat (run_idx v) * PGSIZE"
    by (simp add: run_idx_def push_bit_eq_mult drop_bit_eq_div)
  finally have "P2V (V2P v) = P2V (of_nat (run_idx v) * PGSIZE)"
    by (rule arg_cong)
  then show "P2V (of_nat (run_idx v) * PGSIZE) = v" by simp
qed


section \<open>Initialization\<close>

declare upt_rec_numeral [simp del]

lemma kfree0_Inr: "kfree0 v k = Inr k' \<Longrightarrow> v mod PGSIZE = 0 \<and> V2P v < PHYSTOP"
  by (auto simp: kfree0_def Let_def not_le split: if_splits)

lemma unat_kernel_page:
  assumes "V2P v < PHYSTOP"
  shows "unat v < 0x8E000000" and "unat (v + PGSIZE) = unat v + 4096"
proof -
  have "unat (V2P v) < 0xE000000" using assms by (simp add: word_less_nat_alt)
  moreover have "unat (P2V (V2P v)) = unat (V2P v) + 0x80000000"
    using calculation by (simp add: P2V_def unat_word_ariths del: P2V_V2P)
  ultimately show "unat v < 0x8E000000" by simp
  then show "unat (v + PGSIZE) = unat v + 4096" by (simp add: unat_word_ariths)
qed

function freerange_loop :: "uint \<Rightarrow> uint \<Rightarrow> 'a kmem_scheme \<Rightarrow> 'a kmem_scheme res" where
  "freerange_loop p vend k =
     (if p + PGSIZE \<le> vend
      then rbind (kfree0 p k) (\<lambda>k1. freerange_loop (p + PGSIZE) vend k1)
      else Inr k)"
  by pat_completeness auto
termination
proof (relation "measure (\<lambda>(p, vend, k). 2 ^ 32 - unat p)")
  fix p vend :: uint and k x :: "'a kmem_scheme"
  assume "kfree0 p k = Inr x"
  then show "((p + PGSIZE, vend, x), p, vend, k) \<in> measure (\<lambda>(p, vend, k). 2 ^ 32 - unat p)"
    using kfree0_Inr [of p k x] unat_kernel_page [of p] by simp
qed simp

declare freerange_loop.simps [simp del]

definition freerange :: "uint \<Rightarrow> uint \<Rightarrow> 'a kmem_scheme \<Rightarrow> 'a kmem_scheme res" where
  "freerange vstart vend k = freerange_loop (PGROUNDUP vstart) vend k"

definition kinit1 :: "uint \<Rightarrow> uint \<Rightarrow> 'a kmem_scheme \<Rightarrow> 'a kmem_scheme res" where
  "kinit1 vstart vend k = freerange vstart vend (k\<lparr>use_lock := False\<rparr>)"

definition kinit2 :: "uint \<Rightarrow> uint \<Rightarrow> 'a kmem_scheme \<Rightarrow> 'a kmem_scheme res" where
  "kinit2 vstart vend k =
     rbind (freerange vstart vend k) (\<lambda>k1. Inr (k1\<lparr>use_lock := True\<rparr>))"

section \<open>The free list\<close>

primrec fl_path :: "(nat \<Rightarrow> run) \<Rightarrow> nat option \<Rightarrow> nat list \<Rightarrow> bool" where
  "fl_path h p [] \<longleftrightarrow> p = None"
| "fl_path h p (i # is) \<longleftrightarrow> p = Some i \<and> fl_path h (run_next (h i)) is"

lemma fl_path_upd: "i \<notin> set xs \<Longrightarrow> fl_path (h(i := r)) p xs = fl_path h p xs"
  by (induction xs arbitrary: p) auto

lemma fl_path_ref [simp]:
  "fl_path (h(i := (h i)\<lparr>run_ref := r\<rparr>)) p xs = fl_path h p xs"
  by (induction xs arbitrary: p) auto

lemma fl_path_unique: "fl_path h p xs \<Longrightarrow> fl_path h p ys \<Longrightarrow> xs = ys"
proof (induction xs arbitrary: p ys)
  case (Cons i xs)
  then show ?case by (cases ys) auto
next
  case (Nil p ys)
  then show ?case by (cases ys) auto
qed

text \<open>
  The allocator invariant: \<open>xs\<close> is the free list, without repetitions; every frame on it is
  an allocatable frame with reference count 0; counts are never negative, only allocatable
  frames are counted, and \<^verbatim>\<open>occupiedPages\<close> is the number of frames in use.
\<close>

definition allocatable :: "'a kmem_scheme \<Rightarrow> nat \<Rightarrow> bool" where
  "allocatable k i \<longleftrightarrow> i < MAXPAGES \<and> kend k \<le> P2V (of_nat i * PGSIZE)"

definition in_use :: "'a kmem_scheme \<Rightarrow> nat set" where
  "in_use k = {i. i < MAXPAGES \<and> run_ref (runArr k i) \<noteq> 0}"

definition kmem_inv :: "'a kmem_scheme \<Rightarrow> nat list \<Rightarrow> bool" where
  "kmem_inv k xs \<longleftrightarrow>
     fl_path (runArr k) (freelist k) xs \<and> distinct xs \<and>
     (\<forall>i \<in> set xs. allocatable k i \<and> run_ref (runArr k i) = 0) \<and>
     (\<forall>i < MAXPAGES. 0 \<le> run_ref (runArr k i)) \<and>
     (\<forall>i \<in> in_use k. allocatable k i) \<and>
     occupiedPages k = int (card (in_use k))"

lemma in_use_lock [simp]: "in_use (k\<lparr>use_lock := b\<rparr>) = in_use k"
  by (simp add: in_use_def)

lemma kmem_inv_lock [simp]: "kmem_inv (k\<lparr>use_lock := b\<rparr>) xs = kmem_inv k xs"
  by (simp add: kmem_inv_def allocatable_def)

lemma finite_in_use [simp]: "finite (in_use k)"
  by (simp add: in_use_def)

lemma kmem_inv_unique: "kmem_inv k xs \<Longrightarrow> kmem_inv k ys \<Longrightarrow> xs = ys"
  by (auto simp: kmem_inv_def intro: fl_path_unique)

lemma free_not_in_use: "kmem_inv k xs \<Longrightarrow> i \<in> set xs \<Longrightarrow> i \<notin> in_use k"
  by (auto simp: kmem_inv_def in_use_def)

lemma kalloc_empty: "kmem_inv k [] \<Longrightarrow> kalloc k = (0, k)"
  by (simp add: kmem_inv_def kalloc_def)

lemma kalloc_Cons:
  assumes "kmem_inv k (i # xs)"
  shows "kalloc k = (P2V (of_nat i * PGSIZE),
           k\<lparr>freelist := run_next (runArr k i),
             runArr := (runArr k)(i := (runArr k i)\<lparr>run_ref := 1\<rparr>),
             occupiedPages := occupiedPages k + 1\<rparr>)"
  using assms by (simp add: kmem_inv_def kalloc_def)

lemma kalloc_inv:
  assumes inv: "kmem_inv k (i # xs)"
  shows "kmem_inv (snd (kalloc k)) xs" and "in_use (snd (kalloc k)) = insert i (in_use k)"
proof -
  have i: "i < MAXPAGES" "i \<notin> in_use k" "allocatable k i"
    using inv free_not_in_use [OF inv, of i] by (auto simp: kmem_inv_def allocatable_def)
  show use: "in_use (snd (kalloc k)) = insert i (in_use k)"
    using i by (auto simp: kalloc_Cons [OF inv] in_use_def)
  show "kmem_inv (snd (kalloc k)) xs"
    using inv i use by (auto simp: kmem_inv_def kalloc_Cons [OF inv] allocatable_def)
qed

lemma kfree_allocated:
  assumes inv: "kmem_inv k xs" and i: "i < MAXPAGES" and ref: "run_ref (runArr k i) = 1"
  shows "\<exists>k'. kfree (P2V (of_nat i * PGSIZE)) k = Inr k' \<and> kmem_inv k' (i # xs) \<and>
           in_use k' = in_use k - {i} \<and> kmem.more k' = kmem.more k \<and>
           pmem k' = (pmem k)(of_nat i * PGSIZE := (\<lambda>_. 1))"
proof -
  have use: "i \<in> in_use k" and al: "allocatable k i"
    using inv i ref by (auto simp: in_use_def kmem_inv_def)
  have nf: "i \<notin> set xs"
    using free_not_in_use [OF inv] use by auto
  let ?k = "(memset_page (P2V (of_nat i * PGSIZE)) 1 k)
     \<lparr>runArr := (runArr k)(i := \<lparr>run_next = freelist k, run_ref = 0\<rparr>),
      occupiedPages := occupiedPages k - 1, freelist := Some i\<rparr>"
  have eq: "kfree (P2V (of_nat i * PGSIZE)) k = Inr ?k"
    using i ref al frame_less_PHYSTOP [OF i]
    by (simp add: kfree_def Let_def memset_page_def put_page_def allocatable_def not_le)
  have use': "in_use ?k = in_use k - {i}"
    by (auto simp: in_use_def)
  have "fl_path (runArr ?k) (freelist ?k) (i # xs)"
    using inv nf by (simp add: kmem_inv_def fl_path_upd)
  moreover have "occupiedPages ?k = int (card (in_use ?k))"
    unfolding use' using use inv card_gt_0_iff [of "in_use k"]
    by (auto simp: kmem_inv_def card_Diff_singleton of_nat_diff)
  ultimately have "kmem_inv ?k (i # xs)"
    unfolding kmem_inv_def use' using inv nf al
    by (auto simp: kmem_inv_def allocatable_def memset_page_def put_page_def)
  with eq use' show ?thesis by (auto simp: memset_page_def put_page_def)
qed


lemma refs_inv:
  assumes "kmem_inv k xs" and "i < MAXPAGES" and "0 < run_ref (runArr k i)" and "0 < f (run_ref (runArr k i))"
  shows "\<exists>k'. update_ref (P2V (of_nat i * PGSIZE)) f k = Inr k' \<and> kmem_inv k' xs \<and> in_use k' = in_use k"
proof -
  let ?k = "k\<lparr>runArr := (runArr k)(i := (runArr k i)\<lparr>run_ref := f (run_ref (runArr k i))\<rparr>)\<rparr>"
  have use: "in_use ?k = in_use k"
    using assms by (auto simp: in_use_def)
  have "i \<notin> set xs" using assms(1,3) by (auto simp: kmem_inv_def)
  then have "kmem_inv ?k xs"
    unfolding kmem_inv_def use using assms by (auto simp: kmem_inv_def allocatable_def)
  with use assms(2) show ?thesis by (simp add: update_ref_def)
qed

lemma drop_page_shared:
  assumes "i < MAXPAGES" and "1 < run_ref (runArr k i)"
  shows "drop_page (P2V (of_nat i * PGSIZE)) k =
         Inr (k\<lparr>runArr := (runArr k)(i := (runArr k i)\<lparr>run_ref := run_ref (runArr k i) - 1\<rparr>)\<rparr>)"
  using assms
  by (simp add: drop_page_def decrementReferencesAndGetPrevVal_def getNumberReferences_def update_ref_def)

lemma drop_page_last:
  assumes "i < MAXPAGES" and "run_ref (runArr k i) = 1"
  shows "drop_page (P2V (of_nat i * PGSIZE)) k = kfree (P2V (of_nat i * PGSIZE)) k"
proof -
  have "(runArr k)(i := (runArr k i)\<lparr>run_ref := 1\<rparr>) = runArr k"
    using assms(2) by (auto simp: fun_eq_iff)
  then show ?thesis
    using assms
    by (simp add: drop_page_def decrementReferencesAndGetPrevVal_def getNumberReferences_def update_ref_def)
qed

lemma drop_page_free:
  assumes "i < MAXPAGES" and "run_ref (runArr k i) = 0"
  shows "drop_page (P2V (of_nat i * PGSIZE)) k = Inr k"
proof -
  have "(runArr k)(i := (runArr k i)\<lparr>run_ref := 0\<rparr>) = runArr k"
    using assms(2) by (auto simp: fun_eq_iff)
  then show ?thesis
    using assms
    by (simp add: drop_page_def decrementReferencesAndGetPrevVal_def getNumberReferences_def update_ref_def)
qed

lemma P2V_frame_Suc: "P2V (of_nat i * PGSIZE) + PGSIZE = P2V (of_nat (Suc i) * PGSIZE)"
  by (simp add: P2V_def algebra_simps)

lemma unat_P2V_frame: "i \<le> MAXPAGES \<Longrightarrow> unat (P2V (of_nat i * PGSIZE)) = i * 4096 + 0x80000000"
  by (simp add: P2V_def unat_word_ariths unat_of_nat)

lemma kfree0_fresh:
  assumes inv: "kmem_inv k xs" and al: "allocatable k i" and ref: "run_ref (runArr k i) = 0" and nf: "i \<notin> set xs"
  shows "\<exists>k'. kfree0 (P2V (of_nat i * PGSIZE)) k = Inr k' \<and> kmem_inv k' (i # xs) \<and>
           in_use k' = in_use k \<and> kend k' = kend k \<and> (\<forall>j. run_ref (runArr k' j) = run_ref (runArr k j))"
proof -
  have i: "i < MAXPAGES" using al by (simp add: allocatable_def)
  let ?k = "(memset_page (P2V (of_nat i * PGSIZE)) 1 k)
     \<lparr>runArr := (runArr k)(i := \<lparr>run_next = freelist k, run_ref = 0\<rparr>), freelist := Some i\<rparr>"
  have eq: "kfree0 (P2V (of_nat i * PGSIZE)) k = Inr ?k"
    using i al frame_less_PHYSTOP [OF i]
    by (simp add: kfree0_def Let_def memset_page_def put_page_def allocatable_def not_le)
  have use: "in_use ?k = in_use k"
    using ref by (auto simp: in_use_def)
  have "fl_path (runArr ?k) (freelist ?k) (i # xs)"
    using inv nf by (simp add: kmem_inv_def fl_path_upd)
  then have "kmem_inv ?k (i # xs)"
    unfolding kmem_inv_def use using inv nf al
    by (auto simp: kmem_inv_def allocatable_def memset_page_def put_page_def)
  with eq use ref show ?thesis by (auto simp: memset_page_def put_page_def)
qed

lemma freerange_frames:
  assumes "a \<le> b" "b \<le> MAXPAGES" "kmem_inv k xs"
    and "\<forall>i. a \<le> i \<and> i < b \<longrightarrow> allocatable k i \<and> run_ref (runArr k i) = 0 \<and> i \<notin> set xs"
  shows "\<exists>k'. freerange_loop (P2V (of_nat a * PGSIZE)) (P2V (of_nat b * PGSIZE)) k = Inr k' \<and>
           kmem_inv k' (rev [a..<b] @ xs) \<and> in_use k' = in_use k \<and> kend k' = kend k \<and>
           (\<forall>j. run_ref (runArr k' j) = run_ref (runArr k j))"
  using assms
proof (induction "b - a" arbitrary: a k xs)
  case 0
  then have "\<not> P2V (of_nat a * PGSIZE) + PGSIZE \<le> P2V (of_nat b * PGSIZE)"
    by (simp add: word_le_nat_alt unat_P2V_frame unat_word_ariths)
  with 0 show ?case by (simp add: freerange_loop.simps)
next
  case (Suc n)
  then have ab: "a < b" by simp
  obtain k1 where k1: "kfree0 (P2V (of_nat a * PGSIZE)) k = Inr k1" "kmem_inv k1 (a # xs)"
      "in_use k1 = in_use k" "kend k1 = kend k" "\<forall>j. run_ref (runArr k1 j) = run_ref (runArr k j)"
    using kfree0_fresh [of k xs a] Suc.prems ab by auto
  have "\<exists>k'. freerange_loop (P2V (of_nat (Suc a) * PGSIZE)) (P2V (of_nat b * PGSIZE)) k1 = Inr k' \<and>
      kmem_inv k' (rev [Suc a..<b] @ (a # xs)) \<and> in_use k' = in_use k1 \<and> kend k' = kend k1 \<and>
      (\<forall>j. run_ref (runArr k' j) = run_ref (runArr k1 j))"
    using Suc.hyps(2) ab Suc.prems k1 by (intro Suc.hyps(1)) (auto simp: allocatable_def)
  moreover have "rev [a..<b] @ xs = rev [Suc a..<b] @ (a # xs)"
    using ab by (simp add: upt_conv_Cons)
  moreover have "P2V (of_nat a * PGSIZE) + PGSIZE \<le> P2V (of_nat b * PGSIZE)"
    using ab Suc.prems(2) unat_P2V_frame [of "Suc a"] unat_P2V_frame [of b]
    by (simp add: P2V_frame_Suc word_le_nat_alt)
  ultimately show ?case
    using k1 freerange_loop.simps [of "P2V (of_nat a * PGSIZE)" "P2V (of_nat b * PGSIZE)" k]
    by (auto simp: P2V_frame_Suc)
qed


section \<open>The allocator contract\<close>

primrec alloc_n :: "('s \<Rightarrow> uint \<times> 's) \<Rightarrow> nat \<Rightarrow> 's \<Rightarrow> uint list \<times> 's" where
  "alloc_n alloc 0 s = ([], s)"
| "alloc_n alloc (Suc n) s =
     (case alloc s of (v, s1) \<Rightarrow> case alloc_n alloc n s1 of (vs, s2) \<Rightarrow> (v # vs, s2))"

text \<open>
  What the virtual memory code relies on: an allocation fails with 0 and changes nothing, or
  returns the address of a page that was not live and makes it live.
\<close>

locale page_allocator =
  fixes inv :: "'s \<Rightarrow> bool"
    and live :: "'s \<Rightarrow> uint set"
    and alloc :: "'s \<Rightarrow> uint \<times> 's"
  assumes alloc_inv: "inv s \<Longrightarrow> inv (snd (alloc s))"
    and alloc_fail: "inv s \<Longrightarrow> fst (alloc s) = 0 \<Longrightarrow> snd (alloc s) = s"
    and alloc_fresh: "inv s \<Longrightarrow> fst (alloc s) \<noteq> 0 \<Longrightarrow> fst (alloc s) \<notin> live s"
    and alloc_live: "inv s \<Longrightarrow> fst (alloc s) \<noteq> 0 \<Longrightarrow>
           live (snd (alloc s)) = insert (fst (alloc s)) (live s)"
begin

lemma live_mono: "inv s \<Longrightarrow> live s \<subseteq> live (snd (alloc s))"
  by (cases "fst (alloc s) = 0") (auto simp: alloc_fail alloc_live)

lemma alloc_n_fresh:
  "inv s \<Longrightarrow> alloc_n alloc n s = (vs, s') \<Longrightarrow>
   inv s' \<and> distinct (filter (\<lambda>v. v \<noteq> 0) vs) \<and>
   (\<forall>v \<in> set vs. v \<noteq> 0 \<longrightarrow> v \<notin> live s \<and> v \<in> live s') \<and> live s \<subseteq> live s'"
proof (induction n arbitrary: s vs)
  case (Suc n)
  obtain ws where ws: "alloc_n alloc n (snd (alloc s)) = (ws, s')" "vs = fst (alloc s) # ws"
    using Suc.prems(2) by (auto split: prod.splits)
  have IH: "inv s'" "distinct (filter (\<lambda>v. v \<noteq> 0) ws)"
    "\<And>v. v \<in> set ws \<Longrightarrow> v \<noteq> 0 \<Longrightarrow> v \<notin> live (snd (alloc s)) \<and> v \<in> live s'"
    "live (snd (alloc s)) \<subseteq> live s'"
    using Suc.IH [OF alloc_inv [OF Suc.prems(1)] ws(1)] by auto
  have "fst (alloc s) \<notin> live s \<and> fst (alloc s) \<in> live (snd (alloc s))" if "fst (alloc s) \<noteq> 0"
    using that alloc_fresh alloc_live Suc.prems(1) by simp
  with IH ws(2) live_mono [OF Suc.prems(1)] show ?case by auto
qed auto

end

definition live_pages :: "'a kmem_scheme \<Rightarrow> uint set" where
  "live_pages k = (\<lambda>i. P2V (of_nat i * PGSIZE)) ` in_use k"

lemma frame_inj:
  "i < MAXPAGES \<Longrightarrow> j < MAXPAGES \<Longrightarrow> P2V (of_nat i * PGSIZE) = P2V (of_nat j * PGSIZE) \<Longrightarrow> i = j"
  by (metis run_idx_frame)

lemma kalloc_live_cases:
  assumes "kmem_inv k xs"
  obtains (fail) "xs = []" "kalloc k = (0, k)"
  | (ok) i ys where "xs = i # ys" "i < MAXPAGES" "i \<notin> in_use k" "fst (kalloc k) = P2V (of_nat i * PGSIZE)"
      "fst (kalloc k) \<noteq> 0" "kmem_inv (snd (kalloc k)) ys" "in_use (snd (kalloc k)) = insert i (in_use k)"
proof (cases xs)
  case Nil
  with assms show ?thesis by (intro fail) (simp_all add: kalloc_empty)
next
  case (Cons i ys)
  with assms have "i < MAXPAGES" "i \<notin> in_use k"
    using free_not_in_use [OF assms, of i] by (auto simp: kmem_inv_def allocatable_def)
  moreover have "fst (kalloc k) = P2V (of_nat i * PGSIZE)"
    using assms Cons by (simp add: kalloc_Cons)
  ultimately show ?thesis
    using Cons assms kalloc_inv [of k i ys] by (intro ok) (simp_all add: P2V_frame_nonzero)
qed

definition kmem_ok :: "'a kmem_scheme \<Rightarrow> bool" where
  "kmem_ok k \<longleftrightarrow> (\<exists>xs. kmem_inv k xs)"

lemma kalloc_ok: "kmem_ok k \<Longrightarrow> kmem_ok (snd (kalloc k))"
proof -
  assume "kmem_ok k"
  then obtain xs where "kmem_inv k xs" by (auto simp: kmem_ok_def)
  then show ?thesis
  proof (cases rule: kalloc_live_cases)
    case fail
    then show ?thesis using \<open>kmem_ok k\<close> by simp
  next
    case (ok i ys)
    show ?thesis unfolding kmem_ok_def by (rule exI, rule ok(6))
  qed
qed

lemma kalloc_fail: "kmem_ok k \<Longrightarrow> fst (kalloc k) = 0 \<Longrightarrow> snd (kalloc k) = k"
proof -
  assume "kmem_ok k" and z: "fst (kalloc k) = 0"
  then obtain xs where "kmem_inv k xs" by (auto simp: kmem_ok_def)
  then show ?thesis by (cases rule: kalloc_live_cases) (simp_all add: z)
qed

lemma kalloc_not_live:
  assumes "kmem_ok k" and "fst (kalloc k) \<noteq> 0"
  shows "fst (kalloc k) \<notin> live_pages k"
proof -
  obtain xs where "kmem_inv k xs" using assms(1) by (auto simp: kmem_ok_def)
  then show ?thesis
  proof (cases rule: kalloc_live_cases)
    case (ok i ys)
    have "\<not> (\<exists>j \<in> in_use k. P2V (of_nat i * PGSIZE) = P2V (of_nat j * PGSIZE))"
    proof
      assume "\<exists>j \<in> in_use k. P2V (of_nat i * PGSIZE) = P2V (of_nat j * PGSIZE)"
      then obtain j where j: "j \<in> in_use k" "P2V (of_nat i * PGSIZE) = P2V (of_nat j * PGSIZE)" ..
      have "j < MAXPAGES" using j(1) by (simp add: in_use_def)
      from frame_inj [OF ok(2) this j(2)] j(1) ok(3) show False by simp
    qed
    then show ?thesis unfolding ok(4) live_pages_def image_iff .
  qed (use assms(2) in simp)
qed

lemma kalloc_live:
  assumes "kmem_ok k" and "fst (kalloc k) \<noteq> 0"
  shows "live_pages (snd (kalloc k)) = insert (fst (kalloc k)) (live_pages k)"
proof -
  obtain xs where "kmem_inv k xs" using assms(1) by (auto simp: kmem_ok_def)
  then show ?thesis
    by (cases rule: kalloc_live_cases) (use assms(2) in \<open>simp_all add: live_pages_def\<close>)
qed

interpretation kpages: page_allocator kmem_ok live_pages kalloc
  by (rule page_allocator.intro) (fact kalloc_ok kalloc_fail kalloc_not_live kalloc_live)+

section \<open>Properties\<close>

text \<open>
  C1. \<^verbatim>\<open>kalloc\<close> never hands out a page that is in use: any number of successive allocations
  return pairwise distinct pages (or 0 when memory is exhausted), none of which was live
  before, and all of which are live afterwards.
\<close>

theorem kalloc_fresh:
  assumes "kmem_inv k xs" and "alloc_n kalloc n k = (vs, k')"
  shows "(\<exists>ys. kmem_inv k' ys) \<and> distinct (filter (\<lambda>v. v \<noteq> 0) vs) \<and>
         {v \<in> set vs. v \<noteq> 0} \<inter> live_pages k = {} \<and> {v \<in> set vs. v \<noteq> 0} \<subseteq> live_pages k'"
proof -
  have "kmem_ok k" using assms(1) by (auto simp: kmem_ok_def)
  from kpages.alloc_n_fresh [OF this assms(2)] show ?thesis by (auto simp: kmem_ok_def)
qed

definition sample_kmem :: kmem where
  "sample_kmem = \<lparr>kend = 0x80100000, use_lock = True, freelist = Some 300,
     runArr = (\<lambda>i. if i = 300 then \<lparr>run_next = Some 301, run_ref = 0\<rparr>
                   else \<lparr>run_next = None, run_ref = 0\<rparr>),
     occupiedPages = 0, pmem = (\<lambda>_ _. 0)\<rparr>"

lemma sample_kmem_inv: "kmem_inv sample_kmem [300, 301]"
  by (simp add: kmem_inv_def sample_kmem_def allocatable_def in_use_def P2V_def)

theorem kalloc_fresh_witness:
  "(\<exists>ys. kmem_inv (snd (alloc_n kalloc 3 sample_kmem)) ys) \<and>
   distinct (filter (\<lambda>v. v \<noteq> 0) (fst (alloc_n kalloc 3 sample_kmem))) \<and>
   {v \<in> set (fst (alloc_n kalloc 3 sample_kmem)). v \<noteq> 0} \<inter> live_pages sample_kmem = {} \<and>
   {v \<in> set (fst (alloc_n kalloc 3 sample_kmem)). v \<noteq> 0} \<subseteq> live_pages (snd (alloc_n kalloc 3 sample_kmem))"
  by (rule kalloc_fresh [OF sample_kmem_inv, of 3]) simp

text \<open>
  C2. Freeing a page just allocated never panics and puts the allocator back: the same free
  list, the same pages in use, the same count of occupied pages.
\<close>

theorem kalloc_kfree:
  assumes "kmem_inv k xs" and "fst (kalloc k) \<noteq> 0"
  shows "\<exists>k'. kfree (fst (kalloc k)) (snd (kalloc k)) = Inr k' \<and> kmem_inv k' xs \<and>
           in_use k' = in_use k \<and> occupiedPages k' = occupiedPages k"
proof -
  obtain i ys where xs: "xs = i # ys" and i: "fst (kalloc k) = P2V (of_nat i * PGSIZE)"
    and inv: "kmem_inv (snd (kalloc k)) ys" "in_use (snd (kalloc k)) = insert i (in_use k)"
    and lt: "i < MAXPAGES" and fresh: "i \<notin> in_use k"
    using assms by (cases rule: kalloc_live_cases) auto
  have "run_ref (runArr (snd (kalloc k)) i) = 1"
    using assms(1) xs by (simp add: kalloc_Cons)
  then obtain k' where k': "kfree (fst (kalloc k)) (snd (kalloc k)) = Inr k'" "kmem_inv k' xs"
      "in_use k' = in_use (snd (kalloc k)) - {i}"
    using kfree_allocated [OF inv(1) lt] xs i by auto
  then have "in_use k' = in_use k" using inv(2) fresh by auto
  then show ?thesis using k' assms(1) by (auto simp: kmem_inv_def)
qed

theorem kalloc_kfree_witness:
  "\<exists>k'. kfree (fst (kalloc sample_kmem)) (snd (kalloc sample_kmem)) = Inr k' \<and> kmem_inv k' [300, 301] \<and>
     in_use k' = in_use sample_kmem \<and> occupiedPages k' = occupiedPages sample_kmem"
  by (rule kalloc_kfree [OF sample_kmem_inv]) (simp add: sample_kmem_def kalloc_def P2V_def)

text \<open>
  C3. A page with \<open>n + 1\<close> references survives \<open>n\<close> drops by \<^verbatim>\<open>decrementReferencesAndGetPrevVal\<close>
  and returns to the free list exactly at the last one; no drop panics.
\<close>

primrec drop_n :: "nat \<Rightarrow> uint \<Rightarrow> 'a kmem_scheme \<Rightarrow> 'a kmem_scheme res" where
  "drop_n 0 v k = Inr k"
| "drop_n (Suc n) v k = rbind (drop_page v k) (drop_n n v)"

lemma drop_n_shared:
  assumes "kmem_inv k xs" "i < MAXPAGES" "run_ref (runArr k i) = int n + 1"
  shows "\<exists>k'. drop_n n (P2V (of_nat i * PGSIZE)) k = Inr k' \<and> kmem_inv k' xs \<and> in_use k' = in_use k \<and>
           run_ref (runArr k' i) = 1"
  using assms
proof (induction n arbitrary: k)
  case (Suc n)
  let ?v = "P2V (of_nat i * PGSIZE)" and ?f = "\<lambda>r::int. r - 1"
  obtain k1 where k1: "update_ref ?v ?f k = Inr k1" "kmem_inv k1 xs" "in_use k1 = in_use k"
    using refs_inv [of k xs i ?f] Suc.prems by auto
  have "drop_page ?v k = Inr k1" "run_ref (runArr k1 i) = int n + 1"
    using k1(1) Suc.prems by (auto simp: drop_page_shared update_ref_def)
  with Suc.IH [OF k1(2) Suc.prems(2)] k1(3) show ?case by simp
qed simp

lemma drop_n_Suc: "drop_n (Suc n) v k = rbind (drop_n n v k) (drop_page v)"
proof (induction n arbitrary: k)
  case 0
  show ?case by (cases "drop_page v k") simp_all
next
  case (Suc n)
  then show ?case by (cases "drop_page v k") simp_all
qed

theorem shared_page_lifetime:
  assumes "kmem_inv k xs" and "i < MAXPAGES" and "run_ref (runArr k i) = int n + 1"
  shows "(\<exists>k'. drop_n n (P2V (of_nat i * PGSIZE)) k = Inr k' \<and> i \<in> in_use k' \<and> kmem_inv k' xs) \<and>
         (\<exists>k'. drop_n (Suc n) (P2V (of_nat i * PGSIZE)) k = Inr k' \<and> i \<notin> in_use k' \<and>
            kmem_inv k' (i # xs))"
proof -
  let ?v = "P2V (of_nat i * PGSIZE)"
  obtain k1 where k1: "drop_n n ?v k = Inr k1" "kmem_inv k1 xs" "in_use k1 = in_use k"
      "run_ref (runArr k1 i) = 1"
    using drop_n_shared [OF assms] by blast
  have "i \<in> in_use k1" using assms(2) k1(4) by (simp add: in_use_def)
  moreover obtain k2 where "kfree ?v k1 = Inr k2" "kmem_inv k2 (i # xs)" "in_use k2 = in_use k1 - {i}"
    using kfree_allocated [OF k1(2) assms(2) k1(4)] by auto
  ultimately show ?thesis
    using k1 by (auto simp: drop_n_Suc drop_page_last [OF assms(2)] simp del: drop_n.simps)
qed

definition sample_shared :: kmem where
  "sample_shared = sample_kmem\<lparr>runArr := (runArr sample_kmem)(400 := \<lparr>run_next = None, run_ref = 3\<rparr>),
     occupiedPages := 1\<rparr>"

lemma sample_shared_inv: "kmem_inv sample_shared [300, 301]"
proof -
  have "in_use sample_shared = {400}"
    by (auto simp: sample_shared_def sample_kmem_def in_use_def)
  then show ?thesis
    by (simp add: kmem_inv_def sample_shared_def sample_kmem_def allocatable_def P2V_def)
qed

theorem shared_page_lifetime_witness:
  "(\<exists>k'. drop_n 2 (P2V (of_nat 400 * PGSIZE)) sample_shared = Inr k' \<and> 400 \<in> in_use k' \<and> kmem_inv k' [300, 301]) \<and>
   (\<exists>k'. drop_n (Suc 2) (P2V (of_nat 400 * PGSIZE)) sample_shared = Inr k' \<and> 400 \<notin> in_use k' \<and>
      kmem_inv k' [400, 300, 301])"
  by (rule shared_page_lifetime [OF sample_shared_inv]) (simp_all add: sample_shared_def)


text \<open>
  C4. At boot, \<^verbatim>\<open>kinit1\<close> and \<^verbatim>\<open>kinit2\<close>, called by \<^verbatim>\<open>main\<close> with the kernel's end address, 4 MB and
  \<^verbatim>\<open>PHYSTOP\<close>, never panic and leave exactly the frames above the kernel image on the free list.
  \<^verbatim>\<open>getNumberOfFreePages\<close> then reports every frame of physical memory, the \<open>e\<close> frames of the
  kernel image included.
\<close>

definition first_frame :: "uint \<Rightarrow> nat" where
  "first_frame e = (unat (V2P e) + 4095) div 4096"

lemma PGROUNDUP_kend:
  assumes "KERNBASE \<le> e" "e \<le> P2V (of_nat 1024 * PGSIZE)"
  shows "PGROUNDUP e = P2V (of_nat (first_frame e) * PGSIZE)" and "first_frame e \<le> 1024"
proof -
  have un: "unat (V2P e) = unat e - 0x80000000" "0x80000000 \<le> unat e" "unat e \<le> 0x80400000"
    using assms unat_sub [OF assms(1)] by (simp_all add: V2P_def P2V_def word_le_nat_alt)
  then show le: "first_frame e \<le> 1024" by (simp add: first_frame_def)
  have "unat (PGROUNDUP e) = (unat e + 4095) div 4096 * 4096"
    using un by (intro unat_PGROUNDUP) simp
  also have "\<dots> = first_frame e * 4096 + 0x80000000"
  proof -
    obtain x where x: "unat e = x + 0x80000000" using un(2) by (metis add.commute le_Suc_ex)
    have "x + 0x80000000 + 4095 = (x + 4095) + 0x80000 * 4096" by simp
    then have "(x + 0x80000000 + 4095) div 4096 = (x + 4095) div 4096 + 0x80000"
      by (metis div_mult_self1 add.commute numeral_neq_zero)
    then show ?thesis using un(1) x by (simp add: first_frame_def)
  qed
  finally show "PGROUNDUP e = P2V (of_nat (first_frame e) * PGSIZE)"
    using le by (simp add: word_unat_eq_iff unat_P2V_frame)
qed

theorem kinit_free_list:
  assumes "kmem_inv k []" and "in_use k = {}" and "KERNBASE \<le> kend k" and "kend k \<le> P2V 0x400000"
  shows "\<exists>k1 k2. kinit1 (kend k) (P2V 0x400000) k = Inr k1 \<and>
           kinit2 (P2V 0x400000) (P2V PHYSTOP) k1 = Inr k2 \<and>
           kmem_inv k2 (rev [1024..<MAXPAGES] @ rev [first_frame (kend k)..<1024]) \<and>
           getNumberOfFreePages k2 = int MAXPAGES"
proof -
  let ?k = "k\<lparr>use_lock := False\<rparr>" and ?e = "first_frame (kend k)"
  have e: "PGROUNDUP (kend k) = P2V (of_nat ?e * PGSIZE)" "?e \<le> 1024"
    using PGROUNDUP_kend [OF assms(3)] assms(4) by simp_all
  have inv: "kmem_inv ?k []" and use: "in_use ?k = {}"
    using assms(1,2) by simp_all
  have ref: "run_ref (runArr k i) = 0" if "i < MAXPAGES" for i
    using assms(2) that by (auto simp: in_use_def)
  have al: "allocatable k i" if "?e \<le> i" "i < MAXPAGES" for i
  proof -
    have "unat (kend k) \<le> i * 4096 + 0x80000000"
    proof -
      have "unat (kend k) = unat (V2P (kend k)) + 0x80000000"
        using unat_sub [OF assms(3)] assms(3) by (simp add: V2P_def word_le_nat_alt)
      with that(1) show ?thesis by (simp add: first_frame_def)
    qed
    then show ?thesis using that(2) by (simp add: allocatable_def word_le_nat_alt unat_P2V_frame)
  qed
  have p1: "\<forall>i. ?e \<le> i \<and> i < 1024 \<longrightarrow> allocatable ?k i \<and> run_ref (runArr ?k i) = 0 \<and> i \<notin> set []"
    using ref al by (simp add: allocatable_def)
  obtain k1 where k1: "freerange_loop (P2V (of_nat ?e * PGSIZE)) (P2V (of_nat 1024 * PGSIZE)) ?k = Inr k1"
      "kmem_inv k1 (rev [?e..<1024] @ [])" "in_use k1 = in_use ?k" "kend k1 = kend ?k"
      "\<forall>j. run_ref (runArr k1 j) = run_ref (runArr ?k j)"
    using freerange_frames [OF e(2) _ inv p1] by fastforce
  have p2: "\<forall>i. 1024 \<le> i \<and> i < MAXPAGES \<longrightarrow>
      allocatable k1 i \<and> run_ref (runArr k1 i) = 0 \<and> i \<notin> set (rev [?e..<1024] @ [])"
    using k1(4,5) e(2) ref al by (simp add: allocatable_def)
  obtain k2 where k2: "freerange_loop (P2V (of_nat 1024 * PGSIZE)) (P2V (of_nat MAXPAGES * PGSIZE)) k1 = Inr k2"
      "kmem_inv k2 (rev [1024..<MAXPAGES] @ rev [?e..<1024])" "in_use k2 = in_use k1"
    using freerange_frames [OF _ _ k1(2) p2] by fastforce
  have up: "PGROUNDUP (P2V 0x400000) = P2V (of_nat 1024 * PGSIZE)"
    by (simp add: P2V_def PGROUNDUP_def)
  have "kmem_inv (k2\<lparr>use_lock := True\<rparr>) (rev [1024..<MAXPAGES] @ rev [?e..<1024])"
    using k2(2) by simp
  moreover have "getNumberOfFreePages (k2\<lparr>use_lock := True\<rparr>) = int MAXPAGES"
    using k2 k1(3) use by (simp add: getNumberOfFreePages_def kmem_inv_def)
  moreover have "kinit1 (kend k) (P2V 0x400000) k = Inr k1"
    using k1(1) e(1) by (simp add: kinit1_def freerange_def)
  moreover have "kinit2 (P2V 0x400000) (P2V PHYSTOP) k1 = Inr (k2\<lparr>use_lock := True\<rparr>)"
    using k2(1) up by (simp add: kinit2_def freerange_def)
  ultimately show ?thesis by blast
qed

definition boot_kmem :: kmem where
  "boot_kmem = \<lparr>kend = 0x80115000, use_lock = False, freelist = None,
     runArr = (\<lambda>i. \<lparr>run_next = None, run_ref = 0\<rparr>), occupiedPages = 0, pmem = (\<lambda>_ _. 0)\<rparr>"

theorem kinit_free_list_witness:
  "\<exists>k1 k2. kinit1 (kend boot_kmem) (P2V 0x400000) boot_kmem = Inr k1 \<and>
     kinit2 (P2V 0x400000) (P2V PHYSTOP) k1 = Inr k2 \<and>
     kmem_inv k2 (rev [1024..<MAXPAGES] @ rev [first_frame (kend boot_kmem)..<1024]) \<and>
     getNumberOfFreePages k2 = int MAXPAGES"
  by (rule kinit_free_list) (simp_all add: boot_kmem_def kmem_inv_def in_use_def P2V_def)

end
