(* ===== verification/Strings.thy ===== *)
theory Strings
  imports Prelude
begin

text \<open>
  The memory and string routines: \<^verbatim>\<open>string.c\<close> of the kernel and \<^verbatim>\<open>ulib.c\<close> of the user
  library. Memory is one byte store, a pointer is an offset into it, so that overlapping
  operands are really shared. A routine that scans for a terminating NUL need not stop;
  such a routine is a partial function whose value is \<open>None\<close> if it does not.
\<close>

section \<open>Kernel routines (string.c)\<close>

primrec stosb :: "bytes \<Rightarrow> nat \<Rightarrow> uchar \<Rightarrow> nat \<Rightarrow> bytes" where
  "stosb m a c 0 = m"
| "stosb m a c (Suc n) = stosb (m(a := c)) (a + 1) c n"

primrec stosl :: "bytes \<Rightarrow> nat \<Rightarrow> uint \<Rightarrow> nat \<Rightarrow> bytes" where
  "stosl m a w 0 = m"
| "stosl m a w (Suc n) = stosl (wr32 m a w) (a + 4) w n"

definition memset :: "bytes \<Rightarrow> nat \<Rightarrow> uint \<Rightarrow> nat \<Rightarrow> bytes" where
  "memset m dst c n =
     (if dst mod 4 = 0 \<and> n mod 4 = 0
      then let c = c AND 0xFF
           in stosl m dst (push_bit 24 c OR push_bit 16 c OR push_bit 8 c OR c) (n div 4)
      else stosb m dst (ucast c) n)"

primrec memcmp :: "bytes \<Rightarrow> nat \<Rightarrow> nat \<Rightarrow> nat \<Rightarrow> int" where
  "memcmp m s1 s2 0 = 0"
| "memcmp m s1 s2 (Suc n) =
     (if m s1 \<noteq> m s2 then uint (m s1) - uint (m s2) else memcmp m (s1 + 1) (s2 + 1) n)"

primrec move_back :: "bytes \<Rightarrow> nat \<Rightarrow> nat \<Rightarrow> nat \<Rightarrow> bytes" where
  "move_back m d s 0 = m"
| "move_back m d s (Suc n) = move_back (m(d + n := m (s + n))) d s n"

primrec move_forw :: "bytes \<Rightarrow> nat \<Rightarrow> nat \<Rightarrow> nat \<Rightarrow> bytes" where
  "move_forw m d s 0 = m"
| "move_forw m d s (Suc n) = move_forw (m(d := m s)) (d + 1) (s + 1) n"

definition memmove :: "bytes \<Rightarrow> nat \<Rightarrow> nat \<Rightarrow> nat \<Rightarrow> bytes" where
  "memmove m dst src n =
     (if src < dst \<and> src + n > dst then move_back m dst src n else move_forw m dst src n)"

definition memcpy :: "bytes \<Rightarrow> nat \<Rightarrow> nat \<Rightarrow> nat \<Rightarrow> bytes" where
  "memcpy m dst src n = memmove m dst src n"

primrec strncmp :: "bytes \<Rightarrow> nat \<Rightarrow> nat \<Rightarrow> nat \<Rightarrow> int" where
  "strncmp m p q 0 = 0"
| "strncmp m p q (Suc n) =
     (if m p \<noteq> 0 \<and> m p = m q then strncmp m (p + 1) (q + 1) n else uint (m p) - uint (m q))"

primrec strncpy :: "bytes \<Rightarrow> nat \<Rightarrow> nat \<Rightarrow> nat \<Rightarrow> bytes" where
  "strncpy m s t 0 = m"
| "strncpy m s t (Suc n) =
     (let m1 = m(s := m t)
      in if m t \<noteq> 0 then strncpy m1 (s + 1) (t + 1) n else stosb m1 (s + 1) 0 n)"

primrec safestrcpy_loop :: "bytes \<Rightarrow> nat \<Rightarrow> nat \<Rightarrow> nat \<Rightarrow> bytes \<times> nat" where
  "safestrcpy_loop m s t 0 = (m, s)"
| "safestrcpy_loop m s t (Suc n) =
     (let m1 = m(s := m t)
      in if m t \<noteq> 0 then safestrcpy_loop m1 (s + 1) (t + 1) n else (m1, s + 1))"

definition safestrcpy :: "bytes \<Rightarrow> nat \<Rightarrow> nat \<Rightarrow> int \<Rightarrow> bytes" where
  "safestrcpy m s t n =
     (if n \<le> 0 then m
      else case safestrcpy_loop m s t (nat (n - 1)) of (m1, s1) \<Rightarrow> m1(s1 := 0))"

partial_function (option) strlen_loop :: "bytes \<Rightarrow> nat \<Rightarrow> nat \<Rightarrow> nat option" where
  [code]: "strlen_loop m s n = (if m (s + n) \<noteq> 0 then strlen_loop m s (n + 1) else Some n)"

definition strlen :: "bytes \<Rightarrow> nat \<Rightarrow> nat option" where
  "strlen m s = strlen_loop m s 0"

section \<open>User library (ulib.c)\<close>

partial_function (option) strcpy :: "bytes \<Rightarrow> nat \<Rightarrow> nat \<Rightarrow> bytes option" where
  [code]: "strcpy m s t =
    (let m1 = m(s := m t) in if m t \<noteq> 0 then strcpy m1 (s + 1) (t + 1) else Some m1)"

partial_function (option) strcmp :: "bytes \<Rightarrow> nat \<Rightarrow> nat \<Rightarrow> int option" where
  [code]: "strcmp m p q =
    (if m p \<noteq> 0 \<and> m p = m q then strcmp m (p + 1) (q + 1) else Some (uint (m p) - uint (m q)))"

partial_function (option) strchr :: "bytes \<Rightarrow> nat \<Rightarrow> uchar \<Rightarrow> nat option option" where
  [code]: "strchr m s c =
    (if m s = 0 then Some None else if m s = c then Some (Some s) else strchr m (s + 1) c)"

definition ulib_memset :: "bytes \<Rightarrow> nat \<Rightarrow> uint \<Rightarrow> nat \<Rightarrow> bytes" where
  "ulib_memset m dst c n = stosb m dst (ucast c) n"

text \<open>\<open>ch\<close> is the numeric value of a character constant of the source.\<close>

abbreviation ch :: "char \<Rightarrow> uchar" where
  "ch c \<equiv> of_char c"

text \<open>The \<^verbatim>\<open>int\<close> accumulator of \<open>atoi\<close> is kept at its 32 bits.\<close>

partial_function (option) atoi_loop :: "bytes \<Rightarrow> nat \<Rightarrow> uint \<Rightarrow> uint option" where
  [code]: "atoi_loop m s n =
    (if ch CHR ''0'' \<le> m s \<and> m s \<le> ch CHR ''9''
     then atoi_loop m (s + 1) (n * 10 + ucast (m s) - ucast (ch CHR ''0''))
     else Some n)"

definition atoi :: "bytes \<Rightarrow> nat \<Rightarrow> uint option" where
  "atoi m s = atoi_loop m s 0"

definition ulib_memmove :: "bytes \<Rightarrow> nat \<Rightarrow> nat \<Rightarrow> int \<Rightarrow> bytes" where
  "ulib_memmove m dst src n = move_forw m dst src (nat n)"

text \<open>
  The system call \<^verbatim>\<open>read(0, &c, 1)\<close> that \<open>gets\<close> makes is a parameter: it returns the
  character read, or \<open>None\<close> at the end of the input, with the new state of the input.
\<close>

primrec gets_loop :: "('s \<Rightarrow> uchar option \<times> 's) \<Rightarrow> bytes \<Rightarrow> nat \<Rightarrow> nat \<Rightarrow> nat \<Rightarrow> 's \<Rightarrow> bytes \<times> nat \<times> 's" where
  "gets_loop rd m buf i 0 s = (m, i, s)"
| "gets_loop rd m buf i (Suc n) s =
     (case rd s of
        (None, s1) \<Rightarrow> (m, i, s1)
      | (Some c, s1) \<Rightarrow>
          let m1 = m(buf + i := c)
          in if c = ch CHR 0x0A \<or> c = ch CHR 0x0D then (m1, i + 1, s1)
             else gets_loop rd m1 buf (i + 1) n s1)"

definition gets :: "('s \<Rightarrow> uchar option \<times> 's) \<Rightarrow> bytes \<Rightarrow> nat \<Rightarrow> nat \<Rightarrow> 's \<Rightarrow> bytes \<times> 's" where
  "gets rd m buf mx s =
     (case gets_loop rd m buf 0 (mx - 1) s of (m1, i, s1) \<Rightarrow> (m1(buf + i := 0), s1))"

section \<open>Block operations\<close>

lemma stosb_fill: "stosb m a c n = (\<lambda>k. if a \<le> k \<and> k < a + n then c else m k)"
  by (induction n arbitrary: m a) (auto simp: fun_eq_iff)

lemma byte_of_rep:
  fixes c d :: uint
  assumes "c = d AND 0xFF" and "k < 4"
  shows "byte_of k (push_bit 24 c OR push_bit 16 c OR push_bit 8 c OR c) = ucast d"
proof -
  have "(0xFF :: uint) = mask 8" by (simp add: mask_eq_exp_minus_1)
  then have bc: "bit c n \<longleftrightarrow> n < 8 \<and> bit d n" for n
    using bit_imp_le_length [of d n] unfolding assms(1) by (auto simp only: bit_and_iff bit_mask_iff) simp_all
  from assms(2) consider "k = 0" | "k = 1" | "k = 2" | "k = 3" by linarith
  then show ?thesis
    by cases (auto intro!: bit_word_eqI simp: bit_byte_of bit_or_iff bit_push_bit_iff bc bit_unsigned_iff)
qed

lemma stosl_fill:
  assumes "\<And>k. k < 4 \<Longrightarrow> byte_of k w = c"
  shows "stosl m a w n = (\<lambda>k. if a \<le> k \<and> k < a + 4 * n then c else m k)"
proof (induction n arbitrary: m a)
  case (Suc n)
  have "wr32 m a w = (\<lambda>k. if a \<le> k \<and> k < a + 4 then c else m k)"
    using assms [of 0] assms [of 1] assms [of 2] assms [of 3] by (auto simp: wr32_def fun_eq_iff)
  then show ?case by (auto simp: Suc.IH fun_eq_iff)
qed (auto simp: fun_eq_iff)

lemma move_forw_blit: "d \<le> s \<or> s + n \<le> d \<Longrightarrow> move_forw m d s n = blit m d m s n"
proof (induction n arbitrary: m d s)
  case (Suc n)
  have "d + 1 \<le> s + 1 \<or> (s + 1) + n \<le> d + 1" using Suc.prems by auto
  note IH = Suc.IH [OF this]
  show ?case
  proof
    fix x
    have "Suc d \<le> x \<Longrightarrow> s + 1 + (x - (d + 1)) = s + (x - d)" by arith
    with Suc.prems show "move_forw m d s (Suc n) x = blit m d m s (Suc n) x"
      unfolding move_forw.simps IH by (auto simp: blit_def)
  qed
qed simp

lemma move_back_blit: "s \<le> d \<Longrightarrow> move_back m d s n = blit m d m s n"
  by (induction n arbitrary: m) (auto simp: blit_def fun_eq_iff)

section \<open>NUL-terminated strings\<close>

text \<open>\<open>cstr m a xs\<close>: the string \<open>xs\<close>, followed by its NUL, is at \<open>a\<close>.\<close>

fun cstr :: "bytes \<Rightarrow> nat \<Rightarrow> uchar list \<Rightarrow> bool" where
  "cstr m a [] \<longleftrightarrow> m a = 0"
| "cstr m a (x # xs) \<longleftrightarrow> x \<noteq> 0 \<and> m a = x \<and> cstr m (a + 1) xs"

lemma cstr_cong: "(\<And>k. a \<le> k \<Longrightarrow> k \<le> a + length xs \<Longrightarrow> m k = m' k) \<Longrightarrow> cstr m a xs = cstr m' a xs"
proof (induction xs arbitrary: a)
  case (Cons x xs)
  have "cstr m (a + 1) xs = cstr m' (a + 1) xs" by (rule Cons.IH) (use Cons.prems in auto)
  then show ?case using Cons.prems [of a] by simp
qed auto

lemma cstr_unique: "cstr m a xs \<Longrightarrow> cstr m a ys \<Longrightarrow> xs = ys"
proof (induction xs arbitrary: a ys)
  case Nil
  then show ?case by (cases ys) auto
next
  case (Cons x xs)
  then show ?case by (cases ys) auto
qed

lemma cstr_nth: "cstr m a xs \<Longrightarrow> k < length xs \<Longrightarrow> m (a + k) = xs ! k \<and> xs ! k \<noteq> 0"
proof (induction xs arbitrary: a k)
  case (Cons x xs)
  then show ?case by (cases k) force+
qed simp

lemma cstr_end: "cstr m a xs \<Longrightarrow> m (a + length xs) = 0"
  by (induction xs arbitrary: a) force+

lemma cstr_intro:
  "(\<And>k. k < length xs \<Longrightarrow> m (a + k) = xs ! k \<and> xs ! k \<noteq> 0) \<Longrightarrow> m (a + length xs) = 0 \<Longrightarrow> cstr m a xs"
proof (induction xs arbitrary: a)
  case (Cons x xs)
  have "cstr m (a + 1) xs"
    by (rule Cons.IH) (use Cons.prems(1) [of "Suc _"] Cons.prems(2) in auto)
  then show ?case using Cons.prems(1) [of 0] by simp
qed simp

lemma strlen_cstr: "cstr m s xs \<Longrightarrow> strlen m s = Some (length xs)"
proof -
  assume c: "cstr m s xs"
  have "n \<le> length xs \<Longrightarrow> strlen_loop m s n = Some (length xs)" for n
  proof (induction "length xs - n" arbitrary: n)
    case 0
    then show ?case using cstr_end [OF c] by (subst strlen_loop.simps) simp
  next
    case (Suc d)
    then have "n < length xs" by simp
    with cstr_nth [OF c this] Suc show ?case by (subst strlen_loop.simps) simp
  qed
  then show ?thesis by (simp add: strlen_def)
qed

text \<open>The three-way comparison of byte strings that \<^verbatim>\<open>strcmp\<close> and \<^verbatim>\<open>strncmp\<close> compute.\<close>

fun cmp_bytes :: "uchar list \<Rightarrow> uchar list \<Rightarrow> int" where
  "cmp_bytes [] [] = 0"
| "cmp_bytes [] (y # ys) = - uint y"
| "cmp_bytes (x # xs) [] = uint x"
| "cmp_bytes (x # xs) (y # ys) = (if x = y then cmp_bytes xs ys else uint x - uint y)"

lemma cmp_bytes_0: "0 \<notin> set xs \<Longrightarrow> 0 \<notin> set ys \<Longrightarrow> cmp_bytes xs ys = 0 \<longleftrightarrow> xs = ys"
  by (induction xs ys rule: cmp_bytes.induct) (auto simp: uint_0_iff dest: word_uint_eqI)

lemma strncmp_cstr:
  "cstr m p xs \<Longrightarrow> cstr m q ys \<Longrightarrow> strncmp m p q n = cmp_bytes (take n xs) (take n ys)"
proof (induction n arbitrary: p q xs ys)
  case (Suc n)
  then show ?case by (cases xs; cases ys) auto
qed simp

lemma strcmp_cstr: "cstr m p xs \<Longrightarrow> cstr m q ys \<Longrightarrow> strcmp m p q = Some (cmp_bytes xs ys)"
proof (induction xs arbitrary: p q ys)
  case Nil
  then show ?case by (cases ys) (auto simp: strcmp.simps [of m p q])
next
  case (Cons x xs)
  then show ?case by (cases ys) (auto simp: strcmp.simps [of m p q])
qed

section \<open>String copies\<close>

text \<open>\<open>apart t l s n\<close>: the \<open>l + 1\<close> bytes of a string at \<open>t\<close> are not among the \<open>n\<close> bytes at \<open>s\<close>.\<close>

abbreviation apart :: "nat \<Rightarrow> nat \<Rightarrow> nat \<Rightarrow> nat \<Rightarrow> bool" where
  "apart t l s n \<equiv> t + l < s \<or> s + n \<le> t"

lemma cstr_upd: "apart t (length xs) s (Suc n) \<Longrightarrow> cstr (m(s := c)) t xs = cstr m t xs"
  by (rule cstr_cong) auto

lemma cstr_step:
  assumes "cstr m t (x # xs)" and "apart t (length (x # xs)) s (Suc n)"
  shows "m t = x" "x \<noteq> 0" "cstr (m(s := c)) (t + 1) xs" "apart (t + 1) (length xs) (s + 1) n"
  using assms cstr_upd [of "t + 1" xs s n m c] by auto

lemma safestrcpy_loop_spec:
  assumes "cstr m t xs" and "apart t (length xs) s (Suc n)"
    and "(case safestrcpy_loop m s t n of (m1, s1) \<Rightarrow> m1(s1 := 0)) = r"
  shows "cstr r s (take n xs) \<and> (\<forall>k. k < s \<or> s + n < k \<longrightarrow> r k = m k)"
  using assms
proof (induction n arbitrary: m s t xs)
  case (Suc n)
  show ?case
  proof (cases xs)
    case Nil
    with Suc.prems show ?thesis by auto
  next
    case (Cons x ys)
    note st = cstr_step [OF Suc.prems(1) [unfolded Cons] Suc.prems(2) [unfolded Cons]]
    have "(case safestrcpy_loop (m(s := x)) (s + 1) (t + 1) n of (m1, s1) \<Rightarrow> m1(s1 := 0)) = r"
      using Suc.prems(3) st(1,2) by (simp del: fun_upd_apply)
    from Suc.IH [OF st(3,4) this]
    have "cstr r (s + 1) (take n ys)"
      and fr: "\<And>k. k < s + 1 \<or> s + 1 + n < k \<Longrightarrow> r k = (m(s := x)) k"
      by auto
    moreover have "r s = x" using fr [of s] by simp
    ultimately show ?thesis using Cons st(2) by auto
  qed
qed auto

lemma strncpy_spec:
  assumes "cstr m t xs" and "apart t (length xs) s n"
  shows "strncpy m s t n =
    (\<lambda>k. if s \<le> k \<and> k < s + n then (if k - s < length xs then xs ! (k - s) else 0) else m k)"
  using assms
proof (induction n arbitrary: m s t xs)
  case (Suc n)
  show ?case
  proof (cases xs)
    case Nil
    with Suc.prems show ?thesis by (auto simp: stosb_fill fun_eq_iff)
  next
    case (Cons x ys)
    note st = cstr_step [OF Suc.prems(1) [unfolded Cons] Suc.prems(2) [unfolded Cons]]
    have "strncpy m s t (Suc n) = strncpy (m(s := x)) (s + 1) (t + 1) n"
      using st(1,2) by simp
    also note Suc.IH [OF st(3,4)]
    finally show ?thesis using Cons by (auto simp: fun_eq_iff nth_Cons' Suc_diff_le)
  qed
qed (auto simp: fun_eq_iff)

section \<open>Properties\<close>

text \<open>
  C13. \<^verbatim>\<open>memmove\<close> copies correctly whatever the overlap of source and destination: afterwards
  the destination holds the bytes the source held before, and nothing else changed.
\<close>

theorem memmove_correct: "memmove m dst src n = blit m dst m src n"
  using move_forw_blit [of dst src n m] by (auto simp: memmove_def move_back_blit)

text \<open>
  C14. \<^verbatim>\<open>memset\<close> fills exactly its range with the low byte of \<^verbatim>\<open>c\<close>, on the word-at-a-time
  path for aligned ranges as on the byte path.
\<close>

theorem memset_correct:
  "memset m dst c n = (\<lambda>k. if dst \<le> k \<and> k < dst + n then ucast c else m k)"
proof (cases "dst mod 4 = 0 \<and> n mod 4 = 0")
  case True
  then have "4 * (n div 4) = n" by auto
  with True stosl_fill [OF byte_of_rep [OF refl], of m dst c "n div 4"] show ?thesis
    by (simp add: memset_def Let_def)
next
  case False
  then show ?thesis by (auto simp: memset_def stosb_fill)
qed

text \<open>
  C15. \<^verbatim>\<open>safestrcpy\<close> always terminates its result: for a positive size \<^verbatim>\<open>n\<close> the destination
  holds the longest prefix of the source that leaves room for the NUL, and no byte outside
  its \<^verbatim>\<open>n\<close> bytes changes.
\<close>

theorem safestrcpy_correct:
  assumes "cstr m t xs" and "0 < n" and "apart t (length xs) s (nat n)"
  shows "cstr (safestrcpy m s t n) s (take (nat n - 1) xs) \<and>
         blit (safestrcpy m s t n) s m s (nat n) = m"
proof -
  obtain m1 s1 where l: "safestrcpy_loop m s t (nat (n - 1)) = (m1, s1)" by fastforce
  have n: "Suc (nat (n - 1)) = nat n" "nat (n - 1) = nat n - 1" using assms(2) by auto
  have "safestrcpy m s t n = m1(s1 := 0)" using assms(2) l by (simp add: safestrcpy_def)
  moreover
  have "cstr (m1(s1 := 0)) s (take (nat n - 1) xs) \<and>
        (\<forall>k. k < s \<or> s + (nat n - 1) < k \<longrightarrow> (m1(s1 := 0)) k = m k)"
    using safestrcpy_loop_spec [OF assms(1), of s "nat (n - 1)"] assms(3) l n by simp
  then have sp: "cstr (m1(s1 := 0)) s (take (nat n - 1) xs)"
    "\<And>k. k < s \<or> s + (nat n - 1) < k \<Longrightarrow> (m1(s1 := 0)) k = m k"
    by blast+
  have "blit (m1(s1 := 0)) s m s (nat n) = m"
  proof
    show "blit (m1(s1 := 0)) s m s (nat n) k = m k" for k
      using sp(2) [of k] assms(2) by (auto simp: blit_def)
  qed
  ultimately show ?thesis using sp(1) by simp
qed

definition sample_mem :: bytes where
  "sample_mem = (\<lambda>k. if k < 5 then of_nat (k + 65) else 0)"

lemma sample_cstr: "cstr sample_mem 0 [65, 66, 67, 68, 69]"
  by (simp add: sample_mem_def)

theorem safestrcpy_correct_witness:
  "cstr (safestrcpy sample_mem 10 0 4) 10 [65, 66, 67] \<and>
   blit (safestrcpy sample_mem 10 0 4) 10 sample_mem 10 4 = sample_mem"
  using safestrcpy_correct [OF sample_cstr, of 4 10] by simp

text \<open>
  C16. \<^verbatim>\<open>strncmp\<close> is 0 exactly when the two strings agree on their first \<^verbatim>\<open>n\<close> characters,
  which is how \<^verbatim>\<open>namecmp\<close> decides that a directory entry has a name.
\<close>

theorem strncmp_zero_iff:
  assumes "cstr m p xs" and "cstr m q ys"
  shows "strncmp m p q n = 0 \<longleftrightarrow> take n xs = take n ys"
proof -
  have "0 \<notin> set xs" "0 \<notin> set ys"
    using cstr_nth [OF assms(1)] cstr_nth [OF assms(2)] by (metis in_set_conv_nth)+
  then have "0 \<notin> set (take n xs)" "0 \<notin> set (take n ys)" by (meson in_set_takeD)+
  then show ?thesis by (simp add: strncmp_cstr [OF assms] cmp_bytes_0)
qed

theorem strncmp_zero_iff_witness:
  "(strncmp sample_mem 0 2 3 = 0) = (take 3 [65, 66, 67, 68, 69] = take 3 [67, 68, 69 :: uchar])"
  using strncmp_zero_iff [OF sample_cstr, of 2 "[67, 68, 69]" 3] by (simp add: sample_mem_def)

end
