(* ===== verification/ProcTable.thy ===== *)
theory ProcTable
  imports Kalloc PriorityQueue Strings
begin

text \<open>
  The process table of \<^verbatim>\<open>proc.c\<close> and \<^verbatim>\<open>proc.h\<close>: the process descriptor, the operations that only
  touch the table (scheduling, sleep and wakeup, kill, the paging metadata), and the sleep
  locks of \<^verbatim>\<open>sleeplock.c\<close> that are built on them. The operations that also allocate memory or
  use the file system (\<^verbatim>\<open>fork\<close>, \<^verbatim>\<open>exit\<close>, \<^verbatim>\<open>wait\<close>) come in a later theory.
\<close>

section \<open>Process descriptors (proc.h)\<close>

abbreviation NPROC :: nat where "NPROC \<equiv> 64"
abbreviation NOFILE :: nat where "NOFILE \<equiv> 16"
abbreviation MAX_PSYC_PAGES :: nat where "MAX_PSYC_PAGES \<equiv> 16"
abbreviation MAX_TOTAL_PAGES :: nat where "MAX_TOTAL_PAGES \<equiv> 32"
abbreviation MAX_PRIO_ARR :: nat where "MAX_PRIO_ARR \<equiv> 33"

text \<open>A sleep channel is the address of a kernel object; distinct objects are distinct channels.\<close>

datatype chan =
    NoChan | ChanProc nat | ChanBuf nat | ChanInode nat | ChanLog | ChanTicks | ChanInput
  | ChanPipeRead nat | ChanPipeWrite nat | ChanIde nat

datatype procstate = UNUSED | EMBRYO | SLEEPING | RUNNABLE | RUNNING | ZOMBIE

record kcontext =
  ctx_edi :: uint
  ctx_esi :: uint
  ctx_ebx :: uint
  ctx_ebp :: uint
  ctx_eip :: uint

record trapframe =
  tf_edi :: uint
  tf_esi :: uint
  tf_ebp :: uint
  tf_ebx :: uint
  tf_edx :: uint
  tf_ecx :: uint
  tf_eax :: uint
  tf_gs :: ushort
  tf_fs :: ushort
  tf_es :: ushort
  tf_ds :: ushort
  tf_trapno :: uint
  tf_err :: uint
  tf_eip :: uint
  tf_cs :: ushort
  tf_eflags :: uint
  tf_esp :: uint
  tf_ss :: ushort

record paging_meta_data =
  pmd_va :: uint
  occupied :: bool
  pmd_pgdir :: uint
  pmd_offset :: int
  age :: uint

text \<open>
  Pointers to processes, files and inodes are indices into their tables, null is \<open>None\<close>. The
  trap frame and the saved context, which the code keeps on the kernel stack, are values here.
\<close>

record proc =
  p_sz :: uint
  p_pgdir :: uint
  p_kstack :: uint
  p_state :: procstate
  p_pid :: int
  p_parent :: "nat option"
  p_tf :: trapframe
  p_context :: kcontext
  p_chan :: chan
  p_killed :: bool
  p_ofile :: "nat option list"
  p_cwd :: "nat option"
  p_name :: "uchar list"
  p_swapFile :: "nat option"
  pagesInMemory :: int
  pagesInSwapfile :: int
  swapPmd :: "paging_meta_data list"
  ramPmd :: "paging_meta_data list"
  pagefaults :: int
  pagedout :: int
  prioArr :: "heap_p list"
  prioSize :: nat

text \<open>The kernel state of this layer: \<open>curp\<close> is the running process, \<open>cr3\<close> the page table in use.\<close>

record pstate = kmem +
  procs :: "proc list"
  curp :: "nat option"
  initproc :: "nat option"
  nextpid :: int
  cr3 :: uint

definition upd_proc :: "nat \<Rightarrow> (proc \<Rightarrow> proc) \<Rightarrow> 'a pstate_scheme \<Rightarrow> 'a pstate_scheme" where
  "upd_proc i f s = s\<lparr>procs := (procs s)[i := f (procs s ! i)]\<rparr>"

definition myproc :: "'a pstate_scheme \<Rightarrow> nat res" where
  "myproc s = (case curp s of None \<Rightarrow> Inl (Undef ''myproc'') | Some i \<Rightarrow> Inr i)"

section \<open>Paging metadata\<close>

definition initPmd :: "paging_meta_data \<Rightarrow> paging_meta_data" where
  "initPmd p = p\<lparr>pmd_va := - 1, occupied := False, pmd_offset := 0, age := 0\<rparr>"

definition initPmdArr :: "paging_meta_data list \<Rightarrow> nat \<Rightarrow> paging_meta_data list" where
  "initPmdArr pmd n = map initPmd (take n pmd) @ drop n pmd"

text \<open>
  One round of the loop of \<^verbatim>\<open>increaseProcAge\<close>, which runs \<^verbatim>\<open>i\<close> up to \<^verbatim>\<open>MAX_PRIO_ARR\<close> although
  \<^verbatim>\<open>ramPmd\<close> has only \<^verbatim>\<open>MAX_PSYC_PAGES\<close> entries.
\<close>

definition increaseAge_round :: "nat \<Rightarrow> proc \<Rightarrow> proc res" where
  "increaseAge_round i p =
     (let pageNum = index (prioArr p ! i)
      in if pageNum = - 1 then Inr p
         else if length (ramPmd p) \<le> i then Inl (Undef ''ramPmd'')
         else if \<not> occupied (ramPmd p ! i) then Inr p
         else if pageNum < 0 \<or> int (length (prioArr p)) \<le> pageNum then Inl (Undef ''prioArr'')
         else let n = nat pageNum; a = ramPmd p ! i; h = prioArr p ! n
              in Inr (p\<lparr>ramPmd := (ramPmd p)[i := a\<lparr>age := age a + 1\<rparr>],
                        prioArr := (prioArr p)[n := h\<lparr>priority := priority h + 1\<rparr>]\<rparr>))"

primrec increaseAge_loop :: "nat list \<Rightarrow> proc \<Rightarrow> proc res" where
  "increaseAge_loop [] p = Inr p"
| "increaseAge_loop (i # is) p = rbind (increaseAge_round i p) (increaseAge_loop is)"

definition increaseProcAge :: "'a pstate_scheme \<Rightarrow> 'a pstate_scheme res" where
  "increaseProcAge s =
     rbind (myproc s) (\<lambda>i.
     rbind (increaseAge_loop [0..<MAX_PRIO_ARR] (procs s ! i)) (\<lambda>p.
     Inr (upd_proc i (\<lambda>_. p) s)))"

text \<open>The two loops of \<^verbatim>\<open>decAqValues\<close> over the first \<^verbatim>\<open>MAX_PSYC_PAGES\<close> heap nodes.\<close>

definition decAq_round :: "nat \<Rightarrow> heap_p list \<Rightarrow> nat \<Rightarrow> heap_p list" where
  "decAq_round prioIndex a i =
     (if index (a ! i) \<noteq> - 1 \<and> priority (a ! i) > priority (a ! prioIndex)
      then a[i := (a ! i)\<lparr>priority := priority (a ! i) - 1\<rparr>] else a)"

definition decAqValues :: "int \<Rightarrow> 'a pstate_scheme \<Rightarrow> 'a pstate_scheme res" where
  "decAqValues idx s =
     rbind (myproc s) (\<lambda>i.
     let a = prioArr (procs s ! i)
     in case filter (\<lambda>k. idx = index (a ! k)) [0..<MAX_PSYC_PAGES] of
          [] \<Rightarrow> Inr s
        | prioIndex # _ \<Rightarrow>
            Inr (upd_proc i (\<lambda>p. p\<lparr>prioArr := fold (\<lambda>k a. decAq_round prioIndex a k) [0..<MAX_PSYC_PAGES] a\<rparr>) s))"

section \<open>Scheduling\<close>

definition wakeup1 :: "chan \<Rightarrow> proc list \<Rightarrow> proc list" where
  "wakeup1 chn = map (\<lambda>p. if p_state p = SLEEPING \<and> p_chan p = chn then p\<lparr>p_state := RUNNABLE\<rparr> else p)"

definition wakeup :: "chan \<Rightarrow> 'a pstate_scheme \<Rightarrow> 'a pstate_scheme" where
  "wakeup chn s = s\<lparr>procs := wakeup1 chn (procs s)\<rparr>"

text \<open>\<^verbatim>\<open>sleep\<close> up to its call of \<^verbatim>\<open>sched\<close>, and from its return on.\<close>

definition sleep_enter :: "nat \<Rightarrow> chan \<Rightarrow> proc list \<Rightarrow> proc list" where
  "sleep_enter i chn ps = ps[i := (ps ! i)\<lparr>p_chan := chn, p_state := SLEEPING\<rparr>]"

definition sleep_leave :: "nat \<Rightarrow> proc list \<Rightarrow> proc list" where
  "sleep_leave i ps = ps[i := (ps ! i)\<lparr>p_chan := NoChan\<rparr>]"

definition yield_enter :: "nat \<Rightarrow> proc list \<Rightarrow> proc list" where
  "yield_enter i ps = ps[i := (ps ! i)\<lparr>p_state := RUNNABLE\<rparr>]"

text \<open>The body of the scheduler loop for one table entry.\<close>

definition scheduler_pick :: "nat \<Rightarrow> proc list \<Rightarrow> proc list option" where
  "scheduler_pick i ps =
     (if p_state (ps ! i) \<noteq> RUNNABLE then None
      else Some (ps[i := (ps ! i)\<lparr>p_state := RUNNING\<rparr>]))"

text \<open>\<^verbatim>\<open>kill\<close>: the first process of the table with that pid, whatever its state.\<close>

definition find_pid :: "int \<Rightarrow> proc list \<Rightarrow> nat option" where
  "find_pid pid ps =
     (case filter (\<lambda>i. p_pid (ps ! i) = pid) [0..<length ps] of [] \<Rightarrow> None | i # _ \<Rightarrow> Some i)"

definition kill1 :: "int \<Rightarrow> proc list \<Rightarrow> int \<times> proc list" where
  "kill1 pid ps =
     (case find_pid pid ps of
        None \<Rightarrow> (- 1, ps)
      | Some i \<Rightarrow>
          (0, ps[i := (ps ! i)\<lparr>p_killed := True,
                               p_state := (if p_state (ps ! i) = SLEEPING then RUNNABLE
                                           else p_state (ps ! i))\<rparr>]))"

definition kill :: "int \<Rightarrow> 'a pstate_scheme \<Rightarrow> int \<times> 'a pstate_scheme" where
  "kill pid s = (case kill1 pid (procs s) of (r, ps) \<Rightarrow> (r, s\<lparr>procs := ps\<rparr>))"

text \<open>The part of \<^verbatim>\<open>allocproc\<close> under the table lock: claim the first unused entry.\<close>

definition find_unused :: "proc list \<Rightarrow> nat option" where
  "find_unused ps =
     (case filter (\<lambda>i. p_state (ps ! i) = UNUSED) [0..<length ps] of [] \<Rightarrow> None | i # _ \<Rightarrow> Some i)"

definition claim1 :: "int \<Rightarrow> proc list \<Rightarrow> (nat \<times> proc list) option" where
  "claim1 pid ps =
     (case find_unused ps of
        None \<Rightarrow> None
      | Some i \<Rightarrow> Some (i, ps[i := (ps ! i)\<lparr>p_state := EMBRYO, p_pid := pid\<rparr>]))"

definition claim_slot :: "'a pstate_scheme \<Rightarrow> nat option \<times> 'a pstate_scheme" where
  "claim_slot s =
     (case claim1 (nextpid s) (procs s) of
        None \<Rightarrow> (None, s)
      | Some (i, ps) \<Rightarrow> (Some i, s\<lparr>procs := ps, nextpid := nextpid s + 1\<rparr>))"

text \<open>
  The end of \<^verbatim>\<open>exit\<close> under the table lock: wake the parent, give the children to \<open>init\<close>, become
  a zombie.
\<close>

definition chan_of :: "nat option \<Rightarrow> chan" where
  "chan_of q = (case q of None \<Rightarrow> NoChan | Some i \<Rightarrow> ChanProc i)"

definition reparent_one :: "nat option \<Rightarrow> nat \<Rightarrow> nat \<Rightarrow> proc list \<Rightarrow> proc list" where
  "reparent_one ini cur i ps =
     (if p_parent (ps ! i) = Some cur
      then let ps1 = ps[i := (ps ! i)\<lparr>p_parent := ini\<rparr>]
           in if p_state (ps1 ! i) = ZOMBIE then wakeup1 (chan_of ini) ps1 else ps1
      else ps)"

definition exit_table :: "nat option \<Rightarrow> nat \<Rightarrow> proc list \<Rightarrow> proc list" where
  "exit_table ini cur ps =
     (let ps1 = wakeup1 (chan_of (p_parent (ps ! cur))) ps;
          ps2 = fold (reparent_one ini cur) [0..<length ps1] ps1
      in ps2[cur := (ps2 ! cur)\<lparr>p_state := ZOMBIE\<rparr>])"

text \<open>The scan of \<^verbatim>\<open>wait\<close>: its first zombie child, and whether it has children at all.\<close>

definition children :: "nat \<Rightarrow> proc list \<Rightarrow> nat list" where
  "children cur ps = filter (\<lambda>i. p_parent (ps ! i) = Some cur) [0..<length ps]"

definition wait_scan :: "nat \<Rightarrow> proc list \<Rightarrow> nat option \<times> bool" where
  "wait_scan cur ps =
     (case filter (\<lambda>i. p_state (ps ! i) = ZOMBIE) (children cur ps) of
        [] \<Rightarrow> (None, children cur ps \<noteq> [])
      | i # _ \<Rightarrow> (Some i, True))"

text \<open>The reset of the table entry of a reaped child (its memory is freed by the caller).\<close>

definition reap_proc :: "proc \<Rightarrow> proc" where
  "reap_proc p =
     p\<lparr>p_kstack := 0, p_pid := 0, p_parent := None, p_name := (p_name p)[0 := 0], p_killed := False,
       p_state := UNUSED,
       ramPmd := initPmdArr (ramPmd p) MAX_PSYC_PAGES,
       swapPmd := initPmdArr (swapPmd p) (MAX_TOTAL_PAGES - MAX_PSYC_PAGES),
       prioArr := initHeap (prioArr p) MAX_PRIO_ARR,
       prioSize := 0, pagesInMemory := 0\<rparr>"

section \<open>Facts about the table operations\<close>

lemma length_wakeup1 [simp]: "length (wakeup1 chn ps) = length ps"
  by (simp add: wakeup1_def)

lemma wakeup1_nth:
  "i < length ps \<Longrightarrow> wakeup1 chn ps ! i =
     (if p_state (ps ! i) = SLEEPING \<and> p_chan (ps ! i) = chn then (ps ! i)\<lparr>p_state := RUNNABLE\<rparr> else ps ! i)"
  by (simp add: wakeup1_def)

lemma wakeup1_fields [simp]:
  assumes "i < length ps"
  shows "p_pid (wakeup1 chn ps ! i) = p_pid (ps ! i)" "p_parent (wakeup1 chn ps ! i) = p_parent (ps ! i)"
    "p_chan (wakeup1 chn ps ! i) = p_chan (ps ! i)"
    "p_state (wakeup1 chn ps ! i) = (if p_state (ps ! i) = SLEEPING \<and> p_chan (ps ! i) = chn then RUNNABLE
                                     else p_state (ps ! i))"
  using assms by (simp_all add: wakeup1_nth)

lemma filter_Cons_mem: "filter P xs = i # ys \<Longrightarrow> i \<in> set xs \<and> P i"
proof -
  assume "filter P xs = i # ys"
  then have "i \<in> set (filter P xs)" by simp
  then show ?thesis by simp
qed

lemma filter_hd_Some:
  "(case filter P xs of [] \<Rightarrow> None | i # _ \<Rightarrow> Some i) = Some j \<Longrightarrow> j \<in> set xs \<and> P j"
  by (auto split: list.splits dest: filter_Cons_mem)

lemma find_unused_Some: "find_unused ps = Some i \<Longrightarrow> i < length ps \<and> p_state (ps ! i) = UNUSED"
  using filter_hd_Some [of "\<lambda>i. p_state (ps ! i) = UNUSED" "[0..<length ps]" i] by (simp add: find_unused_def)

lemma find_pid_Some: "find_pid pid ps = Some i \<Longrightarrow> i < length ps \<and> p_pid (ps ! i) = pid"
  using filter_hd_Some [of "\<lambda>i. p_pid (ps ! i) = pid" "[0..<length ps]" i] by (simp add: find_pid_def)

lemma wait_scan_None:
  "wait_scan cur ps = (None, h) \<Longrightarrow> i < length ps \<Longrightarrow> p_parent (ps ! i) = Some cur \<Longrightarrow> p_state (ps ! i) \<noteq> ZOMBIE"
  by (auto simp: wait_scan_def children_def filter_empty_conv split: list.splits)

lemma wait_scan_Some:
  "wait_scan cur ps = (Some i, h) \<Longrightarrow>
     i < length ps \<and> p_parent (ps ! i) = Some cur \<and> p_state (ps ! i) = ZOMBIE \<and> h"
  by (auto simp: wait_scan_def children_def split: list.splits dest!: filter_Cons_mem)

text \<open>
  What the reparenting loop does to each entry: the parent changes from \<open>cur\<close> to \<open>init\<close>, and
  the processes sleeping on \<open>init\<close> are woken if a zombie was handed over.
\<close>

definition reparented :: "nat option \<Rightarrow> nat \<Rightarrow> nat set \<Rightarrow> proc list \<Rightarrow> proc list \<Rightarrow> bool" where
  "reparented ini cur J ps qs \<longleftrightarrow> length qs = length ps \<and>
     (\<forall>i < length ps. p_pid (qs ! i) = p_pid (ps ! i) \<and> p_chan (qs ! i) = p_chan (ps ! i) \<and>
        p_parent (qs ! i) = (if i \<in> J \<and> p_parent (ps ! i) = Some cur then ini else p_parent (ps ! i)) \<and>
        (p_state (qs ! i) = p_state (ps ! i) \<or>
         p_state (ps ! i) = SLEEPING \<and> p_chan (ps ! i) = chan_of ini \<and> p_state (qs ! i) = RUNNABLE)) \<and>
     (\<forall>i \<in> J. p_parent (ps ! i) = Some cur \<longrightarrow> p_state (ps ! i) = ZOMBIE \<longrightarrow>
        (\<forall>k < length ps. \<not> (p_state (qs ! k) = SLEEPING \<and> p_chan (qs ! k) = chan_of ini)))"

lemma reparented_one:
  "j < length ps \<Longrightarrow> reparented ini cur {j} ps (reparent_one ini cur j ps)"
  by (simp add: reparented_def reparent_one_def Let_def nth_list_update) auto

lemma reparented_trans:
  assumes "reparented ini cur J ps qs" "reparented ini cur K qs rs" "J \<subseteq> {..<length ps}" "K \<subseteq> {..<length ps}"
  shows "reparented ini cur (J \<union> K) ps rs"
  unfolding reparented_def
proof (intro conjI allI ballI impI, goal_cases)
  case 1
  then show ?case using assms by (simp add: reparented_def)
next
  case (2 i)
  then show ?case using assms(1,2) by (simp add: reparented_def)
next
  case (3 i)
  then show ?case using assms(1,2) by (simp add: reparented_def)
next
  case (4 i)
  then show ?case using assms(1,2) by (auto simp: reparented_def)
next
  case (5 i)
  then have "p_state (qs ! i) = p_state (ps ! i) \<or>
      p_state (ps ! i) = SLEEPING \<and> p_chan (ps ! i) = chan_of ini \<and> p_state (qs ! i) = RUNNABLE"
    "p_state (rs ! i) = p_state (qs ! i) \<or>
      p_state (qs ! i) = SLEEPING \<and> p_chan (ps ! i) = chan_of ini \<and> p_state (rs ! i) = RUNNABLE"
    using assms(1,2) by (auto simp: reparented_def)
  then show ?case by auto
next
  case (6 i k)
  have len: "length qs = length ps" using assms(1) by (simp add: reparented_def)
  have k: "p_state (rs ! k) = SLEEPING \<Longrightarrow> p_state (qs ! k) = SLEEPING" "p_chan (rs ! k) = p_chan (qs ! k)"
    using assms(2) 6(4) len by (force simp: reparented_def)+
  have i: "i < length ps" using 6(1) assms(3,4) by auto
  show ?case
  proof (cases "i \<in> J")
    case True
    then have "\<not> (p_state (qs ! k) = SLEEPING \<and> p_chan (qs ! k) = chan_of ini)"
      using assms(1) 6 by (auto simp: reparented_def)
    with k show ?thesis by auto
  next
    case False
    then have "p_parent (qs ! i) = Some cur" "p_state (qs ! i) = ZOMBIE" "i \<in> K"
      using assms(1) 6 i by (auto simp: reparented_def)
    then show ?thesis using assms(2) 6(4) len by (auto simp: reparented_def)
  qed
qed

lemma reparented_fold:
  "set js \<subseteq> {..<length ps} \<Longrightarrow> reparented ini cur (set js) ps (fold (reparent_one ini cur) js ps)"
proof (induction js arbitrary: ps)
  case Nil
  then show ?case by (simp add: reparented_def)
next
  case (Cons j js)
  have one: "reparented ini cur {j} ps (reparent_one ini cur j ps)"
    using Cons.prems by (intro reparented_one) simp
  then have "length (reparent_one ini cur j ps) = length ps" by (simp add: reparented_def)
  with Cons.prems have "reparented ini cur (set js) (reparent_one ini cur j ps)
      (fold (reparent_one ini cur) (j # js) ps)" using Cons.IH [of "reparent_one ini cur j ps"] by simp
  from reparented_trans [OF one this] Cons.prems show ?case by simp
qed

lemma exit_table_spec:
  fixes ini :: "nat option"
  assumes "cur < length ps"
  defines "qs \<equiv> exit_table ini cur ps"
  shows "length qs = length ps" and "p_state (qs ! cur) = ZOMBIE"
    and "\<And>i. i < length ps \<Longrightarrow> p_pid (qs ! i) = p_pid (ps ! i) \<and> p_chan (qs ! i) = p_chan (ps ! i) \<and>
           p_parent (qs ! i) = (if p_parent (ps ! i) = Some cur then ini else p_parent (ps ! i))"
    and "\<And>i. i < length ps \<Longrightarrow> i \<noteq> cur \<Longrightarrow>
           p_state (qs ! i) = p_state (ps ! i) \<or> p_state (ps ! i) = SLEEPING \<and> p_state (qs ! i) = RUNNABLE"
    and "\<And>i. i < length ps \<Longrightarrow> p_chan (ps ! i) = chan_of (p_parent (ps ! cur)) \<Longrightarrow> p_state (qs ! i) \<noteq> SLEEPING"
    and "\<And>i k. i < length ps \<Longrightarrow> p_parent (ps ! i) = Some cur \<Longrightarrow> p_state (ps ! i) = ZOMBIE \<Longrightarrow>
           k < length ps \<Longrightarrow> p_chan (ps ! k) = chan_of ini \<Longrightarrow> p_state (qs ! k) \<noteq> SLEEPING"
proof -
  define ps1 where "ps1 = wakeup1 (chan_of (p_parent (ps ! cur))) ps"
  define ps2 where "ps2 = fold (reparent_one ini cur) [0..<length ps1] ps1"
  have qs: "qs = ps2[cur := (ps2 ! cur)\<lparr>p_state := ZOMBIE\<rparr>]"
    by (simp add: qs_def exit_table_def ps1_def ps2_def Let_def)
  have l1: "length ps1 = length ps" by (simp add: ps1_def)
  have r: "reparented ini cur {..<length ps} ps1 ps2"
    using reparented_fold [of "[0..<length ps1]" ps1 ini cur]
    by (simp add: ps2_def l1 atLeast0LessThan)
  then have l2: "length ps2 = length ps" by (simp add: reparented_def l1)
  show "length qs = length ps" "p_state (qs ! cur) = ZOMBIE" using assms(1) by (simp_all add: qs l2)
  have r2: "i < length ps \<Longrightarrow> p_pid (ps2 ! i) = p_pid (ps1 ! i) \<and> p_chan (ps2 ! i) = p_chan (ps1 ! i) \<and>
        p_parent (ps2 ! i) = (if p_parent (ps1 ! i) = Some cur then ini else p_parent (ps1 ! i)) \<and>
        (p_state (ps2 ! i) = p_state (ps1 ! i) \<or> p_state (ps1 ! i) = SLEEPING \<and> p_state (ps2 ! i) = RUNNABLE)" for i
    using r by (auto simp: reparented_def l1)
  show "p_pid (qs ! i) = p_pid (ps ! i) \<and> p_chan (qs ! i) = p_chan (ps ! i) \<and>
      p_parent (qs ! i) = (if p_parent (ps ! i) = Some cur then ini else p_parent (ps ! i))" if "i < length ps" for i
    using that r2 [OF that] by (cases "i = cur") (auto simp: qs l2 ps1_def split: if_splits)
  show "p_state (qs ! i) = p_state (ps ! i) \<or> p_state (ps ! i) = SLEEPING \<and> p_state (qs ! i) = RUNNABLE"
    if "i < length ps" "i \<noteq> cur" for i
    using that r2 [OF that(1)] by (auto simp: qs l2 ps1_def split: if_splits)
  show "p_state (qs ! i) \<noteq> SLEEPING" if "i < length ps" "p_chan (ps ! i) = chan_of (p_parent (ps ! cur))" for i
    using that r2 [OF that(1)] by (cases "i = cur") (auto simp: qs l2 ps1_def split: if_splits)
  show "p_state (qs ! k) \<noteq> SLEEPING" if "i < length ps" "p_parent (ps ! i) = Some cur"
    "p_state (ps ! i) = ZOMBIE" "k < length ps" "p_chan (ps ! k) = chan_of ini" for i k
  proof -
    have "p_parent (ps1 ! i) = Some cur" "p_state (ps1 ! i) = ZOMBIE" using that by (simp_all add: ps1_def)
    then have "\<not> (p_state (ps2 ! k) = SLEEPING \<and> p_chan (ps2 ! k) = chan_of ini)"
      using r that(1,4) by (auto simp: reparented_def l1)
    then show ?thesis using that(4,5) r2 [OF that(4)] by (cases "k = cur") (auto simp: qs l2 ps1_def)
  qed
qed

section \<open>Processes under the scheduler\<close>

text \<open>
  Every operation on the table runs under \<^verbatim>\<open>ptable.lock\<close>, so a run of the machine is a sequence of
  table operations by the processors. \<open>run_on c\<close> is the process on processor \<open>c\<close>; a process that
  gives up its processor (\<^verbatim>\<open>sched\<close>) is no longer on it.
\<close>

record ssys =
  tab :: "proc list"
  run_on :: "nat \<Rightarrow> nat option"
  pids :: int
  sini :: "nat option"

inductive sstep :: "ssys \<Rightarrow> ssys \<Rightarrow> bool" where
  pick: "run_on s c = None \<Longrightarrow> i < length (tab s) \<Longrightarrow> scheduler_pick i (tab s) = Some t \<Longrightarrow>
    sstep s (s\<lparr>tab := t, run_on := (run_on s)(c := Some i)\<rparr>)"
| yield: "run_on s c = Some i \<Longrightarrow>
    sstep s (s\<lparr>tab := yield_enter i (tab s), run_on := (run_on s)(c := None)\<rparr>)"
| sleep: "run_on s c = Some i \<Longrightarrow> (\<forall>k. chn \<noteq> ChanProc k) \<Longrightarrow>
    sstep s (s\<lparr>tab := sleep_enter i chn (tab s), run_on := (run_on s)(c := None)\<rparr>)"
| wait_sleep: "run_on s c = Some i \<Longrightarrow> wait_scan i (tab s) = (None, True) \<Longrightarrow>
    sstep s (s\<lparr>tab := sleep_enter i (ChanProc i) (tab s), run_on := (run_on s)(c := None)\<rparr>)"
| resume: "run_on s c = Some i \<Longrightarrow> sstep s (s\<lparr>tab := sleep_leave i (tab s)\<rparr>)"
| wake: "sstep s (s\<lparr>tab := wakeup1 chn (tab s)\<rparr>)"
| kill: "sstep s (s\<lparr>tab := snd (kill1 pid (tab s))\<rparr>)"
| claim: "claim1 (pids s) (tab s) = Some (i, t) \<Longrightarrow> sstep s (s\<lparr>tab := t, pids := pids s + 1\<rparr>)"
| parent: "run_on s c = Some i \<Longrightarrow> j < length (tab s) \<Longrightarrow> p_state (tab s ! j) = EMBRYO \<Longrightarrow>
    sstep s (s\<lparr>tab := (tab s)[j := (tab s ! j)\<lparr>p_parent := Some i\<rparr>]\<rparr>)"
| ready: "j < length (tab s) \<Longrightarrow> p_state (tab s ! j) = EMBRYO \<Longrightarrow>
    sstep s (s\<lparr>tab := (tab s)[j := (tab s ! j)\<lparr>p_state := RUNNABLE\<rparr>]\<rparr>)"
| drop: "j < length (tab s) \<Longrightarrow> p_state (tab s ! j) = EMBRYO \<Longrightarrow>
    sstep s (s\<lparr>tab := (tab s)[j := (tab s ! j)\<lparr>p_state := UNUSED\<rparr>]\<rparr>)"
| exit: "run_on s c = Some i \<Longrightarrow> sini s \<noteq> Some i \<Longrightarrow>
    sstep s (s\<lparr>tab := exit_table (sini s) i (tab s), run_on := (run_on s)(c := None)\<rparr>)"
| reap: "run_on s c = Some i \<Longrightarrow> wait_scan i (tab s) = (Some j, h) \<Longrightarrow>
    sstep s (s\<lparr>tab := (tab s)[j := reap_proc (tab s ! j)]\<rparr>)"

text \<open>
  The invariant: a process is RUNNING exactly when it is on one processor; pids of live
  processes are distinct; a process asleep in \<^verbatim>\<open>wait\<close> has no zombie child to collect.
\<close>

definition run_inv :: "proc list \<Rightarrow> (nat \<Rightarrow> nat option) \<Rightarrow> bool" where
  "run_inv t r \<longleftrightarrow>
     (\<forall>c i. r c = Some i \<longrightarrow> i < length t \<and> p_state (t ! i) = RUNNING) \<and>
     (\<forall>i < length t. p_state (t ! i) = RUNNING \<longrightarrow> (\<exists>c. r c = Some i)) \<and>
     (\<forall>c d i. r c = Some i \<and> r d = Some i \<longrightarrow> c = d)"

definition pid_inv :: "proc list \<Rightarrow> int \<Rightarrow> bool" where
  "pid_inv t n \<longleftrightarrow>
     (\<forall>i < length t. p_state (t ! i) \<noteq> UNUSED \<longrightarrow> p_pid (t ! i) < n) \<and>
     (\<forall>i < length t. \<forall>j < length t. p_state (t ! i) \<noteq> UNUSED \<and> p_state (t ! j) \<noteq> UNUSED \<and>
        p_pid (t ! i) = p_pid (t ! j) \<longrightarrow> i = j)"

definition wait_inv :: "proc list \<Rightarrow> bool" where
  "wait_inv t \<longleftrightarrow>
     (\<forall>i < length t. \<forall>q < length t. \<forall>k. p_state (t ! q) = SLEEPING \<longrightarrow> p_chan (t ! q) = ChanProc k \<longrightarrow>
        k = q \<and> (p_parent (t ! i) = Some q \<longrightarrow> p_state (t ! i) \<noteq> ZOMBIE))"

definition tree_inv :: "proc list \<Rightarrow> nat option \<Rightarrow> bool" where
  "tree_inv t ini \<longleftrightarrow> (\<forall>i < length t. p_parent (t ! i) = Some i \<longrightarrow> ini = Some i)"

definition sinv :: "ssys \<Rightarrow> bool" where
  "sinv s \<longleftrightarrow> run_inv (tab s) (run_on s) \<and> pid_inv (tab s) (pids s) \<and> wait_inv (tab s) \<and>
     tree_inv (tab s) (sini s)"

definition sinit :: "ssys \<Rightarrow> bool" where
  "sinit s \<longleftrightarrow> (\<forall>i < length (tab s). p_state (tab s ! i) = UNUSED \<and> p_parent (tab s ! i) = None) \<and>
     (\<forall>c. run_on s c = None)"

lemma kill1_cases:
  obtains "snd (kill1 pid ps) = ps"
  | i where "i < length ps" "p_pid (ps ! i) = pid"
      "snd (kill1 pid ps) = ps[i := (ps ! i)\<lparr>p_killed := True,
         p_state := (if p_state (ps ! i) = SLEEPING then RUNNABLE else p_state (ps ! i))\<rparr>]"
  by (cases "find_pid pid ps") (auto simp: kill1_def dest: find_pid_Some)

lemma claim1_Some:
  "claim1 pid ps = Some (i, t) \<Longrightarrow> i < length ps \<and> p_state (ps ! i) = UNUSED \<and>
     t = ps[i := (ps ! i)\<lparr>p_state := EMBRYO, p_pid := pid\<rparr>]"
  by (auto simp: claim1_def split: option.splits dest: find_unused_Some)

lemma scheduler_pick_Some:
  "scheduler_pick i ps = Some t \<Longrightarrow> p_state (ps ! i) = RUNNABLE \<and> t = ps[i := (ps ! i)\<lparr>p_state := RUNNING\<rparr>]"
  by (auto simp: scheduler_pick_def split: if_splits)

text \<open>One entry replaced: the common case of the steps.\<close>

lemma run_inv_upd:
  assumes "run_inv t r" "j < length t"
    and "\<And>c. c \<noteq> cz \<Longrightarrow> r' c = r c" "r cz = None \<or> r cz = Some j" "r' cz = (if b then Some j else None)"
    and "p_state p' = RUNNING \<longleftrightarrow> b" "p_state (t ! j) = RUNNING \<longleftrightarrow> r cz = Some j"
  shows "run_inv (t[j := p']) r'"
proof -
  have A: "r c = Some i \<Longrightarrow> i < length t \<and> p_state (t ! i) = RUNNING" for c i
    using assms(1) unfolding run_inv_def by blast
  have B: "i < length t \<Longrightarrow> p_state (t ! i) = RUNNING \<Longrightarrow> \<exists>c. r c = Some i" for i
    using assms(1) unfolding run_inv_def by blast
  have C: "r c = Some i \<Longrightarrow> r d = Some i \<Longrightarrow> c = d" for c d i
    using assms(1) unfolding run_inv_def by blast
  have nj: "c \<noteq> cz \<Longrightarrow> r c \<noteq> Some j" for c using A C assms(7) by blast
  have r': "r' c = Some i \<longleftrightarrow> (if c = cz then b \<and> i = j else r c = Some i)" for c i
    using assms(3) [of c] assms(5) by auto
  show ?thesis
    unfolding run_inv_def r'
  proof (intro conjI allI impI, goal_cases)
    case (1 c i)
    then show ?case using A [of c i] assms(2) by (auto split: if_splits)
  next
    case (2 c i)
    then show ?case using A [of c i] assms(2,6) nj [of c] by (auto simp: nth_list_update split: if_splits)
  next
    case (3 i)
    show ?case
    proof (cases "i = j")
      case True
      with 3 assms(2,6) show ?thesis by auto
    next
      case False
      with 3 B [of i] obtain c where "r c = Some i" by auto
      moreover have "c \<noteq> cz" using \<open>r c = Some i\<close> assms(4) False by auto
      ultimately show ?thesis by auto
    qed
  next
    case (4 c d i)
    then show ?case using C [of c i d] nj [of c] nj [of d] by (auto split: if_splits)
  qed
qed

lemma run_inv_cong:
  assumes "run_inv t r" "length t' = length t"
    and "\<And>i. i < length t \<Longrightarrow> p_state (t' ! i) = RUNNING \<longleftrightarrow> p_state (t ! i) = RUNNING"
  shows "run_inv t' r"
  using assms unfolding run_inv_def by metis

lemma run_inv_same:
  "run_inv t r \<Longrightarrow> p_state p' = RUNNING \<longleftrightarrow> p_state (t ! j) = RUNNING \<Longrightarrow> run_inv (t[j := p']) r"
  by (rule run_inv_cong, assumption, simp) (auto simp: nth_upd)

lemma run_inv_running: "run_inv t r \<Longrightarrow> r c = Some i \<Longrightarrow> i < length t \<and> p_state (t ! i) = RUNNING"
  unfolding run_inv_def by blast

lemma pid_inv_upd:
  assumes "pid_inv t n" "j < length t" "n \<le> n'"
    and "p_state p' \<noteq> UNUSED \<Longrightarrow> p_state (t ! j) \<noteq> UNUSED \<and> p_pid p' = p_pid (t ! j) \<or> p_pid p' = n \<and> n < n'"
  shows "pid_inv (t[j := p']) n'"
proof -
  have A: "i < length t \<Longrightarrow> p_state (t ! i) \<noteq> UNUSED \<Longrightarrow> p_pid (t ! i) < n" for i
    using assms(1) unfolding pid_inv_def by blast
  have B: "i < length t \<Longrightarrow> k < length t \<Longrightarrow> p_state (t ! i) \<noteq> UNUSED \<Longrightarrow> p_state (t ! k) \<noteq> UNUSED \<Longrightarrow>
      p_pid (t ! i) = p_pid (t ! k) \<Longrightarrow> i = k" for i k
    using assms(1) unfolding pid_inv_def by blast
  have j: "p_state p' \<noteq> UNUSED \<Longrightarrow> p_pid p' < n'" using assms(4) A [OF assms(2)] assms(3) by auto
  have jk: "k < length t \<Longrightarrow> k \<noteq> j \<Longrightarrow> p_state (t ! k) \<noteq> UNUSED \<Longrightarrow> p_state p' \<noteq> UNUSED \<Longrightarrow>
      p_pid (t ! k) \<noteq> p_pid p'" for k
    using assms(4) A [of k] B [of k j] assms(2) by auto
  show ?thesis
    unfolding pid_inv_def
  proof (intro conjI allI impI, goal_cases)
    case (1 i)
    then show ?case using j A [of i] assms(3) by (cases "i = j") auto
  next
    case (2 i k)
    then show ?case using jk [of i] jk [of k] B [of i k] assms(2) by (cases "i = j"; cases "k = j") auto
  qed
qed

lemma wait_inv_upd:
  assumes "wait_inv t" "j < length t"
    and "p_state p' = SLEEPING \<Longrightarrow> p_chan p' = ChanProc k \<Longrightarrow>
           k = j \<and> (\<forall>i < length t. p_parent (t ! i) = Some j \<longrightarrow> p_state (t ! i) \<noteq> ZOMBIE)"
    and "p_state p' = ZOMBIE \<Longrightarrow> p_state (t ! j) = ZOMBIE \<and> p_parent p' = p_parent (t ! j)"
    and "\<And>k'. p_state p' = SLEEPING \<Longrightarrow> p_chan p' = ChanProc k' \<Longrightarrow> k' = k"
  shows "wait_inv (t[j := p'])"
proof -
  have A: "i < length t \<Longrightarrow> q < length t \<Longrightarrow> p_state (t ! q) = SLEEPING \<Longrightarrow> p_chan (t ! q) = ChanProc m \<Longrightarrow>
      m = q \<and> (p_parent (t ! i) = Some q \<longrightarrow> p_state (t ! i) \<noteq> ZOMBIE)" for i q m
    using assms(1) unfolding wait_inv_def by blast
  have "m = q \<and> (p_parent (t[j := p'] ! i) = Some q \<longrightarrow> p_state (t[j := p'] ! i) \<noteq> ZOMBIE)"
    if h: "i < length t" "q < length t" "p_state (t[j := p'] ! q) = SLEEPING" "p_chan (t[j := p'] ! q) = ChanProc m" for i q m
  proof (cases "q = j")
    case True
    with h assms(2) have p': "p_state p' = SLEEPING" "p_chan p' = ChanProc m" by simp_all
    from assms(5) [OF this] have m: "m = k" .
    with assms(3) [OF p'(1)] p'(2) have k: "k = j" "\<forall>i < length t. p_parent (t ! i) = Some j \<longrightarrow> p_state (t ! i) \<noteq> ZOMBIE"
      by simp_all
    with True m h(1) p' show ?thesis by (simp add: nth_upd)
  next
    case False
    with h have q: "p_state (t ! q) = SLEEPING" "p_chan (t ! q) = ChanProc m" by simp_all
    show ?thesis
    proof (cases "i = j")
      case True
      with A [OF assms(2) h(2) q] assms(2,4) show ?thesis by auto
    next
      case False
      with A [OF h(1,2) q] show ?thesis by simp
    qed
  qed
  then show ?thesis unfolding wait_inv_def length_list_update by blast
qed

lemma wait_inv_plain:
  assumes "wait_inv t" "j < length t" "\<not> (p_state p' = SLEEPING \<and> (\<exists>k. p_chan p' = ChanProc k))"
    and "p_state p' = ZOMBIE \<Longrightarrow> p_state (t ! j) = ZOMBIE \<and> p_parent p' = p_parent (t ! j)"
  shows "wait_inv (t[j := p'])"
  by (rule wait_inv_upd [OF assms(1,2), of _ 0]) (use assms(3,4) in auto)

lemma tree_inv_upd:
  assumes "tree_inv t ini" "p_parent p' = p_parent (t ! j) \<or> p_parent p' \<noteq> Some j"
  shows "tree_inv (t[j := p']) ini"
  unfolding tree_inv_def
proof (intro allI impI)
  fix i
  assume i: "i < length (t[j := p'])" "p_parent (t[j := p'] ! i) = Some i"
  show "ini = Some i"
    using assms i by (cases "i = j") (simp_all add: tree_inv_def)
qed

text \<open>The steps that change the whole table: a wakeup and the end of \<^verbatim>\<open>exit\<close>.\<close>

lemma wakeup1_inv:
  "run_inv t r \<Longrightarrow> run_inv (wakeup1 chn t) r" "pid_inv t n \<Longrightarrow> pid_inv (wakeup1 chn t) n"
  "wait_inv t \<Longrightarrow> wait_inv (wakeup1 chn t)" "tree_inv t ini \<Longrightarrow> tree_inv (wakeup1 chn t) ini"
proof -
  show "run_inv (wakeup1 chn t) r" if "run_inv t r" by (rule run_inv_cong [OF that]) auto
  show "pid_inv (wakeup1 chn t) n" if "pid_inv t n"
  proof -
    have "p_state (wakeup1 chn t ! i) \<noteq> UNUSED \<longleftrightarrow> p_state (t ! i) \<noteq> UNUSED" if "i < length t" for i
      using that by auto
    with that show ?thesis by (simp add: pid_inv_def)
  qed
  show "wait_inv (wakeup1 chn t)" if "wait_inv t"
  proof -
    have s: "p_state (wakeup1 chn t ! i) = SLEEPING \<Longrightarrow> p_state (t ! i) = SLEEPING"
      "p_state (wakeup1 chn t ! i) = ZOMBIE \<Longrightarrow> p_state (t ! i) = ZOMBIE" if "i < length t" for i
      using that by (auto split: if_splits)
    from that show ?thesis unfolding wait_inv_def by (auto dest: s)
  qed
  show "tree_inv (wakeup1 chn t) ini" if "tree_inv t ini" using that by (simp add: tree_inv_def)
qed

lemma run_inv_leave:
  assumes "run_inv t r" "r c = Some i" "p_state p' \<noteq> RUNNING"
  shows "run_inv (t[i := p']) (r(c := None))"
  by (rule run_inv_upd [OF assms(1), where cz = c and b = False])
     (use assms run_inv_running [OF assms(1,2)] in auto)

lemma exit_table_run:
  assumes "run_inv t r" "r c = Some i"
  shows "run_inv (exit_table ini i t) (r(c := None))"
proof -
  have i: "i < length t" using run_inv_running [OF assms] by simp
  note sp = exit_table_spec [OF i, where ini = ini]
  have "run_inv (t[i := (t ! i)\<lparr>p_state := ZOMBIE\<rparr>]) (r(c := None))"
    by (rule run_inv_leave [OF assms]) simp
  then show ?thesis
  proof (rule run_inv_cong)
    fix k assume "k < length (t[i := (t ! i)\<lparr>p_state := ZOMBIE\<rparr>])"
    then show "p_state (exit_table ini i t ! k) = RUNNING \<longleftrightarrow>
      p_state (t[i := (t ! i)\<lparr>p_state := ZOMBIE\<rparr>] ! k) = RUNNING"
      using sp(2) sp(4) [of k] i by (cases "k = i") auto
  qed (simp add: sp(1))
qed

lemma exit_table_pid:
  assumes "pid_inv t n" "i < length t" "p_state (t ! i) \<noteq> UNUSED"
  shows "pid_inv (exit_table ini i t) n"
proof -
  note sp = exit_table_spec [OF assms(2), where ini = ini]
  have u: "p_state (exit_table ini i t ! k) \<noteq> UNUSED \<longleftrightarrow> p_state (t ! k) \<noteq> UNUSED" if "k < length t" for k
    using sp(2) sp(4) [OF that] assms(3) by (cases "k = i") auto
  with assms(1) sp(1,3) show ?thesis by (simp add: pid_inv_def)
qed

lemma exit_table_wait:
  assumes "wait_inv t" "i < length t" "p_state (t ! i) = RUNNING" "p_parent (t ! i) \<noteq> Some i"
  shows "wait_inv (exit_table ini i t)"
proof -
  note sp = exit_table_spec [OF assms(2), where ini = ini]
  have "k = q \<and> (p_parent (exit_table ini i t ! j) = Some q \<longrightarrow> p_state (exit_table ini i t ! j) \<noteq> ZOMBIE)"
    if h: "j < length t" "q < length t" "p_state (exit_table ini i t ! q) = SLEEPING"
      "p_chan (exit_table ini i t ! q) = ChanProc k" for j q k
  proof -
    have q: "q \<noteq> i" using h(3) sp(2) by auto
    with h sp(4) [OF h(2)] have sl: "p_state (t ! q) = SLEEPING" by auto
    have cq: "p_chan (t ! q) = ChanProc k" using h(4) sp(3) [OF h(2)] by simp
    have w: "m < length t \<Longrightarrow> k = q \<and> (p_parent (t ! m) = Some q \<longrightarrow> p_state (t ! m) \<noteq> ZOMBIE)" for m
      using assms(1) h(2) sl cq unfolding wait_inv_def by blast
    have k: "k = q" using w [OF h(1)] by simp
    have False if z: "p_parent (exit_table ini i t ! j) = Some q" "p_state (exit_table ini i t ! j) = ZOMBIE"
    proof (cases "p_parent (t ! j) = Some i")
      case True
      with z(1) sp(3) [OF h(1)] have ini: "ini = Some q" by simp
      have "j \<noteq> i" using True assms(4) by auto
      with z(2) sp(4) [OF h(1)] have "p_state (t ! j) = ZOMBIE" by auto
      from sp(6) [OF h(1) True this h(2)] cq k ini h(3) show False by (simp add: chan_of_def)
    next
      case False
      then have par: "p_parent (t ! j) = Some q" using z(1) sp(3) [OF h(1)] by simp
      show False
      proof (cases "j = i")
        case True
        from sp(5) [OF h(2)] par True cq k h(3) show False by (simp add: chan_of_def)
      next
        case False
        with z(2) sp(4) [OF h(1)] have "p_state (t ! j) = ZOMBIE" by auto
        with w [OF h(1)] par show False by simp
      qed
    qed
    with k show ?thesis by auto
  qed
  then show ?thesis unfolding wait_inv_def sp(1) by blast
qed

lemma exit_table_tree:
  assumes "tree_inv t ini" "i < length t"
  shows "tree_inv (exit_table ini i t) ini"
  using assms(1) exit_table_spec(1,3) [OF assms(2), where ini = ini] by (auto simp: tree_inv_def split: if_splits)

lemma sstep_run:
  assumes "sstep s t" "sinv s"
  shows "run_inv (tab t) (run_on t)"
proof -
  have r: "run_inv (tab s) (run_on s)" using assms(2) by (simp add: sinv_def)
  from assms(1) show ?thesis
  proof cases
    case (pick c i u)
    note pk = scheduler_pick_Some [OF pick(4)]
    have "run_inv ((tab s)[i := (tab s ! i)\<lparr>p_state := RUNNING\<rparr>]) ((run_on s)(c := Some i))"
      by (rule run_inv_upd [OF r pick(3), where cz = c and b = True]) (use pick(2) pk in auto)
    with pick pk show ?thesis by simp
  next
    case (kill pid)
    show ?thesis
    proof (cases rule: kill1_cases [of pid "tab s"])
      case (2 i)
      with kill run_inv_same [OF r] show ?thesis by simp
    qed (use kill r in simp)
  next
    case (claim i u)
    with claim1_Some [OF claim(2)] run_inv_same [OF r] show ?thesis by simp
  next
    case (reap c i j h)
    with wait_scan_Some [OF reap(3)] run_inv_same [OF r] show ?thesis by (simp add: reap_proc_def)
  next
    case (yield c i)
    with run_inv_leave [OF r yield(2)] show ?thesis by (simp add: yield_enter_def)
  next
    case (sleep c i chn)
    with run_inv_leave [OF r sleep(2)] show ?thesis by (simp add: sleep_enter_def)
  next
    case (wait_sleep c i)
    with run_inv_leave [OF r wait_sleep(2)] show ?thesis by (simp add: sleep_enter_def)
  qed (use r in \<open>auto intro!: run_inv_same wakeup1_inv exit_table_run simp: sleep_leave_def\<close>)
qed

lemma sstep_pid:
  assumes "sstep s t" "sinv s"
  shows "pid_inv (tab t) (pids t)"
proof -
  have r: "run_inv (tab s) (run_on s)" and p: "pid_inv (tab s) (pids s)" using assms(2) by (simp_all add: sinv_def)
  note rn = run_inv_running [OF r]
  from assms(1) show ?thesis
  proof cases
    case (pick c i u)
    with scheduler_pick_Some [OF pick(4)] pid_inv_upd [OF p pick(3) order_refl] show ?thesis by simp
  next
    case (yield c i)
    with rn [OF yield(2)] pid_inv_upd [OF p _ order_refl, of i] show ?thesis by (simp add: yield_enter_def)
  next
    case (sleep c i chn)
    with rn [OF sleep(2)] pid_inv_upd [OF p _ order_refl, of i] show ?thesis by (simp add: sleep_enter_def)
  next
    case (wait_sleep c i)
    with rn [OF wait_sleep(2)] pid_inv_upd [OF p _ order_refl, of i] show ?thesis by (simp add: sleep_enter_def)
  next
    case (resume c i)
    with rn [OF resume(2)] pid_inv_upd [OF p _ order_refl, of i] show ?thesis by (simp add: sleep_leave_def)
  next
    case (wake chn)
    with wakeup1_inv(2) [OF p] show ?thesis by simp
  next
    case (kill pid)
    show ?thesis
    proof (cases rule: kill1_cases [of pid "tab s"])
      case (2 i)
      with kill show ?thesis by (auto intro!: pid_inv_upd [OF p 2(1) order_refl] split: if_splits)
    qed (use kill p in simp)
  next
    case (claim i u)
    note c = claim1_Some [OF claim(2)]
    with claim pid_inv_upd [OF p, of i "pids s + 1"] show ?thesis by simp
  next
    case (exit c i)
    with exit_table_pid [OF p] rn [OF exit(2)] show ?thesis by simp
  next
    case (reap c i j h)
    with wait_scan_Some [OF reap(3)] show ?thesis
      by (auto simp: reap_proc_def intro!: pid_inv_upd [OF p _ order_refl])
  qed (use p in \<open>auto intro!: pid_inv_upd [OF p _ order_refl]\<close>)
qed

lemma sstep_wait:
  assumes "sstep s t" "sinv s"
  shows "wait_inv (tab t)"
proof -
  have r: "run_inv (tab s) (run_on s)" and w: "wait_inv (tab s)" and tr: "tree_inv (tab s) (sini s)"
    using assms(2) by (simp_all add: sinv_def)
  note rn = run_inv_running [OF r]
  from assms(1) show ?thesis
  proof cases
    case (pick c i u)
    with scheduler_pick_Some [OF pick(4)] show ?thesis by (auto intro!: wait_inv_plain [OF w])
  next
    case (yield c i)
    with rn [OF yield(2)] show ?thesis by (auto simp: yield_enter_def intro!: wait_inv_plain [OF w])
  next
    case (sleep c i chn)
    with rn [OF sleep(2)] show ?thesis by (auto simp: sleep_enter_def intro!: wait_inv_plain [OF w])
  next
    case (wait_sleep c i)
    have i: "i < length (tab s)" using rn [OF wait_sleep(2)] by simp
    have "wait_inv ((tab s)[i := (tab s ! i)\<lparr>p_chan := ChanProc i, p_state := SLEEPING\<rparr>])"
      by (rule wait_inv_upd [OF w i, of _ i]) (use wait_scan_None [OF wait_sleep(3)] in auto)
    with wait_sleep show ?thesis by (simp add: sleep_enter_def)
  next
    case (resume c i)
    with rn [OF resume(2)] show ?thesis by (auto simp: sleep_leave_def intro!: wait_inv_plain [OF w])
  next
    case (wake chn)
    with wakeup1_inv(3) [OF w] show ?thesis by simp
  next
    case (kill pid)
    show ?thesis
    proof (cases rule: kill1_cases [of pid "tab s"])
      case (2 i)
      have "wait_inv (snd (kill1 pid (tab s)))"
        unfolding 2(3) by (rule wait_inv_plain [OF w 2(1)]) (auto split: if_splits)
      with kill show ?thesis by simp
    qed (use kill w in simp)
  next
    case (claim i u)
    with claim1_Some [OF claim(2)] show ?thesis by (auto intro!: wait_inv_plain [OF w])
  next
    case (exit c i)
    have "p_parent (tab s ! i) \<noteq> Some i" using tr rn [OF exit(2)] exit(3) by (auto simp: tree_inv_def)
    with exit exit_table_wait [OF w] rn [OF exit(2)] show ?thesis by simp
  next
    case (reap c i j h)
    with wait_scan_Some [OF reap(3)] show ?thesis by (auto simp: reap_proc_def intro!: wait_inv_plain [OF w])
  qed (use w in \<open>auto intro!: wait_inv_plain [OF w]\<close>)
qed

lemma sstep_tree:
  assumes "sstep s t" "sinv s"
  shows "tree_inv (tab t) (sini t)"
proof -
  have r: "run_inv (tab s) (run_on s)" and tr: "tree_inv (tab s) (sini s)"
    using assms(2) by (simp_all add: sinv_def)
  from assms(1) show ?thesis
  proof cases
    case (pick c i u)
    with scheduler_pick_Some [OF pick(4)] tree_inv_upd [OF tr] show ?thesis by simp
  next
    case (wake chn)
    with wakeup1_inv(4) [OF tr] show ?thesis by simp
  next
    case (kill pid)
    show ?thesis
    proof (cases rule: kill1_cases [of pid "tab s"])
      case (2 i)
      with kill tree_inv_upd [OF tr] show ?thesis by simp
    qed (use kill tr in simp)
  next
    case (claim i u)
    with claim1_Some [OF claim(2)] tree_inv_upd [OF tr] show ?thesis by simp
  next
    case (parent c i j)
    have "i \<noteq> j" using run_inv_running [OF r parent(2)] parent(4) by auto
    with parent tree_inv_upd [OF tr] show ?thesis by simp
  next
    case (exit c i)
    with exit_table_tree [OF tr] run_inv_running [OF r exit(2)] show ?thesis by simp
  qed (use tree_inv_upd [OF tr] in \<open>auto simp: yield_enter_def sleep_enter_def sleep_leave_def reap_proc_def\<close>)
qed

interpretation sched_sys: inv_system sinit sstep sinv
proof
  show "sinv s" if "sinit s" for s
    using that by (simp add: sinit_def sinv_def run_inv_def pid_inv_def wait_inv_def tree_inv_def)
  show "sinv t" if "sinv s" "sstep s t" for s t
    unfolding sinv_def using sstep_run sstep_pid sstep_wait sstep_tree that by blast
qed

section \<open>Sleep locks (sleeplock.c)\<close>

record sleeplock =
  slocked :: bool
  spid :: int

definition initsleeplock :: sleeplock where
  "initsleeplock = \<lparr>slocked = False, spid = 0\<rparr>"

text \<open>
  \<^verbatim>\<open>acquiresleep\<close> by process \<open>i\<close>: one round of its loop under \<^verbatim>\<open>lk->lk\<close>. Either the lock is taken
  (\<open>True\<close>), or the process goes to sleep and will run the round again when woken.
\<close>

definition acquiresleep_round :: "chan \<Rightarrow> nat \<Rightarrow> sleeplock \<Rightarrow> proc list \<Rightarrow> bool \<times> sleeplock \<times> proc list" where
  "acquiresleep_round chn i lk ps =
     (if slocked lk then (False, lk, sleep_enter i chn ps)
      else (True, \<lparr>slocked = True, spid = p_pid (ps ! i)\<rparr>, ps))"

definition releasesleep :: "chan \<Rightarrow> sleeplock \<Rightarrow> proc list \<Rightarrow> sleeplock \<times> proc list" where
  "releasesleep chn lk ps = (\<lparr>slocked = False, spid = 0\<rparr>, wakeup1 chn ps)"

definition holdingsleep :: "nat \<Rightarrow> sleeplock \<Rightarrow> proc list \<Rightarrow> bool" where
  "holdingsleep i lk ps \<longleftrightarrow> slocked lk \<and> spid lk = p_pid (ps ! i)"

text \<open>
  One sleep lock and the processes that use it. \<open>inside\<close> is history: the processes that
  acquired the lock and did not release it. A process releases only a lock that
  \<^verbatim>\<open>holdingsleep\<close> says it holds, as \<^verbatim>\<open>brelse\<close> and \<^verbatim>\<open>iunlock\<close> check.
\<close>

record slsys =
  sl :: sleeplock
  slprocs :: "proc list"
  inside :: "nat set"

inductive slstep :: "chan \<Rightarrow> slsys \<Rightarrow> slsys \<Rightarrow> bool" for chn :: chan where
  acq: "i < length (slprocs s) \<Longrightarrow> p_state (slprocs s ! i) = RUNNING \<Longrightarrow>
    acquiresleep_round chn i (sl s) (slprocs s) = (b, lk, ps) \<Longrightarrow>
    slstep chn s (s\<lparr>sl := lk, slprocs := ps, inside := (if b then insert i (inside s) else inside s)\<rparr>)"
| rel: "i < length (slprocs s) \<Longrightarrow> p_state (slprocs s ! i) = RUNNING \<Longrightarrow>
    holdingsleep i (sl s) (slprocs s) \<Longrightarrow> releasesleep chn (sl s) (slprocs s) = (lk, ps) \<Longrightarrow>
    slstep chn s (s\<lparr>sl := lk, slprocs := ps, inside := inside s - {i}\<rparr>)"
| run: "i < length (slprocs s) \<Longrightarrow> scheduler_pick i (slprocs s) = Some ps \<Longrightarrow> slstep chn s (s\<lparr>slprocs := ps\<rparr>)"
| rest: "i < length (slprocs s) \<Longrightarrow> p_state (slprocs s ! i) = RUNNING \<Longrightarrow> slstep chn s (s\<lparr>slprocs := yield_enter i (slprocs s)\<rparr>)"
| other: "i < length (slprocs s) \<Longrightarrow> p_state (slprocs s ! i) = RUNNING \<Longrightarrow> c' \<noteq> chn \<Longrightarrow>
    slstep chn s (s\<lparr>slprocs := sleep_enter i c' (slprocs s)\<rparr>)"
| wake: "slstep chn s (s\<lparr>slprocs := wakeup1 c' (slprocs s)\<rparr>)"
| kill: "slstep chn s (s\<lparr>slprocs := snd (kill1 pid (slprocs s))\<rparr>)"

definition slinv :: "chan \<Rightarrow> slsys \<Rightarrow> bool" where
  "slinv chn s \<longleftrightarrow>
     (\<forall>i < length (slprocs s). \<forall>j < length (slprocs s). p_pid (slprocs s ! i) = p_pid (slprocs s ! j) \<longrightarrow> i = j) \<and>
     (if slocked (sl s) then \<exists>i < length (slprocs s). inside s = {i} \<and> spid (sl s) = p_pid (slprocs s ! i)
      else inside s = {}) \<and>
     (\<forall>i < length (slprocs s). p_state (slprocs s ! i) = SLEEPING \<longrightarrow> p_chan (slprocs s ! i) = chn \<longrightarrow> slocked (sl s))"

definition slinit :: "chan \<Rightarrow> slsys \<Rightarrow> bool" where
  "slinit chn s \<longleftrightarrow> sl s = initsleeplock \<and> inside s = {} \<and>
     (\<forall>i < length (slprocs s). p_state (slprocs s ! i) \<noteq> SLEEPING \<or> p_chan (slprocs s ! i) \<noteq> chn) \<and>
     (\<forall>i < length (slprocs s). \<forall>j < length (slprocs s). p_pid (slprocs s ! i) = p_pid (slprocs s ! j) \<longrightarrow> i = j)"

text \<open>A change of the table that keeps pids and lets nobody fall asleep on the lock.\<close>

lemma slinv_procs:
  assumes "slinv chn s" "length ps = length (slprocs s)"
    and "\<And>i. i < length ps \<Longrightarrow> p_pid (ps ! i) = p_pid (slprocs s ! i)"
    and "\<And>i. i < length ps \<Longrightarrow> p_state (ps ! i) = SLEEPING \<Longrightarrow> p_chan (ps ! i) = chn \<Longrightarrow>
           p_state (slprocs s ! i) = SLEEPING \<and> p_chan (slprocs s ! i) = chn"
  shows "slinv chn (s\<lparr>slprocs := ps\<rparr>)"
proof -
  have "(if slocked (sl s) then \<exists>i < length ps. inside s = {i} \<and> spid (sl s) = p_pid (ps ! i) else inside s = {})"
    using assms(1,2,3) by (auto simp: slinv_def)
  moreover have "slocked (sl s)" if "i < length ps" "p_state (ps ! i) = SLEEPING" "p_chan (ps ! i) = chn" for i
    using assms(1,2) assms(4) [OF that] that(1) by (simp add: slinv_def)
  ultimately show ?thesis using assms(1,2,3) by (auto simp: slinv_def split: if_splits)
qed

lemma slinv_step:
  assumes inv: "slinv chn s" and st: "slstep chn s t"
  shows "slinv chn t"
  using st
proof cases
  case (acq i b lk ps)
  show ?thesis
  proof (cases "slocked (sl s)")
    case True
    with acq inv show ?thesis
      by (auto simp: slinv_def acquiresleep_round_def sleep_enter_def nth_upd split: if_splits)
  next
    case False
    with acq inv show ?thesis by (auto simp: slinv_def acquiresleep_round_def)
  qed
next
  case (rel i lk ps)
  from inv rel(2,4) have "inside s = {i}" by (auto simp: slinv_def holdingsleep_def)
  with rel inv show ?thesis by (auto simp: slinv_def releasesleep_def split: if_splits)
next
  case (run i ps)
  note pk = scheduler_pick_Some [OF run(3)]
  show ?thesis unfolding run(1)
    by (rule slinv_procs [OF inv]) (use pk in \<open>auto simp: nth_upd split: if_splits\<close>)
next
  case (rest i)
  show ?thesis unfolding rest(1)
    by (rule slinv_procs [OF inv]) (auto simp: yield_enter_def nth_upd split: if_splits)
next
  case (other i c')
  show ?thesis unfolding other(1)
    by (rule slinv_procs [OF inv]) (use other(4) in \<open>auto simp: sleep_enter_def nth_upd split: if_splits\<close>)
next
  case (wake c')
  show ?thesis unfolding wake(1)
    by (rule slinv_procs [OF inv]) (auto split: if_splits)
next
  case (kill pid)
  show ?thesis
  proof (cases rule: kill1_cases [of pid "slprocs s"])
    case (2 i)
    show ?thesis unfolding kill(1) 2(3)
      by (rule slinv_procs [OF inv]) (auto simp: nth_upd split: if_splits)
  qed (use kill inv in simp)
qed

interpretation sleep_sys: inv_system "slinit chn" "slstep chn" "slinv chn" for chn
proof
  show "slinv chn s" if "slinit chn s" for s
    using that by (auto simp: slinit_def slinv_def initsleeplock_def)
  show "slinv chn t" if "slinv chn s" "slstep chn s t" for s t
    using slinv_step [OF that] .
qed

section \<open>Properties\<close>


text \<open>
  C8. No lost wakeup between \<^verbatim>\<open>wait\<close> and \<^verbatim>\<open>exit\<close>: in every reachable state a process that sleeps in
  \<^verbatim>\<open>wait\<close> has no child that is already a zombie, also when the zombie was handed to \<^verbatim>\<open>init\<close> by the
  exit of its parent.
\<close>

theorem wait_no_lost_wakeup:
  assumes "reach sinit sstep s" and "q < length (tab s)" and "p_state (tab s ! q) = SLEEPING"
    and "p_chan (tab s ! q) = ChanProc q"
  shows "fst (wait_scan q (tab s)) = None"
proof -
  have "wait_inv (tab s)" using sched_sys.reach_inv [OF assms(1)] by (simp add: sinv_def)
  then have "i < length (tab s) \<Longrightarrow> p_parent (tab s ! i) = Some q \<Longrightarrow> p_state (tab s ! i) \<noteq> ZOMBIE" for i
    using assms(2-4) unfolding wait_inv_def by blast
  then show ?thesis by (cases "wait_scan q (tab s)"; cases "fst (wait_scan q (tab s))") (auto dest: wait_scan_Some)
qed

definition proc0 :: proc where
  "proc0 = \<lparr>p_sz = 0, p_pgdir = 0, p_kstack = 0, p_state = UNUSED, p_pid = 0, p_parent = None,
     p_tf = \<lparr>tf_edi = 0, tf_esi = 0, tf_ebp = 0, tf_ebx = 0, tf_edx = 0, tf_ecx = 0, tf_eax = 0, tf_gs = 0,
        tf_fs = 0, tf_es = 0, tf_ds = 0, tf_trapno = 0, tf_err = 0, tf_eip = 0, tf_cs = 0, tf_eflags = 0,
        tf_esp = 0, tf_ss = 0\<rparr>,
     p_context = \<lparr>ctx_edi = 0, ctx_esi = 0, ctx_ebx = 0, ctx_ebp = 0, ctx_eip = 0\<rparr>, p_chan = NoChan,
     p_killed = False, p_ofile = replicate NOFILE None, p_cwd = None, p_name = replicate 16 0,
     p_swapFile = None, pagesInMemory = 0, pagesInSwapfile = 0,
     swapPmd = replicate MAX_PSYC_PAGES \<lparr>pmd_va = 0, occupied = False, pmd_pgdir = 0, pmd_offset = 0, age = 0\<rparr>,
     ramPmd = replicate MAX_PSYC_PAGES \<lparr>pmd_va = 0, occupied = False, pmd_pgdir = 0, pmd_offset = 0, age = 0\<rparr>,
     pagefaults = 0, pagedout = 0, prioArr = replicate MAX_PRIO_ARR no_node, prioSize = 0\<rparr>"

lemma proc0_simps [simp]: "p_state proc0 = UNUSED" "p_parent proc0 = None" "p_chan proc0 = NoChan"
  by (simp_all add: proc0_def)

text \<open>A run of two processes: the first starts, forks the second and waits for it.\<close>

definition sys0 :: ssys where
  "sys0 = \<lparr>tab = [proc0, proc0], run_on = (\<lambda>_. None), pids = 1, sini = None\<rparr>"

definition sys_run :: ssys where
  "sys_run = \<lparr>tab = [proc0\<lparr>p_pid := 1, p_state := RUNNING\<rparr>, proc0], run_on = (\<lambda>_. None)(0 := Some 0),
              pids = 2, sini = None\<rparr>"

definition sys_wait :: ssys where
  "sys_wait = \<lparr>tab = [proc0\<lparr>p_pid := 1, p_chan := ChanProc 0, p_state := SLEEPING\<rparr>,
                     proc0\<lparr>p_state := EMBRYO, p_pid := 2, p_parent := Some 0\<rparr>],
               run_on = (\<lambda>_. None)(0 := None), pids = 3, sini = None\<rparr>"

lemma upt_2 [simp]: "[0..<Suc (Suc 0)] = [0, 1]"
  by (simp add: upt_rec)

lemma sys_run_reach: "reach sinit sstep sys_run"
proof -
  let ?p = "proc0\<lparr>p_state := EMBRYO, p_pid := 1\<rparr>"
  let ?s1 = "sys0\<lparr>tab := [?p, proc0], pids := 2\<rparr>"
  let ?s2 = "?s1\<lparr>tab := [?p\<lparr>p_state := RUNNABLE\<rparr>, proc0]\<rparr>"
  have "reach sinit sstep sys0"
    by (rule reach_init) (simp add: sinit_def sys0_def less_Suc_eq)
  moreover have "sstep sys0 ?s1"
    using sstep.claim [of sys0 0 "[?p, proc0]"] by (simp add: sys0_def claim1_def find_unused_def)
  ultimately have "reach sinit sstep ?s1" by (rule reach_step)
  moreover have "sstep ?s1 ?s2" using sstep.ready [of 0 ?s1] by (simp add: sys0_def)
  ultimately have "reach sinit sstep ?s2" by (rule reach_step)
  moreover have "sstep ?s2 sys_run"
    using sstep.pick [of ?s2 0 0 "[?p\<lparr>p_state := RUNNING\<rparr>, proc0]"]
    by (simp add: sys0_def sys_run_def scheduler_pick_def)
  ultimately show ?thesis by (rule reach_step)
qed

lemma sys_wait_reach: "reach sinit sstep sys_wait"
proof -
  let ?p = "proc0\<lparr>p_pid := 1, p_state := RUNNING\<rparr>" and ?q = "proc0\<lparr>p_state := EMBRYO, p_pid := 2\<rparr>"
  let ?s1 = "sys_run\<lparr>tab := [?p, ?q], pids := 3\<rparr>"
  let ?s2 = "?s1\<lparr>tab := [?p, ?q\<lparr>p_parent := Some 0\<rparr>]\<rparr>"
  have "sstep sys_run ?s1"
    using sstep.claim [of sys_run 1 "[?p, ?q]"] by (simp add: sys_run_def claim1_def find_unused_def)
  with sys_run_reach have "reach sinit sstep ?s1" by (rule reach_step)
  moreover have "sstep ?s1 ?s2" using sstep.parent [of ?s1 0 0 1] by (simp add: sys_run_def)
  ultimately have "reach sinit sstep ?s2" by (rule reach_step)
  moreover have "sstep ?s2 sys_wait"
    using sstep.wait_sleep [of ?s2 0 0]
    by (simp add: sys_run_def sys_wait_def wait_scan_def children_def sleep_enter_def)
  ultimately show ?thesis by (rule reach_step)
qed


theorem wait_no_lost_wakeup_witness: "fst (wait_scan 0 (tab sys_wait)) = None"
  by (rule wait_no_lost_wakeup [OF sys_wait_reach]) (simp_all add: sys_wait_def)

text \<open>
  C10. A sleep lock excludes and loses no wakeup: in every reachable state at most one process
  is between \<^verbatim>\<open>acquiresleep\<close> and \<^verbatim>\<open>releasesleep\<close>, it is the one \<^verbatim>\<open>holdingsleep\<close> recognises, and
  no process sleeps on a free lock.
\<close>

theorem sleeplock_exclusive:
  assumes "reach (slinit chn) (slstep chn) s" and "i < length (slprocs s)"
  shows "(i \<in> inside s \<longleftrightarrow> holdingsleep i (sl s) (slprocs s)) \<and> (i \<in> inside s \<longrightarrow> inside s = {i}) \<and>
         (p_state (slprocs s ! i) = SLEEPING \<and> p_chan (slprocs s ! i) = chn \<longrightarrow> slocked (sl s))"
  using sleep_sys.reach_inv [OF assms(1)] assms(2)
  by (auto simp: slinv_def holdingsleep_def split: if_splits)

definition slsys0 :: slsys where
  "slsys0 = \<lparr>sl = initsleeplock, slprocs = [proc0\<lparr>p_state := RUNNING, p_pid := 7\<rparr>], inside = {}\<rparr>"

lemma slsys0_reach: "reach (slinit (ChanBuf 0)) (slstep (ChanBuf 0)) (slsys0\<lparr>sl := \<lparr>slocked = True, spid = 7\<rparr>, inside := {0}\<rparr>)"
proof -
  have "reach (slinit (ChanBuf 0)) (slstep (ChanBuf 0)) slsys0"
    by (rule reach_init) (simp add: slinit_def slsys0_def)
  moreover have "slstep (ChanBuf 0) slsys0 (slsys0\<lparr>sl := \<lparr>slocked = True, spid = 7\<rparr>, inside := {0}\<rparr>)"
    using slstep.acq [of 0 slsys0 "ChanBuf 0" True "\<lparr>slocked = True, spid = 7\<rparr>" "slprocs slsys0"]
    by (simp add: slsys0_def acquiresleep_round_def initsleeplock_def)
  ultimately show ?thesis by (rule reach_step)
qed

theorem sleeplock_exclusive_witness:
  "holdingsleep 0 \<lparr>slocked = True, spid = 7\<rparr> [proc0\<lparr>p_state := RUNNING, p_pid := 7\<rparr>]"
  using sleeplock_exclusive [OF slsys0_reach, of 0] by (simp add: slsys0_def)

end
