(* ===== verification/Bio.thy ===== *)
theory Bio
  imports ProcTable
begin

text \<open>
  The block device of \<^verbatim>\<open>memide.c\<close> and the buffer cache of \<^verbatim>\<open>bio.c\<close>. A block is a byte store, so
  copying \<^verbatim>\<open>BSIZE\<close> bytes between a buffer and the disk copies the store. A block number is a
  natural number; the flags of a buffer are two booleans. \<open>wlog\<close> is history: the block
  writes the disk has performed, oldest first, which is what a crash can cut short.
\<close>

section \<open>State\<close>

abbreviation BSIZE :: nat where "BSIZE \<equiv> 512"
abbreviation NBUF :: nat where "NBUF \<equiv> 30"

record buf =
  b_valid :: bool
  b_dirty :: bool
  b_dev :: uint
  b_blockno :: nat
  b_lock :: sleeplock
  b_refcnt :: uint
  b_data :: bytes

record bstate = pstate +
  disk :: "nat \<Rightarrow> bytes"
  disksize :: nat
  bufs :: "buf list"
  mru :: "nat list"
  wlog :: "(nat \<times> bytes) list"

definition upd_buf :: "nat \<Rightarrow> (buf \<Rightarrow> buf) \<Rightarrow> 'a bstate_scheme \<Rightarrow> 'a bstate_scheme" where
  "upd_buf i f s = s\<lparr>bufs := (bufs s)[i := f (bufs s ! i)]\<rparr>"

text \<open>The calls of the sleep lock routines on \<^verbatim>\<open>b->lock\<close>.\<close>

definition acquire_buf :: "nat \<Rightarrow> 'a bstate_scheme \<Rightarrow> 'a bstate_scheme res" where
  "acquire_buf i s =
     rbind (myproc s) (\<lambda>p.
     case acquiresleep_round (ChanBuf i) p (b_lock (bufs s ! i)) (procs s) of
       (got, lk, ps) \<Rightarrow>
         if got then Inr (upd_buf i (\<lambda>b. b\<lparr>b_lock := lk\<rparr>) (s\<lparr>procs := ps\<rparr>))
         else Inl (Blocked ''acquiresleep''))"

definition release_buf :: "nat \<Rightarrow> 'a bstate_scheme \<Rightarrow> 'a bstate_scheme" where
  "release_buf i s =
     (case releasesleep (ChanBuf i) (b_lock (bufs s ! i)) (procs s) of
        (lk, ps) \<Rightarrow> upd_buf i (\<lambda>b. b\<lparr>b_lock := lk\<rparr>) (s\<lparr>procs := ps\<rparr>))"

definition holding_buf :: "nat \<Rightarrow> 'a bstate_scheme \<Rightarrow> bool res" where
  "holding_buf i s = rbind (myproc s) (\<lambda>p. Inr (holdingsleep p (b_lock (bufs s ! i)) (procs s)))"

section \<open>The memory disk (memide.c)\<close>

definition iderw :: "nat \<Rightarrow> 'a bstate_scheme \<Rightarrow> 'a bstate_scheme res" where
  "iderw i s =
     rbind (holding_buf i s) (\<lambda>h.
     let b = bufs s ! i
     in if \<not> h then Inl (Panic ''iderw: buf not locked'')
        else if b_valid b \<and> \<not> b_dirty b then Inl (Panic ''iderw: nothing to do'')
        else if b_dev b \<noteq> 1 then Inl (Panic ''iderw: request not for disk 1'')
        else if disksize s \<le> b_blockno b then Inl (Panic ''iderw: block out of range'')
        else if b_dirty b
        then Inr (upd_buf i (\<lambda>b. b\<lparr>b_dirty := False, b_valid := True\<rparr>)
                    (s\<lparr>disk := (disk s)(b_blockno b := b_data b),
                       wlog := wlog s @ [(b_blockno b, b_data b)]\<rparr>))
        else Inr (upd_buf i (\<lambda>b. b\<lparr>b_data := disk s (b_blockno b), b_valid := True\<rparr>) s))"

section \<open>The buffer cache (bio.c)\<close>

text \<open>
  The doubly linked list through \<^verbatim>\<open>bcache.head\<close> is the list \<open>mru\<close> of buffer indices, most recently
  used first.
\<close>

definition binit :: "'a bstate_scheme \<Rightarrow> 'a bstate_scheme" where
  "binit s = s\<lparr>bufs := map (\<lambda>b. b\<lparr>b_lock := initsleeplock\<rparr>) (bufs s), mru := rev [0..<length (bufs s)]\<rparr>"

definition bget_hit :: "uint \<Rightarrow> nat \<Rightarrow> 'a bstate_scheme \<Rightarrow> nat option" where
  "bget_hit dev blockno s =
     find (\<lambda>i. b_dev (bufs s ! i) = dev \<and> b_blockno (bufs s ! i) = blockno) (mru s)"

definition bget_victim :: "'a bstate_scheme \<Rightarrow> nat option" where
  "bget_victim s = find (\<lambda>i. b_refcnt (bufs s ! i) = 0 \<and> \<not> b_dirty (bufs s ! i)) (rev (mru s))"

definition bget :: "uint \<Rightarrow> nat \<Rightarrow> 'a bstate_scheme \<Rightarrow> (nat \<times> 'a bstate_scheme) res" where
  "bget dev blockno s =
     (case bget_hit dev blockno s of
        Some i \<Rightarrow>
          rbind (acquire_buf i (upd_buf i (\<lambda>b. b\<lparr>b_refcnt := b_refcnt b + 1\<rparr>) s)) (\<lambda>s1. Inr (i, s1))
      | None \<Rightarrow>
          (case bget_victim s of
             Some i \<Rightarrow>
               rbind (acquire_buf i (upd_buf i (\<lambda>b. b\<lparr>b_dev := dev, b_blockno := blockno, b_valid := False,
                                                    b_dirty := False, b_refcnt := 1\<rparr>) s)) (\<lambda>s1. Inr (i, s1))
           | None \<Rightarrow> Inl (Panic ''bget: no buffers'')))"

definition bread :: "uint \<Rightarrow> nat \<Rightarrow> 'a bstate_scheme \<Rightarrow> (nat \<times> 'a bstate_scheme) res" where
  "bread dev blockno s =
     rbind (bget dev blockno s) (\<lambda>(i, s1).
     if \<not> b_valid (bufs s1 ! i) then rbind (iderw i s1) (\<lambda>s2. Inr (i, s2))
     else Inr (i, s1))"

definition bwrite :: "nat \<Rightarrow> 'a bstate_scheme \<Rightarrow> 'a bstate_scheme res" where
  "bwrite i s =
     rbind (holding_buf i s) (\<lambda>h.
     if \<not> h then Inl (Panic ''bwrite'') else iderw i (upd_buf i (\<lambda>b. b\<lparr>b_dirty := True\<rparr>) s))"

definition brelse :: "nat \<Rightarrow> 'a bstate_scheme \<Rightarrow> 'a bstate_scheme res" where
  "brelse i s =
     rbind (holding_buf i s) (\<lambda>h.
     if \<not> h then Inl (Panic ''brelse'')
     else let s1 = release_buf i s;
              s2 = upd_buf i (\<lambda>b. b\<lparr>b_refcnt := b_refcnt b - 1\<rparr>) s1
          in Inr (if b_refcnt (bufs s2 ! i) = 0 then s2\<lparr>mru := i # remove1 i (mru s2)\<rparr> else s2))"

section \<open>Invariant\<close>

text \<open>A buffer is held while its reference count is not zero.\<close>

definition held_bufs :: "'a bstate_scheme \<Rightarrow> nat set" where
  "held_bufs s = {i. i < length (bufs s) \<and> b_refcnt (bufs s ! i) \<noteq> 0}"

definition busy_bufs :: "'a bstate_scheme \<Rightarrow> nat set" where
  "busy_bufs s = {i. i < length (bufs s) \<and> (b_refcnt (bufs s ! i) \<noteq> 0 \<or> b_dirty (bufs s ! i))}"

text \<open>
  One buffer: free ones are unlocked and, when clean, agree with the disk; held ones are
  locked by the running process (whose pid is \<open>pid\<close>); a dirty buffer is valid and for a block
  of the disk.
\<close>

definition buf_ok :: "(nat \<Rightarrow> bytes) \<Rightarrow> nat \<Rightarrow> int \<Rightarrow> buf \<Rightarrow> bool" where
  "buf_ok d n pid b \<longleftrightarrow>
     (if b_refcnt b = 0
      then \<not> slocked (b_lock b) \<and>
           (b_dev b = 1 \<and> b_valid b \<and> \<not> b_dirty b \<longrightarrow> b_data b = d (b_blockno b))
      else b_refcnt b = 1 \<and> b_lock b = \<lparr>slocked = True, spid = pid\<rparr> \<and> b_valid b \<and> b_dev b = 1 \<and>
           b_blockno b < n) \<and>
     (b_dirty b \<longrightarrow> b_valid b \<and> b_dev b = 1 \<and> b_blockno b < n)"

definition cur_pid :: "'a pstate_scheme \<Rightarrow> int" where
  "cur_pid s = (case curp s of Some p \<Rightarrow> p_pid (procs s ! p) | None \<Rightarrow> 0)"

definition bufs_distinct :: "buf list \<Rightarrow> bool" where
  "bufs_distinct bs \<longleftrightarrow>
     (\<forall>i < length bs. \<forall>j < length bs. b_dev (bs ! i) = 1 \<and> b_dev (bs ! j) = 1 \<and>
        b_blockno (bs ! i) = b_blockno (bs ! j) \<longrightarrow> i = j)"

definition binv :: "'a bstate_scheme \<Rightarrow> bool" where
  "binv s \<longleftrightarrow> (\<exists>p. curp s = Some p \<and> p < length (procs s)) \<and>
     length (bufs s) = NBUF \<and> distinct (mru s) \<and> set (mru s) = {..<NBUF} \<and> bufs_distinct (bufs s) \<and>
     (\<forall>i < NBUF. buf_ok (disk s) (disksize s) (cur_pid s) (bufs s ! i))"

text \<open>The content of a block as every reader sees it: the cached copy if there is one.\<close>

definition cached :: "'a bstate_scheme \<Rightarrow> nat \<Rightarrow> nat option" where
  "cached s b = find (\<lambda>i. b_dev (bufs s ! i) = 1 \<and> b_blockno (bufs s ! i) = b \<and> b_valid (bufs s ! i))
                  [0..<length (bufs s)]"

definition view :: "'a bstate_scheme \<Rightarrow> nat \<Rightarrow> bytes" where
  "view s b = (case cached s b of Some i \<Rightarrow> b_data (bufs s ! i) | None \<Rightarrow> disk s b)"

text \<open>What the cache routines leave alone: everything but the cache, the disk and wakeups.\<close>

definition procs_sim :: "proc list \<Rightarrow> proc list \<Rightarrow> bool" where
  "procs_sim ps qs \<longleftrightarrow> length qs = length ps \<and>
     (\<forall>i < length ps. qs ! i = (ps ! i)\<lparr>p_state := p_state (qs ! i)\<rparr>)"

definition brest :: "'a bstate_scheme \<Rightarrow> 'a bstate_scheme \<Rightarrow> bool" where
  "brest s t \<longleftrightarrow> procs_sim (procs s) (procs t) \<and>
     t = s\<lparr>procs := procs t, disk := disk t, bufs := bufs t, mru := mru t, wlog := wlog t\<rparr>"

lemma procs_sim_refl [simp]: "procs_sim ps ps"
  by (simp add: procs_sim_def)

lemma procs_sim_trans: "procs_sim ps qs \<Longrightarrow> procs_sim qs rs \<Longrightarrow> procs_sim ps rs"
  unfolding procs_sim_def by (metis (no_types, lifting) proc.surjective proc.update_convs(4))

lemma procs_sim_wakeup [simp]: "procs_sim ps (wakeup1 chn ps)"
  by (auto simp: procs_sim_def wakeup1_nth)

lemma procs_sim_pid: "procs_sim ps qs \<Longrightarrow> i < length ps \<Longrightarrow> p_pid (qs ! i) = p_pid (ps ! i)"
  unfolding procs_sim_def by (metis proc.ext_inject proc.surjective proc.update_convs(4))

lemma brest_refl [simp]: "brest s s"
  by (simp add: brest_def)

lemma brest_trans: "brest s t \<Longrightarrow> brest t u \<Longrightarrow> brest s u"
proof -
  assume st: "brest s t" and tu: "brest t u"
  have "u = t\<lparr>procs := procs u, disk := disk u, bufs := bufs u, mru := mru u, wlog := wlog u\<rparr>"
    using tu unfolding brest_def by blast
  also have "t = s\<lparr>procs := procs t, disk := disk t, bufs := bufs t, mru := mru t, wlog := wlog t\<rparr>"
    using st unfolding brest_def by blast
  finally have "u = s\<lparr>procs := procs u, disk := disk u, bufs := bufs u, mru := mru u, wlog := wlog u\<rparr>" by simp
  moreover have "procs_sim (procs s) (procs u)" using st tu procs_sim_trans unfolding brest_def by blast
  ultimately show ?thesis unfolding brest_def by blast
qed

lemma brest_simps:
  assumes "brest s t"
  shows "kend t = kend s" "freelist t = freelist s" "runArr t = runArr s" "occupiedPages t = occupiedPages s"
    "pmem t = pmem s" "curp t = curp s" "nextpid t = nextpid s" "cr3 t = cr3 s" "disksize t = disksize s"
    "bstate.more t = bstate.more s"
proof -
  have eq: "t = s\<lparr>procs := procs t, disk := disk t, bufs := bufs t, mru := mru t, wlog := wlog t\<rparr>"
    using assms unfolding brest_def by blast
  show "kend t = kend s" "freelist t = freelist s" "runArr t = runArr s" "occupiedPages t = occupiedPages s"
    "pmem t = pmem s" "curp t = curp s" "nextpid t = nextpid s" "cr3 t = cr3 s" "disksize t = disksize s"
    "bstate.more t = bstate.more s"
    by (subst eq, simp)+
qed

lemma find_SomeD: "find P xs = Some i \<Longrightarrow> i \<in> set xs \<and> P i"
  by (auto simp: find_Some_iff)

lemma find_unique:
  assumes "i \<in> set xs" "P i" "\<And>j. j \<in> set xs \<Longrightarrow> P j \<Longrightarrow> j = i"
  shows "find P xs = Some i"
proof (cases "find P xs")
  case None
  with assms(1,2) show ?thesis by (simp add: find_None_iff)
next
  case (Some j)
  with assms(3) [of j] find_SomeD [OF Some] show ?thesis by simp
qed

lemma cur_pid_simps [simp]:
  "cur_pid (s\<lparr>bufs := x\<rparr>) = cur_pid s" "cur_pid (s\<lparr>disk := d\<rparr>) = cur_pid s"
  "cur_pid (s\<lparr>mru := m\<rparr>) = cur_pid s" "cur_pid (s\<lparr>wlog := w\<rparr>) = cur_pid s"
  by (auto simp: cur_pid_def split: option.split)

lemma binv_len: "binv s \<Longrightarrow> length (bufs s) = NBUF"
  by (simp add: binv_def)

lemma binv_buf: "binv s \<Longrightarrow> i < NBUF \<Longrightarrow> buf_ok (disk s) (disksize s) (cur_pid s) (bufs s ! i)"
  by (simp add: binv_def)

lemma binv_distinct:
  "binv s \<Longrightarrow> i < NBUF \<Longrightarrow> j < NBUF \<Longrightarrow> b_dev (bufs s ! i) = 1 \<Longrightarrow> b_dev (bufs s ! j) = 1 \<Longrightarrow>
   b_blockno (bufs s ! i) = b_blockno (bufs s ! j) \<Longrightarrow> i = j"
  unfolding binv_def bufs_distinct_def by metis

lemma binv_cur: "binv s \<Longrightarrow> \<exists>p. curp s = Some p \<and> p < length (procs s) \<and> cur_pid s = p_pid (procs s ! p)"
  by (auto simp: binv_def cur_pid_def)

lemma cached_iff:
  assumes "binv s"
  shows "cached s b = Some i \<longleftrightarrow>
    i < NBUF \<and> b_dev (bufs s ! i) = 1 \<and> b_blockno (bufs s ! i) = b \<and> b_valid (bufs s ! i)"
proof
  assume "cached s b = Some i"
  then show "i < NBUF \<and> b_dev (bufs s ! i) = 1 \<and> b_blockno (bufs s ! i) = b \<and> b_valid (bufs s ! i)"
    using find_SomeD binv_len [OF assms] by (fastforce simp: cached_def)
next
  assume i: "i < NBUF \<and> b_dev (bufs s ! i) = 1 \<and> b_blockno (bufs s ! i) = b \<and> b_valid (bufs s ! i)"
  show "cached s b = Some i"
    unfolding cached_def
  proof (rule find_unique)
    show "j = i" if "j \<in> set [0..<length (bufs s)]"
      "b_dev (bufs s ! j) = 1 \<and> b_blockno (bufs s ! j) = b \<and> b_valid (bufs s ! j)" for j
      using binv_distinct [OF assms, of j i] that i binv_len [OF assms] by simp
  qed (use i binv_len [OF assms] in simp_all)
qed

lemma view_cached:
  "binv s \<Longrightarrow> i < NBUF \<Longrightarrow> b_dev (bufs s ! i) = 1 \<Longrightarrow> b_valid (bufs s ! i) \<Longrightarrow>
   view s (b_blockno (bufs s ! i)) = b_data (bufs s ! i)"
  using cached_iff [of s "b_blockno (bufs s ! i)" i] by (simp add: view_def)

lemma view_uncached:
  assumes "binv s" "\<And>i. i < NBUF \<Longrightarrow> b_dev (bufs s ! i) = 1 \<Longrightarrow> b_valid (bufs s ! i) \<Longrightarrow> b_blockno (bufs s ! i) \<noteq> b"
  shows "view s b = disk s b"
proof (cases "cached s b")
  case (Some i)
  with cached_iff [OF assms(1), of b i] assms(2) [of i] show ?thesis by simp
qed (simp add: view_def)

text \<open>When no buffer is held or dirty, what readers see is what is on the disk.\<close>

lemma view_quiet:
  assumes "binv s" "busy_bufs s = {}"
  shows "view s = disk s"
proof
  fix b
  show "view s b = disk s b"
  proof (cases "cached s b")
    case (Some i)
    then have i: "i < NBUF" "b_dev (bufs s ! i) = 1" "b_blockno (bufs s ! i) = b" "b_valid (bufs s ! i)"
      using cached_iff [OF assms(1)] by auto
    then have "b_refcnt (bufs s ! i) = 0" "\<not> b_dirty (bufs s ! i)"
      using assms(2) binv_len [OF assms(1)] by (auto simp: busy_bufs_def)
    with binv_buf [OF assms(1) i(1)] i have "b_data (bufs s ! i) = disk s b" by (simp add: buf_ok_def)
    with Some show ?thesis by (simp add: view_def)
  qed (simp add: view_def)
qed

text \<open>Replacing one buffer keeps the invariant if it is good and its block is nobody else's.\<close>

lemma binv_upd:
  assumes "binv s" "i < NBUF" "buf_ok (disk s) (disksize s) (cur_pid s) b'"
    and "b_dev b' = 1 \<Longrightarrow> b_blockno b' = b_blockno (bufs s ! i) \<and> b_dev (bufs s ! i) = 1 \<or>
           (\<forall>j < NBUF. b_dev (bufs s ! j) = 1 \<longrightarrow> b_blockno (bufs s ! j) \<noteq> b_blockno b')"
  shows "binv (s\<lparr>bufs := (bufs s)[i := b']\<rparr>)"
proof -
  let ?bs = "(bufs s)[i := b']"
  note len = binv_len [OF assms(1)]
  have "bufs_distinct ?bs"
    unfolding bufs_distinct_def
  proof (intro allI impI)
    fix j k
    assume jk: "j < length ?bs" "k < length ?bs"
      "b_dev (?bs ! j) = 1 \<and> b_dev (?bs ! k) = 1 \<and> b_blockno (?bs ! j) = b_blockno (?bs ! k)"
    then show "j = k"
      using binv_distinct [OF assms(1), of j k] binv_distinct [OF assms(1), of i k]
        binv_distinct [OF assms(1), of j i] assms(2,4) len
      by (cases "j = i"; cases "k = i") auto
  qed
  moreover have "buf_ok (disk s) (disksize s) (cur_pid s) (?bs ! j)" if "j < NBUF" for j
    using binv_buf [OF assms(1) that] assms(3) that len by (simp add: nth_upd)
  ultimately show ?thesis using assms(1) by (simp add: binv_def)
qed

section \<open>What the routines do\<close>

lemma binv_mru: "binv s \<Longrightarrow> i \<in> set (mru s) \<longleftrightarrow> i < NBUF"
  by (simp add: binv_def)

lemma bget_hit_Some:
  assumes "binv s"
  shows "bget_hit 1 b s = Some i \<longleftrightarrow> i < NBUF \<and> b_dev (bufs s ! i) = 1 \<and> b_blockno (bufs s ! i) = b"
proof
  assume "bget_hit 1 b s = Some i"
  then show "i < NBUF \<and> b_dev (bufs s ! i) = 1 \<and> b_blockno (bufs s ! i) = b"
    unfolding bget_hit_def using find_SomeD binv_mru [OF assms] by fastforce
next
  assume "i < NBUF \<and> b_dev (bufs s ! i) = 1 \<and> b_blockno (bufs s ! i) = b"
  then show "bget_hit 1 b s = Some i"
    unfolding bget_hit_def using binv_mru [OF assms] binv_distinct [OF assms, of _ i]
    by (intro find_unique) auto
qed

lemma bget_hit_None:
  assumes "binv s"
  shows "bget_hit 1 b s = None \<longleftrightarrow> (\<forall>i < NBUF. b_dev (bufs s ! i) = 1 \<longrightarrow> b_blockno (bufs s ! i) \<noteq> b)"
  using binv_mru [OF assms] by (auto simp: bget_hit_def find_None_iff)

lemma bget_victim_Some:
  "binv s \<Longrightarrow> bget_victim s = Some i \<Longrightarrow> i < NBUF \<and> b_refcnt (bufs s ! i) = 0 \<and> \<not> b_dirty (bufs s ! i)"
  unfolding bget_victim_def using find_SomeD binv_mru by fastforce

lemma bget_victim_exists:
  assumes "binv s" "card (busy_bufs s) < NBUF"
  shows "\<exists>i. bget_victim s = Some i"
proof (rule ccontr)
  assume "\<nexists>i. bget_victim s = Some i"
  then have "bget_victim s = None" by (cases "bget_victim s") auto
  then have "\<forall>i < NBUF. b_refcnt (bufs s ! i) \<noteq> 0 \<or> b_dirty (bufs s ! i)"
    using binv_mru [OF assms(1)] by (auto simp: bget_victim_def find_None_iff)
  then have "busy_bufs s = {..<NBUF}" using binv_len [OF assms(1)] by (auto simp: busy_bufs_def)
  with assms(2) show False by simp
qed

lemma upd_buf_simps [simp]:
  "length (bufs (upd_buf i f s)) = length (bufs s)" "disk (upd_buf i f s) = disk s"
  "disksize (upd_buf i f s) = disksize s" "mru (upd_buf i f s) = mru s" "wlog (upd_buf i f s) = wlog s"
  "procs (upd_buf i f s) = procs s" "curp (upd_buf i f s) = curp s" "cur_pid (upd_buf i f s) = cur_pid s"
  "i < length (bufs s) \<Longrightarrow> bufs (upd_buf i f s) ! i = f (bufs s ! i)"
  "j \<noteq> i \<Longrightarrow> bufs (upd_buf i f s) ! j = bufs s ! j"
  by (simp_all add: upd_buf_def)

lemma acquire_buf_free:
  assumes "binv s" "i < NBUF" "\<not> slocked (b_lock (bufs (upd_buf i f s) ! i))"
  shows "acquire_buf i (upd_buf i f s) =
    Inr (upd_buf i (\<lambda>b. (f b)\<lparr>b_lock := \<lparr>slocked = True, spid = cur_pid s\<rparr>\<rparr>) s)"
proof -
  obtain p where p: "curp s = Some p" "cur_pid s = p_pid (procs s ! p)" using binv_cur [OF assms(1)] by auto
  have "bufs s ! i = bufs s ! i" ..
  with assms p show ?thesis
    by (simp add: acquire_buf_def myproc_def acquiresleep_round_def upd_buf_def binv_len [OF assms(1)])
qed

lemma holding_buf_held:
  assumes "binv s" "i \<in> held_bufs s"
  shows "holding_buf i s = Inr True"
proof -
  obtain p where p: "curp s = Some p" "cur_pid s = p_pid (procs s ! p)" using binv_cur [OF assms(1)] by auto
  have "i < NBUF" "b_refcnt (bufs s ! i) \<noteq> 0" using assms(2) binv_len [OF assms(1)] by (auto simp: held_bufs_def)
  with binv_buf [OF assms(1), of i] have "b_lock (bufs s ! i) = \<lparr>slocked = True, spid = cur_pid s\<rparr>"
    by (simp add: buf_ok_def)
  with p show ?thesis by (simp add: holding_buf_def myproc_def holdingsleep_def)
qed

lemma brest_upd_buf [simp]: "brest s (upd_buf i f s)"
  by (simp add: brest_def upd_buf_def)

text \<open>Readers see no difference when a buffer is refilled with what they saw already.\<close>

lemma view_refill:
  fixes s :: "'a bstate_scheme"
  defines "t b' i \<equiv> s\<lparr>bufs := (bufs s)[i := b']\<rparr>"
  assumes inv: "binv s" "binv (t b' i)" and i: "i < NBUF"
    and new: "b_dev b' = 1 \<Longrightarrow> b_valid b' \<Longrightarrow> b_data b' = view s (b_blockno b')"
    and old: "b_dev (bufs s ! i) = 1 \<Longrightarrow> b_valid (bufs s ! i) \<Longrightarrow>
                b_dev b' = 1 \<and> b_valid b' \<and> b_blockno b' = b_blockno (bufs s ! i) \<or>
                b_data (bufs s ! i) = disk s (b_blockno (bufs s ! i))"
  shows "view (t b' i) = view s"
proof
  fix c
  note len = binv_len [OF inv(1)]
  have tb: "bufs (t b' i) ! j = (if j = i then b' else bufs s ! j)" if "j < NBUF" for j
    using that len by (auto simp: t_def nth_upd)
  show "view (t b' i) c = view s c"
  proof (cases "cached (t b' i) c")
    case (Some j)
    then have j: "j < NBUF" "b_dev (bufs (t b' i) ! j) = 1" "b_blockno (bufs (t b' i) ! j) = c" "b_valid (bufs (t b' i) ! j)"
      using cached_iff [OF inv(2)] by auto
    then have "view (t b' i) c = b_data (bufs (t b' i) ! j)" using Some by (simp add: view_def)
    also have "\<dots> = view s c"
    proof (cases "j = i")
      case True
      with j tb [OF j(1)] new show ?thesis by simp
    next
      case False
      with j tb [OF j(1)] view_cached [OF inv(1) j(1)] show ?thesis by simp
    qed
    finally show ?thesis .
  next
    case None
    then have un: "\<not> (j < NBUF \<and> b_dev (bufs (t b' i) ! j) = 1 \<and> b_blockno (bufs (t b' i) ! j) = c \<and> b_valid (bufs (t b' i) ! j))" for j
      using cached_iff [OF inv(2), of c j] by auto
    have "view s c = disk s c"
    proof (cases "cached s c")
      case (Some k)
      then have k: "k < NBUF" "b_dev (bufs s ! k) = 1" "b_blockno (bufs s ! k) = c" "b_valid (bufs s ! k)"
        using cached_iff [OF inv(1)] by auto
      with un [of k] tb [OF k(1)] have "k = i" by (auto split: if_splits)
      with k old un [of i] tb [OF i] i have "b_data (bufs s ! k) = disk s c" by auto
      with Some show ?thesis by (simp add: view_def)
    qed (simp add: view_def)
    with None show ?thesis by (simp add: view_def t_def)
  qed
qed

lemma bread_hit:
  assumes inv: "binv s" and b: "b < disksize s" and hit: "bget_hit 1 b s = Some i"
    and free: "b_refcnt (bufs s ! i) = 0"
  defines "b' \<equiv> (bufs s ! i)\<lparr>b_refcnt := 1, b_lock := \<lparr>slocked = True, spid = cur_pid s\<rparr>,
                   b_data := view s b, b_valid := True\<rparr>"
  shows "bread 1 b s = Inr (i, s\<lparr>bufs := (bufs s)[i := b']\<rparr>)" and "buf_ok (disk s) (disksize s) (cur_pid s) b'"
proof -
  note len = binv_len [OF inv]
  have i: "i < NBUF" "b_dev (bufs s ! i) = 1" "b_blockno (bufs s ! i) = b" using hit bget_hit_Some [OF inv] by auto
  have ok: "buf_ok (disk s) (disksize s) (cur_pid s) (bufs s ! i)" using binv_buf [OF inv i(1)] .
  show "buf_ok (disk s) (disksize s) (cur_pid s) b'" using ok free i b by (simp add: buf_ok_def b'_def)
  let ?f = "\<lambda>x :: buf. x\<lparr>b_refcnt := b_refcnt x + 1\<rparr>"
  let ?s1 = "upd_buf i (\<lambda>b. (?f b)\<lparr>b_lock := \<lparr>slocked = True, spid = cur_pid s\<rparr>\<rparr>) s"
  have "acquire_buf i (upd_buf i ?f s) = Inr ?s1"
    by (rule acquire_buf_free [OF inv i(1)]) (use ok free i len in \<open>simp add: buf_ok_def\<close>)
  then have g: "bget 1 b s = Inr (i, ?s1)" by (simp add: bget_def hit)
  show "bread 1 b s = Inr (i, s\<lparr>bufs := (bufs s)[i := b']\<rparr>)"
  proof (cases "b_valid (bufs s ! i)")
    case True
    then have "view s b = b_data (bufs s ! i)" using view_cached [OF inv i(1,2)] i(3) by simp
    then have "(?f (bufs s ! i))\<lparr>b_lock := \<lparr>slocked = True, spid = cur_pid s\<rparr>\<rparr> = b'"
      using True free by (cases "bufs s ! i") (simp add: b'_def)
    then have "?s1 = s\<lparr>bufs := (bufs s)[i := b']\<rparr>" by (simp only: upd_buf_def)
    with g have g': "bget 1 b s = Inr (i, s\<lparr>bufs := (bufs s)[i := b']\<rparr>)" by (simp only:)
    have "b_valid (bufs (s\<lparr>bufs := (bufs s)[i := b']\<rparr>) ! i)" using i(1) len by (simp add: b'_def)
    then show ?thesis unfolding bread_def g' rbind_simps prod.case by (simp only: not_True_eq_False if_False)
  next
    case False
    obtain p where p: "curp s = Some p" "cur_pid s = p_pid (procs s ! p)" using binv_cur [OF inv] by auto
    have "view s b = disk s b"
    proof (rule view_uncached [OF inv])
      fix j assume "j < NBUF" "b_dev (bufs s ! j) = 1" "b_valid (bufs s ! j)"
      with binv_distinct [OF inv this(1) i(1)] False i show "b_blockno (bufs s ! j) \<noteq> b" by metis
    qed
    moreover have "\<not> b_dirty (bufs s ! i)" using ok False by (simp add: buf_ok_def)
    ultimately have "iderw i ?s1 = Inr (s\<lparr>bufs := (bufs s)[i := b']\<rparr>)"
      using False i b len p free
      by (simp add: iderw_def holding_buf_def myproc_def holdingsleep_def upd_buf_def b'_def Let_def)
    with False g i len show ?thesis by (simp add: bread_def)
  qed
qed

lemma bread_miss:
  assumes inv: "binv s" and b: "b < disksize s" and miss: "bget_hit 1 b s = None"
    and vic: "bget_victim s = Some i"
  defines "b' \<equiv> (bufs s ! i)\<lparr>b_dev := 1, b_blockno := b, b_dirty := False, b_refcnt := 1,
                   b_lock := \<lparr>slocked = True, spid = cur_pid s\<rparr>, b_data := disk s b, b_valid := True\<rparr>"
  shows "bread 1 b s = Inr (i, s\<lparr>bufs := (bufs s)[i := b']\<rparr>)" and "buf_ok (disk s) (disksize s) (cur_pid s) b'"
proof -
  note len = binv_len [OF inv]
  have i: "i < NBUF" "b_refcnt (bufs s ! i) = 0" using bget_victim_Some [OF inv vic] by auto
  have ok: "buf_ok (disk s) (disksize s) (cur_pid s) (bufs s ! i)" using binv_buf [OF inv i(1)] .
  show "buf_ok (disk s) (disksize s) (cur_pid s) b'" using b by (simp add: buf_ok_def b'_def)
  let ?f = "\<lambda>x :: buf. x\<lparr>b_dev := 1, b_blockno := b, b_valid := False, b_dirty := False, b_refcnt := 1\<rparr>"
  let ?s1 = "upd_buf i (\<lambda>b. (?f b)\<lparr>b_lock := \<lparr>slocked = True, spid = cur_pid s\<rparr>\<rparr>) s"
  have "acquire_buf i (upd_buf i ?f s) = Inr ?s1"
    by (rule acquire_buf_free [OF inv i(1)]) (use ok i len in \<open>simp add: buf_ok_def\<close>)
  then have g: "bget 1 b s = Inr (i, ?s1)" by (simp add: bget_def miss vic)
  obtain p where p: "curp s = Some p" "cur_pid s = p_pid (procs s ! p)" using binv_cur [OF inv] by auto
  have "iderw i ?s1 = Inr (s\<lparr>bufs := (bufs s)[i := b']\<rparr>)"
    using i b len p
    by (simp add: iderw_def holding_buf_def myproc_def holdingsleep_def upd_buf_def b'_def Let_def)
  with g i len show "bread 1 b s = Inr (i, s\<lparr>bufs := (bufs s)[i := b']\<rparr>)" by (simp add: bread_def)
qed

lemma held_upd:
  "length (bufs s) = NBUF \<Longrightarrow> i < NBUF \<Longrightarrow> held_bufs (s\<lparr>bufs := (bufs s)[i := b']\<rparr>) =
     (if b_refcnt b' = 0 then held_bufs s - {i} else insert i (held_bufs s))"
  "length (bufs s) = NBUF \<Longrightarrow> i < NBUF \<Longrightarrow> busy_bufs (s\<lparr>bufs := (bufs s)[i := b']\<rparr>) =
     (if b_refcnt b' = 0 \<and> \<not> b_dirty b' then busy_bufs s - {i} else insert i (busy_bufs s))"
  by (auto simp: held_bufs_def busy_bufs_def nth_upd split: if_splits)

text \<open>\<^verbatim>\<open>bread\<close> returns a locked buffer with the block's content and disturbs no reader.\<close>

lemma bread_spec:
  assumes inv: "binv s" and b: "b < disksize s"
    and nh: "\<And>i. i \<in> held_bufs s \<Longrightarrow> b_blockno (bufs s ! i) \<noteq> b"
    and room: "bget_hit 1 b s = None \<Longrightarrow> card (busy_bufs s) < NBUF"
  obtains i b' where "bread 1 b s = Inr (i, s\<lparr>bufs := (bufs s)[i := b']\<rparr>)"
    "binv (s\<lparr>bufs := (bufs s)[i := b']\<rparr>)" "i < NBUF" "i \<notin> held_bufs s"
    "b_blockno b' = b" "b_data b' = view s b" "b_refcnt b' = 1" "b_dev b' = 1" "b_valid b'"
    "b_dirty b' \<longleftrightarrow> i \<in> busy_bufs s" "b_dirty b' \<longrightarrow> b_blockno (bufs s ! i) = b"
    "view (s\<lparr>bufs := (bufs s)[i := b']\<rparr>) = view s"
proof (cases "bget_hit 1 b s")
  case (Some i)
  then have i: "i < NBUF" "b_dev (bufs s ! i) = 1" "b_blockno (bufs s ! i) = b" using bget_hit_Some [OF inv] by auto
  then have free: "i \<notin> held_bufs s" "b_refcnt (bufs s ! i) = 0"
    using nh [of i] binv_len [OF inv] by (auto simp: held_bufs_def)
  let ?b = "(bufs s ! i)\<lparr>b_refcnt := 1, b_lock := \<lparr>slocked = True, spid = cur_pid s\<rparr>,
                   b_data := view s b, b_valid := True\<rparr>"
  note h = bread_hit [OF inv b Some free(2)]
  have inv': "binv (s\<lparr>bufs := (bufs s)[i := ?b]\<rparr>)" by (rule binv_upd [OF inv i(1) h(2)]) (use i in auto)
  show thesis
  proof (rule that [OF h(1) inv' i(1) free(1)])
    show "view (s\<lparr>bufs := (bufs s)[i := ?b]\<rparr>) = view s"
      by (rule view_refill [OF inv inv' i(1)]) (use i in auto)
  qed (use i free binv_len [OF inv] in \<open>simp_all add: busy_bufs_def\<close>)
next
  case None
  obtain i where v: "bget_victim s = Some i" using bget_victim_exists [OF inv room [OF None]] by auto
  then have i: "i < NBUF" "b_refcnt (bufs s ! i) = 0" "\<not> b_dirty (bufs s ! i)" using bget_victim_Some [OF inv] by auto
  note un = None [unfolded bget_hit_None [OF inv]]
  note h = bread_miss [OF inv b None v]
  let ?b = "(bufs s ! i)\<lparr>b_dev := 1, b_blockno := b, b_dirty := False, b_refcnt := 1,
                   b_lock := \<lparr>slocked = True, spid = cur_pid s\<rparr>, b_data := disk s b, b_valid := True\<rparr>"
  have vd: "view s b = disk s b" by (rule view_uncached [OF inv]) (use un in auto)
  have inv': "binv (s\<lparr>bufs := (bufs s)[i := ?b]\<rparr>)" by (rule binv_upd [OF inv i(1) h(2)]) (use un in auto)
  show thesis
  proof (rule that [OF h(1) inv' i(1)])
    show "view (s\<lparr>bufs := (bufs s)[i := ?b]\<rparr>) = view s"
    proof (rule view_refill [OF inv inv' i(1)])
      show "b_dev (bufs s ! i) = 1 \<Longrightarrow> b_valid (bufs s ! i) \<Longrightarrow>
        b_dev ?b = 1 \<and> b_valid ?b \<and> b_blockno ?b = b_blockno (bufs s ! i) \<or>
        b_data (bufs s ! i) = disk s (b_blockno (bufs s ! i))"
        using binv_buf [OF inv i(1)] i by (simp add: buf_ok_def)
    qed (simp add: vd)
  qed (use i vd binv_len [OF inv] in \<open>simp_all add: busy_bufs_def held_bufs_def\<close>)
qed

lemma heldD:
  assumes "binv s" "i \<in> held_bufs s"
  shows "i < NBUF" "b_refcnt (bufs s ! i) = 1" "b_dev (bufs s ! i) = 1" "b_valid (bufs s ! i)"
    "b_blockno (bufs s ! i) < disksize s" "b_lock (bufs s ! i) = \<lparr>slocked = True, spid = cur_pid s\<rparr>"
proof -
  show i: "i < NBUF" using assms binv_len [OF assms(1)] by (simp add: held_bufs_def)
  have "b_refcnt (bufs s ! i) \<noteq> 0" using assms(2) by (simp add: held_bufs_def)
  with binv_buf [OF assms(1) i] show "b_refcnt (bufs s ! i) = 1" "b_dev (bufs s ! i) = 1" "b_valid (bufs s ! i)"
    "b_blockno (bufs s ! i) < disksize s" "b_lock (bufs s ! i) = \<lparr>slocked = True, spid = cur_pid s\<rparr>"
    by (simp_all add: buf_ok_def)
qed

text \<open>Changing the content of a held buffer.\<close>

definition set_data :: "nat \<Rightarrow> bytes \<Rightarrow> 'a bstate_scheme \<Rightarrow> 'a bstate_scheme" where
  "set_data i f s = upd_buf i (\<lambda>b. b\<lparr>b_data := f\<rparr>) s"

lemma set_data_spec:
  assumes "binv s" "i \<in> held_bufs s"
  shows "binv (set_data i f s)" "held_bufs (set_data i f s) = held_bufs s" "busy_bufs (set_data i f s) = busy_bufs s"
    "view (set_data i f s) = (view s)(b_blockno (bufs s ! i) := f)"
proof -
  note h = heldD [OF assms] and len = binv_len [OF assms(1)]
  let ?b = "(bufs s ! i)\<lparr>b_data := f\<rparr>"
  have eq: "set_data i f s = s\<lparr>bufs := (bufs s)[i := ?b]\<rparr>" by (simp add: set_data_def upd_buf_def)
  have "buf_ok (disk s) (disksize s) (cur_pid s) ?b"
    using binv_buf [OF assms(1) h(1)] h(2) by (simp add: buf_ok_def)
  then show inv: "binv (set_data i f s)" unfolding eq by (rule binv_upd [OF assms(1) h(1)]) (use h in auto)
  show "held_bufs (set_data i f s) = held_bufs s" "busy_bufs (set_data i f s) = busy_bufs s"
    unfolding eq held_upd [OF len h(1)] using assms(2) h by (auto simp: busy_bufs_def held_bufs_def)
  show "view (set_data i f s) = (view s)(b_blockno (bufs s ! i) := f)"
  proof
    fix c
    have nth: "bufs (set_data i f s) ! j = (if j = i then ?b else bufs s ! j)" if "j < NBUF" for j
      using that len by (auto simp: eq nth_upd)
    have cj: "cached (set_data i f s) c = Some j \<longleftrightarrow> cached s c = Some j" for j
      unfolding cached_iff [OF inv] cached_iff [OF assms(1)] using nth [of j] by (cases "j = i") auto
    have cc: "cached (set_data i f s) c = cached s c"
      using cj by (metis not_None_eq)
    have ci: "cached s c = Some i \<longleftrightarrow> c = b_blockno (bufs s ! i)" using cached_iff [OF assms(1), of c i] h by auto
    show "view (set_data i f s) c = ((view s)(b_blockno (bufs s ! i) := f)) c"
    proof (cases "cached s c")
      case None
      with ci show ?thesis by (simp add: view_def cc) (simp add: eq)
    next
      case (Some j)
      then have "j < NBUF" using cached_iff [OF assms(1), of c j] by simp
      with Some ci nth [of j] show ?thesis by (auto simp: view_def cc)
    qed
  qed
qed

text \<open>Pinning a held buffer with \<^verbatim>\<open>B_DIRTY\<close>.\<close>

lemma mark_dirty_spec:
  assumes "binv s" "i \<in> held_bufs s"
  defines "t \<equiv> upd_buf i (\<lambda>b. b\<lparr>b_dirty := True\<rparr>) s"
  shows "binv t" "held_bufs t = held_bufs s" "busy_bufs t = busy_bufs s" "view t = view s"
proof -
  note h = heldD [OF assms(1,2)] and len = binv_len [OF assms(1)]
  let ?b = "(bufs s ! i)\<lparr>b_dirty := True\<rparr>"
  have eq: "t = s\<lparr>bufs := (bufs s)[i := ?b]\<rparr>" by (simp add: t_def upd_buf_def)
  have "buf_ok (disk s) (disksize s) (cur_pid s) ?b"
    using binv_buf [OF assms(1) h(1)] h by (simp add: buf_ok_def)
  then show inv: "binv t" unfolding eq by (rule binv_upd [OF assms(1) h(1)]) (use h in auto)
  show "held_bufs t = held_bufs s" "busy_bufs t = busy_bufs s"
    unfolding eq held_upd [OF len h(1)] using assms(2) h by (auto simp: busy_bufs_def held_bufs_def)
  show "view t = view s" unfolding eq
    by (rule view_refill [OF assms(1) _ h(1)]) (use inv [unfolded eq] h view_cached [OF assms(1) h(1,3,4)] in auto)
qed

lemma bwrite_spec:
  assumes inv: "binv s" and i: "i \<in> held_bufs s"
  defines "c \<equiv> b_blockno (bufs s ! i)"
  obtains t where "bwrite i s = Inr t" "binv t" "held_bufs t = held_bufs s" "busy_bufs t = busy_bufs s"
    "view t = view s" "disk t = (disk s)(c := b_data (bufs s ! i))" "wlog t = wlog s @ [(c, b_data (bufs s ! i))]"
    "brest s t" "bufs t = (bufs s)[i := (bufs s ! i)\<lparr>b_dirty := False\<rparr>]" "mru t = mru s" "procs t = procs s"
proof -
  note h = heldD [OF inv i] and len = binv_len [OF inv]
  let ?b = "(bufs s ! i)\<lparr>b_dirty := False\<rparr>"
  let ?s = "s\<lparr>disk := (disk s)(c := b_data (bufs s ! i)), wlog := wlog s @ [(c, b_data (bufs s ! i))]\<rparr>"
  let ?t = "?s\<lparr>bufs := (bufs s)[i := ?b]\<rparr>"
  obtain p where p: "curp s = Some p" "cur_pid s = p_pid (procs s ! p)" using binv_cur [OF inv] by auto
  have bt: "(bufs s ! i)\<lparr>b_dirty := False, b_valid := True\<rparr> = ?b" using h(4) by (cases "bufs s ! i") simp
  have w: "bwrite i s = Inr ?t"
    using h p len
    by (simp add: bwrite_def holding_buf_held [OF inv i] iderw_def holding_buf_def myproc_def holdingsleep_def
        upd_buf_def Let_def c_def bt)
  have "buf_ok (disk ?t) (disksize s) (cur_pid s) (bufs ?t ! j)" if "j < NBUF" for j
  proof (cases "j = i")
    case True
    with h len show ?thesis by (simp add: buf_ok_def)
  next
    case False
    then have "b_dev (bufs s ! j) = 1 \<Longrightarrow> b_blockno (bufs s ! j) \<noteq> c"
      using binv_distinct [OF inv that h(1)] h(3) by (auto simp: c_def)
    with binv_buf [OF inv that] False show ?thesis by (auto simp: buf_ok_def)
  qed
  moreover have "bufs_distinct ((bufs s)[i := ?b])"
  proof -
    have "binv (s\<lparr>bufs := (bufs s)[i := ?b]\<rparr>)"
      by (rule binv_upd [OF inv h(1)]) (use h in \<open>simp_all add: buf_ok_def\<close>)
    then show ?thesis by (simp add: binv_def)
  qed
  ultimately have inv': "binv ?t" using inv by (simp add: binv_def)
  have hb: "held_bufs ?t = held_bufs s" "busy_bufs ?t = busy_bufs s"
    using i h len by (auto simp: held_bufs_def busy_bufs_def nth_upd split: if_splits)
  have "view ?t = view s"
  proof
    fix d
    have cj: "cached ?t d = Some j \<longleftrightarrow> cached s d = Some j" for j
      unfolding cached_iff [OF inv'] cached_iff [OF inv] using len by (cases "j = i") auto
    have cc: "cached ?t d = cached s d" using cj by (metis not_None_eq)
    show "view ?t d = view s d"
    proof (cases "cached s d")
      case None
      then have "d \<noteq> c" using cached_iff [OF inv, of d i] h by (auto simp: c_def)
      with None show ?thesis by (simp add: view_def cc)
    next
      case (Some j)
      then show ?thesis using cached_iff [OF inv, of d j] len by (cases "j = i") (auto simp: view_def cc)
    qed
  qed
  with w inv' hb show thesis by (intro that [of ?t]) (simp_all add: brest_def)
qed

lemma brelse_spec:
  assumes inv: "binv s" and i: "i \<in> held_bufs s"
    and clean: "b_dirty (bufs s ! i) \<or> b_data (bufs s ! i) = disk s (b_blockno (bufs s ! i))"
  obtains t where "brelse i s = Inr t" "binv t" "held_bufs t = held_bufs s - {i}"
    "busy_bufs t = (if b_dirty (bufs s ! i) then busy_bufs s else busy_bufs s - {i})"
    "view t = view s" "disk t = disk s" "wlog t = wlog s" "brest s t"
    "bufs t = (bufs s)[i := (bufs s ! i)\<lparr>b_lock := initsleeplock, b_refcnt := 0\<rparr>]"
proof -
  note h = heldD [OF inv i] and len = binv_len [OF inv]
  let ?b = "(bufs s ! i)\<lparr>b_lock := initsleeplock, b_refcnt := 0\<rparr>"
  let ?u = "s\<lparr>bufs := (bufs s)[i := ?b]\<rparr>"
  let ?t = "?u\<lparr>procs := wakeup1 (ChanBuf i) (procs s), mru := i # remove1 i (mru s)\<rparr>"
  have r: "brelse i s = Inr ?t"
    using h len
    by (simp add: brelse_def holding_buf_held [OF inv i] release_buf_def releasesleep_def upd_buf_def Let_def initsleeplock_def)
  have inv_u: "binv ?u"
    by (rule binv_upd [OF inv h(1)])
       (use h clean binv_buf [OF inv h(1)] in \<open>auto simp: buf_ok_def initsleeplock_def\<close>)
  have cp: "cur_pid ?t = cur_pid s"
    using binv_cur [OF inv] by (auto simp: cur_pid_def)
  have mru: "distinct (i # remove1 i (mru s))" "set (i # remove1 i (mru s)) = {..<NBUF}"
    using inv h(1) by (auto simp: binv_def distinct_remove1 set_remove1_eq)
  have inv_t: "binv ?t" using inv_u mru cp by (simp add: binv_def)
  have "view ?u = view s"
    by (rule view_refill [OF inv inv_u h(1)]) (use h view_cached [OF inv h(1,3,4)] in auto)
  moreover have "view ?t = view ?u" by (auto simp: view_def cached_def split: option.splits)
  moreover have "held_bufs ?t = held_bufs s - {i}"
    "busy_bufs ?t = (if b_dirty (bufs s ! i) then busy_bufs s else busy_bufs s - {i})"
    using i h len by (auto simp: held_bufs_def busy_bufs_def nth_upd split: if_splits)
  ultimately show thesis using r inv_t by (intro that [of ?t]) (simp_all add: brest_def)
qed

section \<open>The routines in terms of blocks\<close>

text \<open>
  Clients of the cache reason about blocks, not about buffers: which blocks are held, which
  are pinned by \<^verbatim>\<open>B_DIRTY\<close>, what readers see and what is on the disk.
\<close>

definition dirty_blocks :: "'a bstate_scheme \<Rightarrow> nat set" where
  "dirty_blocks s = (\<lambda>i. b_blockno (bufs s ! i)) ` {i. i < NBUF \<and> b_dirty (bufs s ! i)}"

definition held_blocks :: "'a bstate_scheme \<Rightarrow> nat set" where
  "held_blocks s = (\<lambda>i. b_blockno (bufs s ! i)) ` held_bufs s"

lemma busy_blocks:
  assumes "binv s"
  shows "card (busy_bufs s) = card (dirty_blocks s \<union> held_blocks s)"
proof -
  have dev: "b_dev (bufs s ! i) = 1 \<and> i < NBUF" if "i \<in> busy_bufs s" for i
    using that binv_buf [OF assms, of i] binv_len [OF assms] by (auto simp: busy_bufs_def buf_ok_def split: if_splits)
  have "inj_on (\<lambda>i. b_blockno (bufs s ! i)) (busy_bufs s)"
    by (intro inj_onI) (use dev binv_distinct [OF assms] in blast)
  moreover have "(\<lambda>i. b_blockno (bufs s ! i)) ` busy_bufs s = dirty_blocks s \<union> held_blocks s"
    using binv_len [OF assms] by (auto simp: dirty_blocks_def held_blocks_def busy_bufs_def held_bufs_def)
  ultimately show ?thesis by (metis card_image)
qed

lemma dirty_unique:
  assumes "binv s" "i < NBUF" "b_dev (bufs s ! i) = 1"
  shows "b_blockno (bufs s ! i) \<in> dirty_blocks s \<longleftrightarrow> b_dirty (bufs s ! i)"
proof
  assume "b_blockno (bufs s ! i) \<in> dirty_blocks s"
  then obtain j where j: "j < NBUF" "b_dirty (bufs s ! j)" "b_blockno (bufs s ! j) = b_blockno (bufs s ! i)"
    by (auto simp: dirty_blocks_def)
  moreover have "b_dev (bufs s ! j) = 1" using binv_buf [OF assms(1) j(1)] j(2) by (simp add: buf_ok_def)
  ultimately show "b_dirty (bufs s ! i)" using binv_distinct [OF assms(1), of j i] assms by metis
qed (use assms in \<open>auto simp: dirty_blocks_def\<close>)

lemma view_clean:
  assumes "binv s" "b \<notin> dirty_blocks s" "b \<notin> held_blocks s"
  shows "view s b = disk s b"
proof (cases "cached s b")
  case (Some i)
  then have i: "i < NBUF" "b_dev (bufs s ! i) = 1" "b_blockno (bufs s ! i) = b" "b_valid (bufs s ! i)"
    using cached_iff [OF assms(1)] by auto
  with assms(2,3) binv_len [OF assms(1)] have "\<not> b_dirty (bufs s ! i)" "b_refcnt (bufs s ! i) = 0"
    by (auto simp: dirty_blocks_def held_blocks_def held_bufs_def)
  with binv_buf [OF assms(1) i(1)] i Some show ?thesis by (simp add: view_def buf_ok_def)
qed (simp add: view_def)

lemma dirty_blocks_upd:
  assumes "length (bufs s) = NBUF" "i < NBUF" "bufs t = (bufs s)[i := b']"
  shows "dirty_blocks t = (if b_dirty b' then {b_blockno b'} else {}) \<union>
    (\<lambda>j. b_blockno (bufs s ! j)) ` {j. j < NBUF \<and> j \<noteq> i \<and> b_dirty (bufs s ! j)}"
proof -
  have nth: "bufs t ! j = (if j = i then b' else bufs s ! j)" if "j < NBUF" for j
    using that assms by (auto simp: nth_upd)
  have "{j. j < NBUF \<and> b_dirty (bufs t ! j)} = (if b_dirty b' then {i} else {}) \<union> {j. j < NBUF \<and> j \<noteq> i \<and> b_dirty (bufs s ! j)}"
    using nth assms(2) by (auto split: if_splits)
  moreover have "(\<lambda>j. b_blockno (bufs t ! j)) ` {j. j < NBUF \<and> j \<noteq> i \<and> b_dirty (bufs s ! j)} =
      (\<lambda>j. b_blockno (bufs s ! j)) ` {j. j < NBUF \<and> j \<noteq> i \<and> b_dirty (bufs s ! j)}"
    using nth by (intro image_cong) auto
  ultimately show ?thesis using nth [OF assms(2)] by (simp add: dirty_blocks_def image_Un)
qed

lemma dirty_others:
  assumes "binv s" "i < NBUF" "b_dev (bufs s ! i) = 1"
  shows "(\<lambda>j. b_blockno (bufs s ! j)) ` {j. j < NBUF \<and> j \<noteq> i \<and> b_dirty (bufs s ! j)} = dirty_blocks s - {b_blockno (bufs s ! i)}"
proof -
  have "b_blockno (bufs s ! j) \<noteq> b_blockno (bufs s ! i)" if "j < NBUF" "j \<noteq> i" "b_dirty (bufs s ! j)" for j
    using binv_distinct [OF assms(1) that(1) assms(2)] binv_buf [OF assms(1) that(1)] that assms(3)
    by (auto simp: buf_ok_def)
  then show ?thesis by (auto simp: dirty_blocks_def)
qed

lemma bread_block:
  assumes inv: "binv s" and b: "b < disksize s" "b \<notin> held_blocks s"
    and room: "b \<in> dirty_blocks s \<or> card (dirty_blocks s \<union> held_blocks s) < NBUF"
  obtains i t where "bread 1 b s = Inr (i, t)" "binv t" "brest s t" "disk t = disk s" "wlog t = wlog s"
    "view t = view s" "held_bufs t = insert i (held_bufs s)" "i \<notin> held_bufs s" "i < NBUF"
    "b_blockno (bufs t ! i) = b" "b_data (bufs t ! i) = view s b" "dirty_blocks t = dirty_blocks s"
    "b_dirty (bufs t ! i) \<longleftrightarrow> b \<in> dirty_blocks s" "\<And>j. j \<noteq> i \<Longrightarrow> bufs t ! j = bufs s ! j"
    "held_blocks t = insert b (held_blocks s)" "procs t = procs s"
proof -
  have r: "bget_hit 1 b s = None \<Longrightarrow> card (busy_bufs s) < NBUF"
  proof -
    assume "bget_hit 1 b s = None"
    then have "\<forall>i < NBUF. b_dev (bufs s ! i) = 1 \<longrightarrow> b_blockno (bufs s ! i) \<noteq> b" unfolding bget_hit_None [OF inv] .
    then have "b \<notin> dirty_blocks s" using binv_buf [OF inv] by (fastforce simp: dirty_blocks_def buf_ok_def)
    with room show ?thesis by (simp add: busy_blocks [OF inv])
  qed
  have nh: "\<And>i. i \<in> held_bufs s \<Longrightarrow> b_blockno (bufs s ! i) \<noteq> b" using b(2) by (auto simp: held_blocks_def)
  obtain i b' where o: "bread 1 b s = Inr (i, s\<lparr>bufs := (bufs s)[i := b']\<rparr>)"
    "binv (s\<lparr>bufs := (bufs s)[i := b']\<rparr>)" "i < NBUF" "i \<notin> held_bufs s"
    "b_blockno b' = b" "b_data b' = view s b" "b_refcnt b' = 1" "b_dev b' = 1" "b_valid b'"
    "b_dirty b' \<longleftrightarrow> i \<in> busy_bufs s" "b_dirty b' \<longrightarrow> b_blockno (bufs s ! i) = b"
    "view (s\<lparr>bufs := (bufs s)[i := b']\<rparr>) = view s" by (rule bread_spec [OF inv b(1) nh r])
  let ?t = "s\<lparr>bufs := (bufs s)[i := b']\<rparr>"
  note len = binv_len [OF inv]
  have old: "b_dirty (bufs s ! i) \<longleftrightarrow> b_dirty b'"
    using o(3,4,10) len by (auto simp: busy_bufs_def held_bufs_def)
  have dt: "dirty_blocks ?t = dirty_blocks s"
  proof -
    have "dirty_blocks s = (if b_dirty (bufs s ! i) then {b_blockno (bufs s ! i)} else {}) \<union>
      (\<lambda>j. b_blockno (bufs s ! j)) ` {j. j < NBUF \<and> j \<noteq> i \<and> b_dirty (bufs s ! j)}"
      using dirty_blocks_upd [OF len o(3), of s "bufs s ! i"] by simp
    then show ?thesis using dirty_blocks_upd [OF len o(3), of ?t b'] old o(5,11) by (simp split: if_splits)
  qed
  have hb: "held_bufs ?t = insert i (held_bufs s)" using held_upd(1) [OF len o(3)] o(7) by simp
  have "held_blocks ?t = insert b (held_blocks s)"
  proof -
    have "(\<lambda>j. b_blockno (bufs ?t ! j)) ` held_bufs s = (\<lambda>j. b_blockno (bufs s ! j)) ` held_bufs s"
    proof (rule image_cong [OF refl])
      fix j assume "j \<in> held_bufs s"
      with o(4) have "j \<noteq> i" by auto
      then show "b_blockno (bufs ?t ! j) = b_blockno (bufs s ! j)" by simp
    qed
    then show ?thesis unfolding held_blocks_def hb using o(3,5) len by simp
  qed
  moreover have "b_dirty (bufs ?t ! i) \<longleftrightarrow> b \<in> dirty_blocks s"
    using dirty_unique [OF o(2,3)] o(3,5,8) len dt by simp
  ultimately show thesis
    using o dt hb len by (intro that [of i ?t]) (simp_all add: brest_def)
qed

lemma held_blocks_cong:
  "held_bufs t = held_bufs s \<Longrightarrow> (\<And>i. i \<in> held_bufs s \<Longrightarrow> b_blockno (bufs t ! i) = b_blockno (bufs s ! i)) \<Longrightarrow>
   held_blocks t = held_blocks s"
  by (simp add: held_blocks_def)

lemma held_blocks_remove:
  assumes "binv s" "i \<in> held_bufs s" "held_bufs t = held_bufs s - {i}"
    and "\<And>j. j \<noteq> i \<Longrightarrow> b_blockno (bufs t ! j) = b_blockno (bufs s ! j)"
  shows "held_blocks t = held_blocks s - {b_blockno (bufs s ! i)}"
proof -
  have inj: "inj_on (\<lambda>j. b_blockno (bufs s ! j)) (held_bufs s)"
  proof (rule inj_onI)
    fix j k assume jk: "j \<in> held_bufs s" "k \<in> held_bufs s" "b_blockno (bufs s ! j) = b_blockno (bufs s ! k)"
    note h = heldD(1,3) [OF assms(1) jk(1)] heldD(1,3) [OF assms(1) jk(2)]
    show "j = k" by (rule binv_distinct [OF assms(1) h(1,3,2,4) jk(3)])
  qed
  have "held_blocks t = (\<lambda>j. b_blockno (bufs s ! j)) ` (held_bufs s - {i})"
    unfolding held_blocks_def assms(3) by (rule image_cong) (simp_all add: assms(4))
  also have "\<dots> = held_blocks s - {b_blockno (bufs s ! i)}"
    using inj_on_image_set_diff [OF inj, of "held_bufs s" "{i}"] assms(2) by (simp add: held_blocks_def)
  finally show ?thesis .
qed

lemma set_data_block:
  assumes "binv s" "i \<in> held_bufs s"
  shows "held_blocks (set_data i f s) = held_blocks s" "dirty_blocks (set_data i f s) = dirty_blocks s"
    "b_blockno (bufs (set_data i f s) ! j) = b_blockno (bufs s ! j)" "b_dirty (bufs (set_data i f s) ! j) = b_dirty (bufs s ! j)"
    "b_data (bufs (set_data i f s) ! i) = f" "j \<noteq> i \<Longrightarrow> bufs (set_data i f s) ! j = bufs s ! j"
    "disk (set_data i f s) = disk s" "wlog (set_data i f s) = wlog s" "disksize (set_data i f s) = disksize s"
    "procs (set_data i f s) = procs s" "brest s (set_data i f s)"
proof -
  have i: "i < length (bufs s)" using heldD(1) [OF assms] binv_len [OF assms(1)] by simp
  have n: "bufs (set_data i f s) ! j = (if j = i then (bufs s ! i)\<lparr>b_data := f\<rparr> else bufs s ! j)" for j
    using i by (simp add: set_data_def upd_buf_def)
  show "b_blockno (bufs (set_data i f s) ! j) = b_blockno (bufs s ! j)" "b_dirty (bufs (set_data i f s) ! j) = b_dirty (bufs s ! j)"
    for j by (simp_all add: n)
  then show "dirty_blocks (set_data i f s) = dirty_blocks s" by (simp add: dirty_blocks_def)
  show "held_blocks (set_data i f s) = held_blocks s"
    by (rule held_blocks_cong) (simp_all add: set_data_spec(2) [OF assms] n)
  show "b_data (bufs (set_data i f s) ! i) = f" "j \<noteq> i \<Longrightarrow> bufs (set_data i f s) ! j = bufs s ! j"
    by (simp_all add: n)
  show "disk (set_data i f s) = disk s" "wlog (set_data i f s) = wlog s" "disksize (set_data i f s) = disksize s"
    "procs (set_data i f s) = procs s" "brest s (set_data i f s)"
    by (simp_all add: set_data_def)
qed

lemma bwrite_block:
  assumes inv: "binv s" and i: "i \<in> held_bufs s"
  defines "c \<equiv> b_blockno (bufs s ! i)"
  obtains t where "bwrite i s = Inr t" "binv t" "brest s t" "disk t = (disk s)(c := b_data (bufs s ! i))"
    "wlog t = wlog s @ [(c, b_data (bufs s ! i))]" "view t = view s" "held_bufs t = held_bufs s"
    "held_blocks t = held_blocks s" "dirty_blocks t = dirty_blocks s - {c}"
    "\<And>j. j \<noteq> i \<Longrightarrow> bufs t ! j = bufs s ! j" "bufs t ! i = (bufs s ! i)\<lparr>b_dirty := False\<rparr>" "procs t = procs s"
proof -
  note h = heldD [OF inv i] and len = binv_len [OF inv]
  obtain t where t: "bwrite i s = Inr t" "binv t" "held_bufs t = held_bufs s" "busy_bufs t = busy_bufs s"
    "view t = view s" "disk t = (disk s)(c := b_data (bufs s ! i))" "wlog t = wlog s @ [(c, b_data (bufs s ! i))]"
    "brest s t" "bufs t = (bufs s)[i := (bufs s ! i)\<lparr>b_dirty := False\<rparr>]" "mru t = mru s" "procs t = procs s"
    unfolding c_def by (rule bwrite_spec [OF inv i])
  have "dirty_blocks t = dirty_blocks s - {c}"
    using dirty_blocks_upd [OF len h(1) t(9)] dirty_others [OF inv h(1,3)] by (simp add: c_def)
  moreover have "held_blocks t = held_blocks s"
    by (rule held_blocks_cong [OF t(3)]) (use h(1) len in \<open>auto simp: t(9) nth_upd held_bufs_def\<close>)
  ultimately show thesis using t h(1) len by (intro that [of t]) simp_all
qed

lemma brelse_block:
  assumes inv: "binv s" and i: "i \<in> held_bufs s"
    and clean: "b_dirty (bufs s ! i) \<or> b_data (bufs s ! i) = disk s (b_blockno (bufs s ! i))"
  obtains t where "brelse i s = Inr t" "binv t" "brest s t" "disk t = disk s" "wlog t = wlog s" "view t = view s"
    "held_bufs t = held_bufs s - {i}" "held_blocks t = held_blocks s - {b_blockno (bufs s ! i)}"
    "dirty_blocks t = dirty_blocks s" "\<And>j. j \<noteq> i \<Longrightarrow> bufs t ! j = bufs s ! j"
proof -
  note h = heldD [OF inv i] and len = binv_len [OF inv]
  obtain t where t: "brelse i s = Inr t" "binv t" "held_bufs t = held_bufs s - {i}"
    "busy_bufs t = (if b_dirty (bufs s ! i) then busy_bufs s else busy_bufs s - {i})"
    "view t = view s" "disk t = disk s" "wlog t = wlog s" "brest s t"
    "bufs t = (bufs s)[i := (bufs s ! i)\<lparr>b_lock := initsleeplock, b_refcnt := 0\<rparr>]"
    by (rule brelse_spec [OF inv i clean])
  have b: "b_blockno (bufs t ! j) = b_blockno (bufs s ! j)" "b_dirty (bufs t ! j) = b_dirty (bufs s ! j)" for j
    using h(1) len by (cases "j = i", simp_all add: t(9))+
  then have "dirty_blocks t = dirty_blocks s" by (simp add: dirty_blocks_def)
  moreover have "held_blocks t = held_blocks s - {b_blockno (bufs s ! i)}"
    by (rule held_blocks_remove [OF inv i t(3)]) (simp add: b)
  ultimately show thesis using t by (intro that [of t]) simp_all
qed

section \<open>The list through prev and next\<close>

text \<open>
  The cache keeps its buffers on a circular doubly linked list whose head is \<^verbatim>\<open>bcache.head\<close>, here
  the index \<open>h\<close>. \<open>ring\<close> relates the pointers to the list of buffers that the routines above use.
\<close>

record links =
  nx :: "nat \<Rightarrow> nat"
  pv :: "nat \<Rightarrow> nat"

definition list_push :: "nat \<Rightarrow> nat \<Rightarrow> links \<Rightarrow> links" where
  "list_push h b l =
     (let l1 = l\<lparr>nx := (nx l)(b := nx l h)\<rparr>;
          l2 = l1\<lparr>pv := (pv l1)(b := h)\<rparr>;
          l3 = l2\<lparr>pv := (pv l2)(nx l2 h := b)\<rparr>
      in l3\<lparr>nx := (nx l3)(h := b)\<rparr>)"

definition list_unlink :: "nat \<Rightarrow> links \<Rightarrow> links" where
  "list_unlink b l =
     (let l1 = l\<lparr>pv := (pv l)(nx l b := pv l b)\<rparr>
      in l1\<lparr>nx := (nx l1)(pv l1 b := nx l1 b)\<rparr>)"

definition list_init :: "nat \<Rightarrow> nat \<Rightarrow> links \<Rightarrow> links" where
  "list_init h n l = fold (list_push h) [0..<n] (l\<lparr>pv := (pv l)(h := h), nx := (nx l)(h := h)\<rparr>)"

fun chain :: "links \<Rightarrow> nat \<Rightarrow> nat list \<Rightarrow> nat \<Rightarrow> bool" where
  "chain l a [] z \<longleftrightarrow> nx l a = z \<and> pv l z = a"
| "chain l a (x # xs) z \<longleftrightarrow> nx l a = x \<and> pv l x = a \<and> chain l x xs z"

definition ring :: "links \<Rightarrow> nat \<Rightarrow> nat list \<Rightarrow> bool" where
  "ring l h xs \<longleftrightarrow> distinct (h # xs) \<and> chain l h xs h"

lemma chain_cong:
  "(\<And>v. v \<in> insert a (set xs) \<Longrightarrow> nx l' v = nx l v) \<Longrightarrow> (\<And>v. v \<in> insert z (set xs) \<Longrightarrow> pv l' v = pv l v) \<Longrightarrow>
   chain l' a xs z = chain l a xs z"
proof (induction xs arbitrary: a)
  case (Cons x xs)
  have "chain l' x xs z = chain l x xs z" by (rule Cons.IH) (use Cons.prems in auto)
  then show ?case using Cons.prems by simp
qed simp

lemma chain_append: "chain l a (xs @ b # ys) z \<longleftrightarrow> chain l a xs b \<and> chain l b ys z"
  by (induction xs arbitrary: a) auto

lemma chain_last: "chain l a xs z \<Longrightarrow> pv l z = last (a # xs) \<and> nx l (last (a # xs)) = z"
  by (induction xs arbitrary: a) auto

lemma chain_relink:
  assumes "chain l a xs b" "distinct (a # xs)" "z \<notin> set xs" "b \<notin> set xs"
    and "p = last (a # xs)" "nx l' = (nx l)(p := z)" "\<And>v. v \<in> set xs \<Longrightarrow> pv l' v = pv l v" "pv l' z = p"
  shows "chain l' a xs z"
  using assms
proof (induction xs arbitrary: a)
  case (Cons x xs)
  have "chain l' x xs z" by (rule Cons.IH) (use Cons.prems in auto)
  moreover have "last (a # x # xs) \<noteq> a" using Cons.prems(2) last_in_set [of "x # xs"] by auto
  ultimately show ?case using Cons.prems by simp
qed simp

lemma ring_unlink:
  assumes "ring l h (xs @ b # ys)"
  shows "ring (list_unlink b l) h (xs @ ys)"
proof -
  have c: "chain l h xs b" "chain l b ys h" "distinct (h # xs @ b # ys)"
    using assms by (auto simp: ring_def chain_append)
  define p where "p = last (h # xs)"
  have p: "pv l b = p" "p \<in> insert h (set xs)" using chain_last [OF c(1)] last_in_set [of "h # xs"] by (auto simp: p_def)
  have un: "list_unlink b l = l\<lparr>pv := (pv l)(nx l b := p), nx := (nx l)(p := nx l b)\<rparr>" if "nx l b \<noteq> b"
    using that p by (simp add: list_unlink_def Let_def)
  show ?thesis
  proof (cases ys)
    case Nil
    then have n: "nx l b = h" using c(2) by simp
    have "chain (list_unlink b l) h xs h"
      by (rule chain_relink [OF c(1) _ _ _ p_def]) (use c(3) n un in auto)
    with Nil c(3) show ?thesis by (simp add: ring_def)
  next
    case (Cons y zs)
    then have n: "nx l b = y" "chain l y zs h" using c(2) by simp_all
    have ul: "list_unlink b l = l\<lparr>pv := (pv l)(y := p), nx := (nx l)(p := y)\<rparr>" using un n c(3) Cons by auto
    have "chain (list_unlink b l) h xs y"
      by (rule chain_relink [OF c(1) _ _ _ p_def]) (use c(3) Cons ul in auto)
    moreover have "chain (list_unlink b l) y zs h = chain l y zs h"
      by (rule chain_cong) (use c(3) Cons ul p(2) in auto)
    ultimately show ?thesis using c(3) Cons n(2) by (simp add: ring_def chain_append)
  qed
qed

lemma ring_push:
  assumes "ring l h xs" "b \<notin> set (h # xs)"
  shows "ring (list_push h b l) h (b # xs)"
proof (cases xs)
  case Nil
  with assms show ?thesis by (auto simp: ring_def list_push_def Let_def)
next
  case (Cons y zs)
  then have n: "nx l h = y" "chain l y zs h" "distinct (h # y # zs)" using assms(1) by (auto simp: ring_def)
  have "chain (list_push h b l) y zs h = chain l y zs h"
    by (rule chain_cong) (use n assms(2) Cons in \<open>auto simp: list_push_def Let_def\<close>)
  with n assms(2) Cons show ?thesis by (auto simp: ring_def list_push_def Let_def)
qed

lemma ring_init: "n \<le> h \<Longrightarrow> ring (list_init h n l) h (rev [0..<n])"
proof (induction n)
  case 0
  then show ?case by (simp add: list_init_def ring_def)
next
  case (Suc n)
  then have "ring (list_push h n (list_init h n l)) h (n # rev [0..<n])" by (intro ring_push) auto
  then show ?case by (simp add: list_init_def)
qed

section \<open>Properties\<close>

text \<open>
  C19. The cache is coherent: \<^verbatim>\<open>bread\<close> of a block that nobody holds returns, locked, the block's
  current content (the cached copy if there is one, otherwise the disk's), evicts nothing
  that has not reached the disk, and keeps the invariant that a block has at most one buffer.
\<close>

theorem bread_coherent:
  assumes "binv s" and "b < disksize s" and "\<forall>i \<in> held_bufs s. b_blockno (bufs s ! i) \<noteq> b"
    and "card (busy_bufs s) < NBUF"
  shows "\<exists>i t. bread 1 b s = Inr (i, t) \<and> b_data (bufs t ! i) = view s b \<and> holding_buf i t = Inr True \<and>
           binv t \<and> view t = view s \<and> disk t = disk s \<and> held_bufs t = insert i (held_bufs s)"
proof -
  obtain i b' where "bread 1 b s = Inr (i, s\<lparr>bufs := (bufs s)[i := b']\<rparr>)"
    "binv (s\<lparr>bufs := (bufs s)[i := b']\<rparr>)" "i < NBUF" "b_data b' = view s b" "b_refcnt b' = 1"
    "view (s\<lparr>bufs := (bufs s)[i := b']\<rparr>) = view s"
    using bread_spec [OF assms(1,2)] assms(3,4) by metis
  moreover from this have "held_bufs (s\<lparr>bufs := (bufs s)[i := b']\<rparr>) = insert i (held_bufs s)"
    using held_upd(1) [OF binv_len [OF assms(1)]] by simp
  moreover from calculation have "holding_buf i (s\<lparr>bufs := (bufs s)[i := b']\<rparr>) = Inr True"
    by (intro holding_buf_held) auto
  ultimately show ?thesis using binv_len [OF assms(1)] by (intro exI [of _ i] exI) auto
qed

text \<open>
  C20. When every buffer is referenced or pinned by \<^verbatim>\<open>B_DIRTY\<close>, reading a block that is not cached
  panics.
\<close>

theorem bget_no_buffers:
  assumes "\<forall>i \<in> set (mru s). b_refcnt (bufs s ! i) \<noteq> 0 \<or> b_dirty (bufs s ! i)"
    and "\<forall>i \<in> set (mru s). b_blockno (bufs s ! i) \<noteq> b"
  shows "bread dev b s = Inl (Panic ''bget: no buffers'')"
proof -
  have "bget_hit dev b s = None" using assms(2) by (auto simp: bget_hit_def find_None_iff)
  moreover have "bget_victim s = None" using assms(1) by (auto simp: bget_victim_def find_None_iff)
  ultimately show ?thesis by (simp add: bread_def bget_def)
qed

text \<open>
  C21. The pointer code of \<^verbatim>\<open>brelse\<close> implements the list operation the cache relies on: unlinking a
  buffer and inserting it after the head turns the list \<open>xs\<close> into \<open>b # remove1 b xs\<close>, and
  the initial links made by \<^verbatim>\<open>binit\<close> represent the buffers in reverse order.
\<close>

theorem mru_links_refine:
  assumes "ring l h xs" and "b \<in> set xs" and "n \<le> h"
  shows "ring (list_push h b (list_unlink b l)) h (b # remove1 b xs) \<and> ring (list_init h n l) h (rev [0..<n])"
proof -
  obtain us vs where "xs = us @ b # vs" "b \<notin> set us" using split_list_first [OF assms(2)] by auto
  moreover from this assms(1) have "ring (list_unlink b l) h (us @ vs)" using ring_unlink by simp
  moreover have "distinct (h # xs)" using assms(1) by (simp add: ring_def)
  ultimately show ?thesis using ring_push [of "list_unlink b l" h "us @ vs" b] ring_init [OF assms(3)]
    by (simp add: remove1_append)
qed

definition links0 :: links where
  "links0 = \<lparr>nx = (\<lambda>_. 0), pv = (\<lambda>_. 0)\<rparr>"

theorem mru_links_refine_witness:
  "ring (list_push 3 0 (list_unlink 0 (list_init 3 3 links0))) 3 [0, 2, 1] \<and>
   ring (list_init 3 3 (list_init 3 3 links0)) 3 [2, 1, 0]"
proof -
  have "rev [0..<3] = [2, 1, 0 :: nat]" by (simp add: upt_rec)
  with ring_init [of 3 3 links0] mru_links_refine [of "list_init 3 3 links0" 3 "[2, 1, 0]" 0 3] show ?thesis by simp
qed

text \<open>A booted machine with one process, an empty cache and a disk of 1000 blocks.\<close>

definition buf0 :: buf where
  "buf0 = \<lparr>b_valid = False, b_dirty = False, b_dev = 0, b_blockno = 0, b_lock = initsleeplock, b_refcnt = 0,
           b_data = (\<lambda>_. 0)\<rparr>"

definition boot_bstate :: bstate where
  "boot_bstate = \<lparr>kend = 0x80100000, use_lock = True, freelist = None, runArr = (\<lambda>_. \<lparr>run_next = None, run_ref = 0\<rparr>),
     occupiedPages = 0, pmem = (\<lambda>_ _. 0), procs = [proc0\<lparr>p_pid := 1\<rparr>], curp = Some 0, initproc = Some 0, nextpid = 2,
     cr3 = 0, disk = (\<lambda>b _. of_nat b), disksize = 1000, bufs = replicate NBUF buf0, mru = rev [0..<NBUF], wlog = []\<rparr>"

lemma boot_binv: "binv boot_bstate"
  by (auto simp: binv_def boot_bstate_def bufs_distinct_def buf_ok_def buf0_def initsleeplock_def)

lemma boot_free: "held_bufs boot_bstate = {}" "busy_bufs boot_bstate = {}"
  by (auto simp: held_bufs_def busy_bufs_def boot_bstate_def buf0_def)

lemma boot_disksize: "disksize boot_bstate = 1000"
  by (simp add: boot_bstate_def)

lemma boot_view: "view boot_bstate b = (\<lambda>_. of_nat b)"
  using view_quiet [OF boot_binv boot_free(2)] by (simp add: boot_bstate_def)

theorem bread_coherent_witness:
  "\<exists>i t. bread 1 7 boot_bstate = Inr (i, t) \<and> b_data (bufs t ! i) = (\<lambda>_. 7) \<and> holding_buf i t = Inr True \<and>
     binv t \<and> view t = view boot_bstate \<and> disk t = disk boot_bstate \<and> held_bufs t = {i}"
  using bread_coherent [OF boot_binv, of 7] by (simp add: boot_free boot_view boot_disksize)

definition full_bstate :: bstate where
  "full_bstate = boot_bstate\<lparr>bufs := replicate NBUF (buf0\<lparr>b_dirty := True, b_dev := 1\<rparr>)\<rparr>"

theorem bget_no_buffers_witness: "bread 1 7 full_bstate = Inl (Panic ''bget: no buffers'')"
  by (rule bget_no_buffers) (simp_all add: full_bstate_def boot_bstate_def buf0_def)

end
