(* ===== verification/Log.thy ===== *)
theory Log
  imports Bio
begin

text \<open>
  The redo log of \<^verbatim>\<open>log.c\<close>. A transaction collects the blocks that system calls modify
  (\<^verbatim>\<open>log_write\<close> pins them in the cache); \<^verbatim>\<open>commit\<close> copies them to the log area, writes the header
  block, installs them at home and erases the header. A crash keeps only the disk.
\<close>

section \<open>State\<close>

abbreviation MAXOPBLOCKS :: nat where "MAXOPBLOCKS \<equiv> 10"
abbreviation LOGSIZE :: nat where "LOGSIZE \<equiv> 30"
abbreviation FSSIZE :: nat where "FSSIZE \<equiv> 1000"

record superblock =
  sb_size :: nat
  sb_nblocks :: nat
  sb_ninodes :: nat
  sb_nlog :: nat
  sb_logstart :: nat
  sb_inodestart :: nat
  sb_bmapstart :: nat

record lstate = bstate +
  lg_start :: nat
  lg_size :: nat
  outstanding :: int
  committing :: bool
  lg_dev :: uint
  lh_n :: int
  lh_block :: "nat list"

section \<open>Operations\<close>

definition sb_of :: "bytes \<Rightarrow> superblock" where
  "sb_of d = \<lparr>sb_size = unat (rd32 d 0), sb_nblocks = unat (rd32 d 4), sb_ninodes = unat (rd32 d 8),
     sb_nlog = unat (rd32 d 12), sb_logstart = unat (rd32 d 16), sb_inodestart = unat (rd32 d 20),
     sb_bmapstart = unat (rd32 d 24)\<rparr>"

definition readsb :: "uint \<Rightarrow> 'a bstate_scheme \<Rightarrow> (superblock \<times> 'a bstate_scheme) res" where
  "readsb dev s =
     rbind (bread dev 1 s) (\<lambda>(i, s1).
     let sb = sb_of (b_data (bufs s1 ! i))
     in rbind (brelse i s1) (\<lambda>s2. Inr (sb, s2)))"

text \<open>The element \<^verbatim>\<open>log.lh.block[tail]\<close>.\<close>

definition lh_nth :: "nat \<Rightarrow> 'a lstate_scheme \<Rightarrow> nat res" where
  "lh_nth t s = (if t < length (lh_block s) then Inr (lh_block s ! t) else Inl (Undef ''lh.block''))"

definition install_one :: "nat \<Rightarrow> 'a lstate_scheme \<Rightarrow> 'a lstate_scheme res" where
  "install_one tail s =
     rbind (bread (lg_dev s) (lg_start s + tail + 1) s) (\<lambda>(lbuf, s1).
     rbind (lh_nth tail s1) (\<lambda>home.
     rbind (bread (lg_dev s1) home s1) (\<lambda>(dbuf, s2).
     rbind (bwrite dbuf (set_data dbuf (b_data (bufs s2 ! lbuf)) s2)) (\<lambda>s3.
     rbind (brelse lbuf s3) (\<lambda>s4.
     brelse dbuf s4)))))"

definition install_trans :: "'a lstate_scheme \<Rightarrow> 'a lstate_scheme res" where
  "install_trans s = rfold install_one [0..<nat (lh_n s)] s"

definition read_head :: "'a lstate_scheme \<Rightarrow> 'a lstate_scheme res" where
  "read_head s =
     rbind (bread (lg_dev s) (lg_start s) s) (\<lambda>(i, s1).
     let d = b_data (bufs s1 ! i); n = sint (rd32 d 0)
     in if int LOGSIZE < n then Inl (Undef ''lh.block'')
        else brelse i (s1\<lparr>lh_n := n,
               lh_block := map (\<lambda>k. unat (rd32 d (4 + 4 * k))) [0..<nat n] @ drop (nat n) (lh_block s1)\<rparr>))"

definition head_data :: "int \<Rightarrow> nat list \<Rightarrow> bytes \<Rightarrow> bytes" where
  "head_data n blocks d =
     fold (\<lambda>k f. wr32 f (4 + 4 * k) (of_nat (blocks ! k))) [0..<nat n] (wr32 d 0 (of_int n))"

definition write_head :: "'a lstate_scheme \<Rightarrow> 'a lstate_scheme res" where
  "write_head s =
     rbind (bread (lg_dev s) (lg_start s) s) (\<lambda>(i, s1).
     rbind (bwrite i (set_data i (head_data (lh_n s1) (lh_block s1) (b_data (bufs s1 ! i))) s1)) (\<lambda>s2.
     brelse i s2))"

definition recover_from_log :: "'a lstate_scheme \<Rightarrow> 'a lstate_scheme res" where
  "recover_from_log s =
     rbind (read_head s) (\<lambda>s1.
     rbind (install_trans s1) (\<lambda>s2.
     write_head (s2\<lparr>lh_n := 0\<rparr>)))"

definition initlog :: "uint \<Rightarrow> 'a lstate_scheme \<Rightarrow> 'a lstate_scheme res" where
  "initlog dev s =
     rbind (readsb dev s) (\<lambda>(sb, s1).
     recover_from_log (s1\<lparr>lg_start := sb_logstart sb, lg_size := sb_nlog sb, lg_dev := dev\<rparr>))"

definition begin_op :: "'a lstate_scheme \<Rightarrow> 'a lstate_scheme res" where
  "begin_op s =
     (if committing s then Inl (Blocked ''log'')
      else if lh_n s + (outstanding s + 1) * int MAXOPBLOCKS > int LOGSIZE then Inl (Blocked ''log'')
      else Inr (s\<lparr>outstanding := outstanding s + 1\<rparr>))"

definition write_log_one :: "nat \<Rightarrow> 'a lstate_scheme \<Rightarrow> 'a lstate_scheme res" where
  "write_log_one tail s =
     rbind (bread (lg_dev s) (lg_start s + tail + 1) s) (\<lambda>(dst, s1).
     rbind (lh_nth tail s1) (\<lambda>home.
     rbind (bread (lg_dev s1) home s1) (\<lambda>(src, s2).
     rbind (bwrite dst (set_data dst (b_data (bufs s2 ! src)) s2)) (\<lambda>s3.
     rbind (brelse src s3) (\<lambda>s4.
     brelse dst s4)))))"

definition write_log :: "'a lstate_scheme \<Rightarrow> 'a lstate_scheme res" where
  "write_log s = rfold write_log_one [0..<nat (lh_n s)] s"

definition commit :: "'a lstate_scheme \<Rightarrow> 'a lstate_scheme res" where
  "commit s =
     (if lh_n s > 0
      then rbind (write_log s) (\<lambda>s1.
           rbind (write_head s1) (\<lambda>s2.
           rbind (install_trans s2) (\<lambda>s3.
           write_head (s3\<lparr>lh_n := 0\<rparr>))))
      else Inr s)"

definition end_op :: "'a lstate_scheme \<Rightarrow> 'a lstate_scheme res" where
  "end_op s =
     (let s1 = s\<lparr>outstanding := outstanding s - 1\<rparr>
      in if committing s1 then Inl (Panic ''log.committing'')
         else if outstanding s1 = 0
         then rbind (commit (s1\<lparr>committing := True\<rparr>)) (\<lambda>s2.
              Inr (wakeup ChanLog (s2\<lparr>committing := False\<rparr>)))
         else Inr (wakeup ChanLog s1))"

text \<open>The scan of \<^verbatim>\<open>log_write\<close> for the block among those already logged (log absorption).\<close>

definition absorb_index :: "nat \<Rightarrow> nat list \<Rightarrow> nat \<Rightarrow> nat" where
  "absorb_index b blocks n = (case find (\<lambda>i. blocks ! i = b) [0..<n] of Some i \<Rightarrow> i | None \<Rightarrow> n)"

definition log_write :: "nat \<Rightarrow> 'a lstate_scheme \<Rightarrow> 'a lstate_scheme res" where
  "log_write b s =
     (if lh_n s \<ge> int LOGSIZE \<or> lh_n s \<ge> int (lg_size s) - 1 then Inl (Panic ''too big a transaction'')
      else if outstanding s < 1 then Inl (Panic ''log_write outside of trans'')
      else let n = nat (lh_n s); blk = b_blockno (bufs s ! b); i = absorb_index blk (lh_block s) n
           in Inr (upd_buf b (\<lambda>x. x\<lparr>b_dirty := True\<rparr>)
                    (s\<lparr>lh_block := (lh_block s)[i := blk],
                       lh_n := (if i = n then lh_n s + 1 else lh_n s)\<rparr>)))"

section \<open>Block writes\<close>

definition apply_writes :: "(nat \<times> bytes) list \<Rightarrow> (nat \<Rightarrow> bytes) \<Rightarrow> nat \<Rightarrow> bytes" where
  "apply_writes ws d = fold (\<lambda>(b, x) d. d(b := x)) ws d"

lemma apply_writes_Nil [simp]: "apply_writes [] d = d"
  by (simp add: apply_writes_def)

lemma apply_writes_Cons [simp]: "apply_writes ((b, x) # ws) d = apply_writes ws (d(b := x))"
  by (simp add: apply_writes_def)

lemma apply_writes_append [simp]: "apply_writes (us @ vs) d = apply_writes vs (apply_writes us d)"
  by (simp add: apply_writes_def)

lemma apply_writes_other: "b \<notin> fst ` set ws \<Longrightarrow> apply_writes ws d b = d b"
  by (induction ws arbitrary: d) (auto simp: apply_writes_def)

lemma apply_writes_nth:
  assumes "distinct (map f [0..<n])" "k < n"
  shows "apply_writes (map (\<lambda>j. (f j, g j)) [0..<n]) d (f k) = g k"
  using assms
proof (induction n)
  case (Suc n)
  show ?case
  proof (cases "k = n")
    case True
    then show ?thesis by simp
  next
    case False
    with Suc.prems have "f n \<notin> f ` {0..<n}" "k \<in> {0..<n}" by auto
    then have "f k \<noteq> f n" by (metis imageI)
    with Suc False show ?thesis by simp
  qed
qed simp

section \<open>The log routines on a quiet cache\<close>

lemma brest_log:
  fixes s t :: "'a lstate_scheme"
  assumes "brest s t"
  shows "lg_start t = lg_start s" "lg_size t = lg_size s" "outstanding t = outstanding s" "committing t = committing s"
    "lg_dev t = lg_dev s" "lh_n t = lh_n s" "lh_block t = lh_block s" "lstate.more t = lstate.more s"
proof -
  have eq: "t = s\<lparr>procs := procs t, disk := disk t, bufs := bufs t, mru := mru t, wlog := wlog t\<rparr>"
    using assms unfolding brest_def by blast
  show "lg_start t = lg_start s" "lg_size t = lg_size s" "outstanding t = outstanding s" "committing t = committing s"
    "lg_dev t = lg_dev s" "lh_n t = lh_n s" "lh_block t = lh_block s" "lstate.more t = lstate.more s"
    by (subst eq, simp)+
qed

text \<open>The last three calls of both copy loops: write the copy, release the source, then the destination.\<close>

lemma copy_tail:
  assumes inv: "binv s" and h: "held_bufs s = {src, dst}" "src \<noteq> dst"
    and clean: "b_dirty (bufs s ! src) \<or> b_data (bufs s ! src) = disk s (b_blockno (bufs s ! src))"
  defines "c \<equiv> b_blockno (bufs s ! dst)" and "x \<equiv> b_data (bufs s ! src)"
  obtains t where "rbind (bwrite dst (set_data dst x s)) (\<lambda>s3. rbind (brelse src s3) (\<lambda>s4. brelse dst s4)) = Inr t"
    "binv t" "brest s t" "held_bufs t = {}" "view t = (view s)(c := x)" "disk t = (disk s)(c := x)"
    "wlog t = wlog s @ [(c, x)]" "dirty_blocks t = dirty_blocks s - {c}"
proof -
  have d: "dst \<in> held_bufs s" "src \<in> held_bufs s" using h by auto
  let ?s1 = "set_data dst x s"
  note sd = set_data_spec [OF inv d(1), where f = x] set_data_block [OF inv d(1), where f = x]
  have d1: "dst \<in> held_bufs ?s1" using d sd(2) by simp
  obtain s2 where s2: "bwrite dst ?s1 = Inr s2" "binv s2" "brest ?s1 s2" "disk s2 = (disk s)(c := x)"
    "wlog s2 = wlog s @ [(c, x)]" "view s2 = view ?s1" "held_bufs s2 = {src, dst}"
    "dirty_blocks s2 = dirty_blocks s - {c}"
    "bufs s2 ! src = bufs s ! src" "\<not> b_dirty (bufs s2 ! dst)" "b_data (bufs s2 ! dst) = x" "b_blockno (bufs s2 ! dst) = c"
    by (rule bwrite_block [OF sd(1) d1]) (use h sd(2,5-12) in \<open>simp add: c_def\<close>)
  have bs: "b_blockno (bufs s ! src) \<noteq> c"
    using heldD [OF inv d(1)] heldD [OF inv d(2)] binv_distinct [OF inv, of src dst] h(2) by (auto simp: c_def)
  obtain s3 where s3: "brelse src s2 = Inr s3" "binv s3" "brest s2 s3" "disk s3 = disk s2" "wlog s3 = wlog s2"
    "view s3 = view s2" "held_bufs s3 = {dst}" "dirty_blocks s3 = dirty_blocks s2" "bufs s3 ! dst = bufs s2 ! dst"
    by (rule brelse_block [OF s2(2)]) (use s2 h(2) clean bs in auto)
  obtain s4 where s4: "brelse dst s3 = Inr s4" "binv s4" "brest s3 s4" "disk s4 = disk s3" "wlog s4 = wlog s3"
    "view s4 = view s3" "held_bufs s4 = {}" "dirty_blocks s4 = dirty_blocks s3"
    by (rule brelse_block [OF s3(2)]) (use s2 s3 in auto)
  have "brest s s4" using sd(15) s2(3) s3(3) s4(3) by (meson brest_trans)
  moreover have "view s4 = (view s)(c := x)" using s4(6) s3(6) s2(6) sd(4) by (simp add: c_def)
  ultimately show thesis using s2 s3 s4 by (intro that [of s4]) simp_all
qed

text \<open>Reading two blocks of which the second is pinned or leaves room in the cache.\<close>

lemma two_reads:
  assumes inv: "binv s" and h: "held_bufs s = {}" and b: "b < disksize s" "c < disksize s" "b \<noteq> c"
    and room: "card (dirty_blocks s) < NBUF" "c \<in> dirty_blocks s \<or> card (insert b (dirty_blocks s)) < NBUF"
  obtains i j s1 t where "bread 1 b s = Inr (i, s1)" "brest s s1" "bread 1 c s1 = Inr (j, t)" "binv t" "brest s t"
    "held_bufs t = {i, j}" "i \<noteq> j" "b_blockno (bufs t ! i) = b" "b_blockno (bufs t ! j) = c"
    "b_data (bufs t ! i) = view s b" "b_data (bufs t ! j) = view s c" "view t = view s" "disk t = disk s"
    "wlog t = wlog s" "dirty_blocks t = dirty_blocks s"
    "b_dirty (bufs t ! i) \<or> b_data (bufs t ! i) = disk t b" "b_dirty (bufs t ! j) \<or> b_data (bufs t ! j) = disk t c"
proof -
  have hb: "held_blocks s = {}" using h by (simp add: held_blocks_def)
  obtain i s1 where s1: "bread 1 b s = Inr (i, s1)" "binv s1" "brest s s1" "disk s1 = disk s" "wlog s1 = wlog s"
    "view s1 = view s" "held_bufs s1 = {i}" "b_blockno (bufs s1 ! i) = b" "b_data (bufs s1 ! i) = view s b"
    "dirty_blocks s1 = dirty_blocks s" "b_dirty (bufs s1 ! i) \<longleftrightarrow> b \<in> dirty_blocks s" "held_blocks s1 = {b}"
    by (rule bread_block [OF inv b(1)]) (use hb h room(1) in auto)
  have ds: "disksize s1 = disksize s" using brest_simps [OF s1(3)] by simp
  obtain j t where t: "bread 1 c s1 = Inr (j, t)" "binv t" "brest s1 t" "disk t = disk s1" "wlog t = wlog s1"
    "view t = view s1" "held_bufs t = {j, i}" "j \<noteq> i" "b_blockno (bufs t ! j) = c" "b_data (bufs t ! j) = view s1 c"
    "dirty_blocks t = dirty_blocks s1" "b_dirty (bufs t ! j) \<longleftrightarrow> c \<in> dirty_blocks s1" "bufs t ! i = bufs s1 ! i"
    by (rule bread_block [OF s1(2)]) (use s1 b ds room(2) in auto)
  have v: "b \<notin> dirty_blocks s \<Longrightarrow> view s b = disk s b" "c \<notin> dirty_blocks s \<Longrightarrow> view s c = disk s c"
    using view_clean [OF inv] hb by auto
  show thesis
    by (rule that [OF s1(1,3) t(1,2) brest_trans [OF s1(3) t(3)]]) (use s1 t v in auto)
qed

text \<open>The log area and the blocks logged: the in-memory header lists the distinct home blocks \<open>hs\<close>.\<close>

definition outside :: "nat \<Rightarrow> nat \<Rightarrow> bool" where
  "outside st b \<longleftrightarrow> b < st \<or> st + LOGSIZE < b"

definition homes_ok :: "nat \<Rightarrow> nat \<Rightarrow> nat list \<Rightarrow> bool" where
  "homes_ok st ds hs \<longleftrightarrow> length hs \<le> LOGSIZE \<and> distinct hs \<and> (\<forall>b \<in> set hs. b < ds \<and> outside st b) \<and>
     st + LOGSIZE < ds \<and> ds \<le> 2 ^ 32"

definition log_ok :: "'a lstate_scheme \<Rightarrow> nat list \<Rightarrow> bool" where
  "log_ok s hs \<longleftrightarrow> binv s \<and> held_bufs s = {} \<and> lg_dev s = 1 \<and> length (lh_block s) = LOGSIZE \<and>
     lh_n s = int (length hs) \<and> take (length hs) (lh_block s) = hs \<and> homes_ok (lg_start s) (disksize s) hs"

lemma log_ok_nth:
  assumes "log_ok s hs" "k < length hs"
  shows "lh_nth k s = Inr (hs ! k)" "hs ! k < disksize s" "outside (lg_start s) (hs ! k)"
    "lg_start s + k + 1 < disksize s" "hs ! k \<noteq> lg_start s + k + 1"
proof -
  have "hs ! k \<in> set hs" using assms(2) by simp
  then show o: "hs ! k < disksize s" "outside (lg_start s) (hs ! k)"
    using assms(1) by (auto simp: log_ok_def homes_ok_def)
  have k: "k < LOGSIZE" "length hs \<le> length (lh_block s)" using assms by (auto simp: log_ok_def homes_ok_def)
  moreover have "lh_block s ! k = hs ! k"
    using assms nth_take [of k "length hs" "lh_block s"] by (simp add: log_ok_def)
  ultimately show "lh_nth k s = Inr (hs ! k)" "lg_start s + k + 1 < disksize s"
    using assms by (auto simp: log_ok_def homes_ok_def lh_nth_def)
  show "hs ! k \<noteq> lg_start s + k + 1" using o(2) k(1) by (auto simp: outside_def)
qed

lemma log_ok_rest: "log_ok s hs \<Longrightarrow> brest s t \<Longrightarrow> binv t \<Longrightarrow> held_bufs t = {} \<Longrightarrow> log_ok t hs"
  using brest_log [of s t] brest_simps [of s t] by (simp add: log_ok_def)

lemma write_log_one_spec:
  assumes ok: "log_ok s hs" and k: "k < length hs"
    and room: "card (dirty_blocks s) < NBUF" "hs ! k \<in> dirty_blocks s" "lg_start s + k + 1 \<notin> dirty_blocks s"
  obtains t where "write_log_one k s = Inr t" "log_ok t hs" "brest s t"
    "view t = (view s)(lg_start s + k + 1 := view s (hs ! k))" "disk t = (disk s)(lg_start s + k + 1 := view s (hs ! k))"
    "wlog t = wlog s @ [(lg_start s + k + 1, view s (hs ! k))]" "dirty_blocks t = dirty_blocks s"
proof -
  note n = log_ok_nth [OF ok k]
  have inv: "binv s" "held_bufs s = {}" "lg_dev s = 1" using ok by (auto simp: log_ok_def)
  obtain i j s1 u where u: "bread 1 (lg_start s + k + 1) s = Inr (i, s1)" "brest s s1" "bread 1 (hs ! k) s1 = Inr (j, u)"
    "binv u" "brest s u" "held_bufs u = {i, j}" "i \<noteq> j" "b_blockno (bufs u ! i) = lg_start s + k + 1"
    "b_blockno (bufs u ! j) = hs ! k" "b_data (bufs u ! i) = view s (lg_start s + k + 1)" "b_data (bufs u ! j) = view s (hs ! k)"
    "view u = view s" "disk u = disk s" "wlog u = wlog s" "dirty_blocks u = dirty_blocks s"
    "b_dirty (bufs u ! i) \<or> b_data (bufs u ! i) = disk u (lg_start s + k + 1)"
    "b_dirty (bufs u ! j) \<or> b_data (bufs u ! j) = disk u (hs ! k)"
    by (rule two_reads [OF inv(1,2) n(4,2) n(5) [symmetric] room(1)]) (use room(2) in auto)
  have hb: "held_bufs u = {j, i}" using u(6) by auto
  obtain t where t: "rbind (bwrite i (set_data i (b_data (bufs u ! j)) u)) (\<lambda>s3. rbind (brelse j s3) (\<lambda>s4. brelse i s4)) = Inr t"
    "binv t" "brest u t" "held_bufs t = {}" "view t = (view s)(lg_start s + k + 1 := view s (hs ! k))"
    "disk t = (disk s)(lg_start s + k + 1 := view s (hs ! k))"
    "wlog t = wlog s @ [(lg_start s + k + 1, view s (hs ! k))]" "dirty_blocks t = dirty_blocks s - {lg_start s + k + 1}"
    by (rule copy_tail [OF u(4) hb]) (use u in auto)
  have l1: "lh_nth k s1 = lh_nth k s" "lg_dev s1 = 1" using brest_log [OF u(2)] inv(3) by (simp_all add: lh_nth_def)
  have "write_log_one k s = Inr t"
    using u(1,3) t(1) n(1) l1 by (simp add: write_log_one_def inv(3))
  moreover have "brest s t" using u(5) t(3) by (rule brest_trans)
  moreover have "log_ok t hs" using log_ok_rest [OF ok _ t(2,4)] u(5) t(3) brest_trans by blast
  ultimately show thesis using t room(3) by (intro that [of t]) simp_all
qed

lemma install_one_spec:
  assumes ok: "log_ok s hs" and k: "k < length hs"
    and room: "card (dirty_blocks s) < NBUF" "hs ! k \<in> dirty_blocks s \<or> card (insert (lg_start s + k + 1) (dirty_blocks s)) < NBUF"
  obtains t where "install_one k s = Inr t" "log_ok t hs" "brest s t"
    "view t = (view s)(hs ! k := view s (lg_start s + k + 1))" "disk t = (disk s)(hs ! k := view s (lg_start s + k + 1))"
    "wlog t = wlog s @ [(hs ! k, view s (lg_start s + k + 1))]" "dirty_blocks t = dirty_blocks s - {hs ! k}"
proof -
  note n = log_ok_nth [OF ok k]
  have inv: "binv s" "held_bufs s = {}" "lg_dev s = 1" using ok by (auto simp: log_ok_def)
  obtain i j s1 u where u: "bread 1 (lg_start s + k + 1) s = Inr (i, s1)" "brest s s1" "bread 1 (hs ! k) s1 = Inr (j, u)"
    "binv u" "brest s u" "held_bufs u = {i, j}" "i \<noteq> j" "b_blockno (bufs u ! i) = lg_start s + k + 1"
    "b_blockno (bufs u ! j) = hs ! k" "b_data (bufs u ! i) = view s (lg_start s + k + 1)" "b_data (bufs u ! j) = view s (hs ! k)"
    "view u = view s" "disk u = disk s" "wlog u = wlog s" "dirty_blocks u = dirty_blocks s"
    "b_dirty (bufs u ! i) \<or> b_data (bufs u ! i) = disk u (lg_start s + k + 1)"
    "b_dirty (bufs u ! j) \<or> b_data (bufs u ! j) = disk u (hs ! k)"
    by (rule two_reads [OF inv(1,2) n(4,2) n(5) [symmetric] room])
  obtain t where t: "rbind (bwrite j (set_data j (b_data (bufs u ! i)) u)) (\<lambda>s3. rbind (brelse i s3) (\<lambda>s4. brelse j s4)) = Inr t"
    "binv t" "brest u t" "held_bufs t = {}" "view t = (view s)(hs ! k := view s (lg_start s + k + 1))"
    "disk t = (disk s)(hs ! k := view s (lg_start s + k + 1))"
    "wlog t = wlog s @ [(hs ! k, view s (lg_start s + k + 1))]" "dirty_blocks t = dirty_blocks s - {hs ! k}"
    by (rule copy_tail [OF u(4,6,7)]) (use u in auto)
  have l1: "lh_nth k s1 = lh_nth k s" "lg_dev s1 = 1" using brest_log [OF u(2)] inv(3) by (simp_all add: lh_nth_def)
  have "install_one k s = Inr t"
    using u(1,3) t(1) n(1) l1 by (simp add: install_one_def inv(3))
  moreover have "brest s t" using u(5) t(3) by (rule brest_trans)
  moreover have "log_ok t hs" using log_ok_rest [OF ok _ t(2,4)] u(5) t(3) brest_trans by blast
  ultimately show thesis using t by (intro that [of t]) simp_all
qed

definition log_writes :: "nat \<Rightarrow> (nat \<Rightarrow> bytes) \<Rightarrow> nat list \<Rightarrow> nat \<Rightarrow> (nat \<times> bytes) list" where
  "log_writes st v hs n = map (\<lambda>k. (st + k + 1, v (hs ! k))) [0..<n]"

definition home_writes :: "nat \<Rightarrow> (nat \<Rightarrow> bytes) \<Rightarrow> nat list \<Rightarrow> nat \<Rightarrow> (nat \<times> bytes) list" where
  "home_writes st v hs n = map (\<lambda>k. (hs ! k, v (st + k + 1))) [0..<n]"

lemma log_writes_Suc: "log_writes st v hs (Suc n) = log_writes st v hs n @ [(st + n + 1, v (hs ! n))]"
  by (simp add: log_writes_def)

lemma home_writes_Suc: "home_writes st v hs (Suc n) = home_writes st v hs n @ [(hs ! n, v (st + n + 1))]"
  by (simp add: home_writes_def)

lemma log_writes_other:
  "n \<le> LOGSIZE \<Longrightarrow> outside st b \<or> b = st \<Longrightarrow> apply_writes (log_writes st v hs n) d b = d b"
  by (rule apply_writes_other) (auto simp: log_writes_def outside_def)

lemma log_writes_nth: "k < n \<Longrightarrow> apply_writes (log_writes st v hs n) d (st + k + 1) = v (hs ! k)"
  unfolding log_writes_def by (rule apply_writes_nth) (auto simp: distinct_map inj_on_def)

lemma home_writes_other:
  "n \<le> length hs \<Longrightarrow> b \<notin> set hs \<Longrightarrow> apply_writes (home_writes st v hs n) d b = d b"
  by (rule apply_writes_other) (auto simp: home_writes_def)

lemma home_writes_nth:
  "k < n \<Longrightarrow> n \<le> length hs \<Longrightarrow> distinct hs \<Longrightarrow> apply_writes (home_writes st v hs n) d (hs ! k) = v (st + k + 1)"
  unfolding home_writes_def by (rule apply_writes_nth) (auto simp: distinct_map inj_on_def nth_eq_iff_index_eq)

lemma write_log_spec:
  assumes ok: "log_ok s hs" and dirty: "dirty_blocks s = set hs" and n: "length hs < NBUF"
  defines "L \<equiv> log_writes (lg_start s) (view s) hs (length hs)"
  shows "\<exists>t. write_log s = Inr t \<and> log_ok t hs \<and> brest s t \<and> dirty_blocks t = set hs \<and> wlog t = wlog s @ L \<and>
    disk t = apply_writes L (disk s) \<and> view t = apply_writes L (view s)"
proof -
  define st where "st = lg_start s"
  define P where "P k t \<longleftrightarrow> log_ok t hs \<and> brest s t \<and> dirty_blocks t = set hs \<and>
      wlog t = wlog s @ log_writes st (view s) hs k \<and> disk t = apply_writes (log_writes st (view s) hs k) (disk s) \<and>
      view t = apply_writes (log_writes st (view s) hs k) (view s)" for k t
  have step: "\<exists>u. write_log_one k t = Inr u \<and> P (Suc k) u" if k: "k < length hs" and P: "P k t" for k t
  proof -
    have t: "log_ok t hs" "brest s t" "dirty_blocks t = set hs" "lg_start t = st"
      using P brest_log [of s t] by (auto simp: P_def st_def)
    have hk: "k \<le> LOGSIZE" "outside st (hs ! k)"
      using log_ok_nth [OF ok k] k ok by (auto simp: st_def log_ok_def homes_ok_def)
    have v: "view t (hs ! k) = view s (hs ! k)" using P log_writes_other [OF hk(1)] hk(2) by (simp add: P_def)
    have "lg_start t + k + 1 \<notin> dirty_blocks t"
      using t ok k by (auto simp: log_ok_def homes_ok_def outside_def st_def)
    moreover have "card (dirty_blocks t) < NBUF" using t(3) n card_length [of hs] by simp
    ultimately obtain u where u: "write_log_one k t = Inr u" "log_ok u hs" "brest t u"
      "view u = (view t)(st + k + 1 := view s (hs ! k))" "disk u = (disk t)(st + k + 1 := view s (hs ! k))"
      "wlog u = wlog t @ [(st + k + 1, view s (hs ! k))]" "dirty_blocks u = dirty_blocks t"
      using write_log_one_spec [OF t(1) k] t k v by (metis nth_mem)
    have "brest s u" using t(2) u(3) by (rule brest_trans)
    with u t P show ?thesis by (auto simp: P_def log_writes_Suc)
  qed
  have "P 0 s" using ok dirty by (simp add: P_def log_writes_def)
  then have "\<exists>t. rfold write_log_one [0..<length hs] s = Inr t \<and> P (length hs) t"
    by (rule rfold_inv) (rule step)
  then obtain t where "rfold write_log_one [0..<length hs] s = Inr t" "P (length hs) t" by blast
  moreover have "nat (lh_n s) = length hs" using ok by (simp add: log_ok_def)
  ultimately show ?thesis unfolding write_log_def P_def L_def st_def by metis
qed

lemma install_spec:
  assumes ok: "log_ok s hs" and dirty: "dirty_blocks s = set hs \<and> length hs < NBUF \<or> dirty_blocks s = {}"
  defines "I \<equiv> home_writes (lg_start s) (view s) hs (length hs)"
  shows "\<exists>t. install_trans s = Inr t \<and> log_ok t hs \<and> brest s t \<and> dirty_blocks t = {} \<and> wlog t = wlog s @ I \<and>
    disk t = apply_writes I (disk s) \<and> view t = apply_writes I (view s)"
proof -
  define st where "st = lg_start s"
  define P where "P k t \<longleftrightarrow> log_ok t hs \<and> brest s t \<and> dirty_blocks t = dirty_blocks s - set (take k hs) \<and>
      wlog t = wlog s @ home_writes st (view s) hs k \<and> disk t = apply_writes (home_writes st (view s) hs k) (disk s) \<and>
      view t = apply_writes (home_writes st (view s) hs k) (view s)" for k t
  have d: "distinct hs" "length hs \<le> LOGSIZE" using ok by (auto simp: log_ok_def homes_ok_def)
  have step: "\<exists>u. install_one k t = Inr u \<and> P (Suc k) u" if k: "k < length hs" and P: "P k t" for k t
  proof -
    have t: "log_ok t hs" "brest s t" "dirty_blocks t = dirty_blocks s - set (take k hs)" "lg_start t = st"
      using P brest_log [of s t] by (auto simp: P_def st_def)
    have "st + k + 1 \<notin> set hs"
      using ok k d(2) by (auto simp: log_ok_def homes_ok_def outside_def st_def)
    then have v: "view t (st + k + 1) = view s (st + k + 1)"
      using P k home_writes_other [of k hs "st + k + 1"] by (simp add: P_def)
    have nin: "hs ! k \<notin> set (take k hs)"
      using d(1) k by (auto simp: in_set_conv_nth nth_eq_iff_index_eq)
    have room: "card (dirty_blocks t) < NBUF" "hs ! k \<in> dirty_blocks t \<or> card (insert (st + k + 1) (dirty_blocks t)) < NBUF"
    proof -
      have "card (set hs - set (take k hs)) \<le> card (set hs)" by (simp add: card_mono)
      then show "card (dirty_blocks t) < NBUF" using dirty t(3) card_length [of hs] by auto
      show "hs ! k \<in> dirty_blocks t \<or> card (insert (st + k + 1) (dirty_blocks t)) < NBUF"
        using dirty t(3) nin k by auto
    qed
    obtain u where u: "install_one k t = Inr u" "log_ok u hs" "brest t u"
      "view u = (view t)(hs ! k := view s (st + k + 1))" "disk u = (disk t)(hs ! k := view s (st + k + 1))"
      "wlog u = wlog t @ [(hs ! k, view s (st + k + 1))]" "dirty_blocks u = dirty_blocks t - {hs ! k}"
      using install_one_spec [OF t(1) k] room t(4) v by metis
    have "brest s u" using t(2) u(3) by (rule brest_trans)
    moreover have "dirty_blocks u = dirty_blocks s - set (take (Suc k) hs)"
      using u(7) t(3) k by (auto simp: take_Suc_conv_app_nth)
    ultimately show ?thesis using u P by (auto simp: P_def home_writes_Suc)
  qed
  have "P 0 s" using ok by (simp add: P_def home_writes_def)
  then have "\<exists>t. rfold install_one [0..<length hs] s = Inr t \<and> P (length hs) t"
    by (rule rfold_inv) (rule step)
  then obtain t where "rfold install_one [0..<length hs] s = Inr t" "P (length hs) t" by blast
  moreover have "nat (lh_n s) = length hs" using ok by (simp add: log_ok_def)
  moreover have "dirty_blocks s - set (take (length hs) hs) = {}" using dirty by auto
  ultimately show ?thesis unfolding install_trans_def P_def I_def st_def by metis
qed

section \<open>The header block\<close>

lemma head_data_fold:
  "rd32 (fold (\<lambda>k f. wr32 f (4 + 4 * k) (g k)) [0..<n] d) 0 = rd32 d 0"
  "k < n \<Longrightarrow> rd32 (fold (\<lambda>k f. wr32 f (4 + 4 * k) (g k)) [0..<n] d) (4 + 4 * k) = g k"
proof (induction n)
  case (Suc n)
  { case 1
    then show ?case using Suc.IH(1) by (simp add: rd32_wr32_other)
  next
    case 2
    show ?case
    proof (cases "k = n")
      case False
      with 2 have "4 + 4 * k + 4 \<le> 4 + 4 * n" by simp
      then show ?thesis using Suc.IH(2) 2 False by (simp add: rd32_wr32_other)
    qed simp }
qed simp_all

lemma head_data_n: "rd32 (head_data n bs d) 0 = of_int n"
  by (simp add: head_data_def head_data_fold(1))

lemma head_data_block: "k < nat n \<Longrightarrow> rd32 (head_data n bs d) (4 + 4 * k) = of_nat (bs ! k)"
  by (simp add: head_data_def head_data_fold(2))

text \<open>\<open>head_is d hs\<close>: the header block \<open>d\<close> records a committed transaction for the blocks \<open>hs\<close>.\<close>

definition head_is :: "bytes \<Rightarrow> nat list \<Rightarrow> bool" where
  "head_is d hs \<longleftrightarrow> sint (rd32 d 0) = int (length hs) \<and> (\<forall>k < length hs. unat (rd32 d (4 + 4 * k)) = hs ! k)"

lemma head_is_0: "rd32 d 0 = 0 \<Longrightarrow> head_is d []"
  by (simp add: head_is_def)

lemma head_data_is:
  assumes "log_ok s hs"
  shows "head_is (head_data (lh_n s) (lh_block s) d) hs"
proof -
  have n: "lh_n s = int (length hs)" "length hs \<le> LOGSIZE" using assms by (auto simp: log_ok_def homes_ok_def)
  have "sint (of_int (int (length hs)) :: uint) = int (length hs)"
    using n(2) by (simp add: signed_of_nat signed_take_bit_int_eq_self_iff)
  moreover have "unat (rd32 (head_data (lh_n s) (lh_block s) d) (4 + 4 * k)) = hs ! k" if k: "k < length hs" for k
  proof -
    have "hs ! k < 2 ^ 32" using log_ok_nth(2) [OF assms k] assms by (simp add: log_ok_def homes_ok_def)
    moreover have "lh_block s ! k = hs ! k"
      using assms nth_take [of k "length hs" "lh_block s"] k by (simp add: log_ok_def)
    ultimately show ?thesis using k n(1) by (simp add: head_data_block unat_of_nat)
  qed
  ultimately show ?thesis by (simp add: head_is_def head_data_n n)
qed

text \<open>One block read, changed and written through.\<close>

lemma rewrite_block:
  assumes inv: "binv s" and h: "held_bufs s = {}" and b: "b < disksize s" and room: "card (dirty_blocks s) < NBUF"
  obtains i s1 t where "bread 1 b s = Inr (i, s1)" "brest s s1" "b_data (bufs s1 ! i) = view s b"
    "rbind (bwrite i (set_data i f s1)) (\<lambda>s2. brelse i s2) = Inr t" "binv t" "brest s t" "held_bufs t = {}"
    "view t = (view s)(b := f)" "disk t = (disk s)(b := f)" "wlog t = wlog s @ [(b, f)]" "dirty_blocks t = dirty_blocks s - {b}"
proof -
  have hb: "held_blocks s = {}" using h by (simp add: held_blocks_def)
  obtain i s1 where s1: "bread 1 b s = Inr (i, s1)" "binv s1" "brest s s1" "disk s1 = disk s" "wlog s1 = wlog s"
    "view s1 = view s" "held_bufs s1 = {i}" "b_blockno (bufs s1 ! i) = b" "b_data (bufs s1 ! i) = view s b"
    "dirty_blocks s1 = dirty_blocks s"
    by (rule bread_block [OF inv b]) (use hb h room in auto)
  have i: "i \<in> held_bufs s1" using s1(7) by simp
  note sd = set_data_spec [OF s1(2) i, where f = f] set_data_block [OF s1(2) i, where f = f]
  have i1: "i \<in> held_bufs (set_data i f s1)" using i sd(2) by simp
  obtain s2 where s2: "bwrite i (set_data i f s1) = Inr s2" "binv s2" "brest (set_data i f s1) s2" "disk s2 = (disk s)(b := f)"
    "wlog s2 = wlog s @ [(b, f)]" "view s2 = view (set_data i f s1)" "held_bufs s2 = {i}" "dirty_blocks s2 = dirty_blocks s - {b}"
    "b_data (bufs s2 ! i) = f" "b_blockno (bufs s2 ! i) = b"
    by (rule bwrite_block [OF sd(1) i1]) (use s1 sd in simp)
  obtain t where t: "brelse i s2 = Inr t" "binv t" "brest s2 t" "disk t = disk s2" "wlog t = wlog s2" "view t = view s2"
    "held_bufs t = {}" "dirty_blocks t = dirty_blocks s2"
    by (rule brelse_block [OF s2(2)]) (use s2 in auto)
  have "brest s t" using s1(3) sd(15) s2(3) t(3) by (meson brest_trans)
  moreover have "view t = (view s)(b := f)" using t(6) s2(6) sd(4) s1 by simp
  ultimately show thesis using s1 s2 t by (intro that [of i s1 t]) simp_all
qed

lemma write_head_spec:
  assumes ok: "log_ok s hs" and room: "card (dirty_blocks s) < NBUF" "lg_start s \<notin> dirty_blocks s"
  defines "h \<equiv> head_data (lh_n s) (lh_block s) (view s (lg_start s))"
  shows "\<exists>t. write_head s = Inr t \<and> log_ok t hs \<and> brest s t \<and> dirty_blocks t = dirty_blocks s \<and>
    wlog t = wlog s @ [(lg_start s, h)] \<and> disk t = (disk s)(lg_start s := h) \<and> view t = (view s)(lg_start s := h)"
proof -
  have inv: "binv s" "held_bufs s = {}" "lg_dev s = 1" "lg_start s < disksize s" using ok by (auto simp: log_ok_def homes_ok_def)
  obtain i s1 t where t: "bread 1 (lg_start s) s = Inr (i, s1)" "brest s s1" "b_data (bufs s1 ! i) = view s (lg_start s)"
    "rbind (bwrite i (set_data i h s1)) (\<lambda>s2. brelse i s2) = Inr t" "binv t" "brest s t" "held_bufs t = {}"
    "view t = (view s)(lg_start s := h)" "disk t = (disk s)(lg_start s := h)" "wlog t = wlog s @ [(lg_start s, h)]"
    "dirty_blocks t = dirty_blocks s - {lg_start s}"
    by (rule rewrite_block [OF inv(1,2,4) room(1)])
  have "write_head s = Inr t"
    using t(1,3,4) inv(3) brest_log [OF t(2)] by (simp add: write_head_def h_def)
  with t room(2) log_ok_rest [OF ok t(6,5,7)] show ?thesis by auto
qed

lemma read_head_spec:
  assumes inv: "binv s" "held_bufs s = {}" "dirty_blocks s = {}" "lg_dev s = 1" "length (lh_block s) = LOGSIZE"
    and hs: "homes_ok (lg_start s) (disksize s) hs" "head_is (disk s (lg_start s)) hs"
  shows "\<exists>t. read_head s = Inr t \<and> log_ok t hs \<and> dirty_blocks t = {} \<and> disk t = disk s \<and> view t = disk s \<and> wlog t = wlog s \<and>
    lg_start t = lg_start s"
proof -
  have hb: "held_blocks s = {}" using inv(2) by (simp add: held_blocks_def)
  have v: "view s = disk s" using view_clean [OF inv(1)] inv(3) hb by auto
  have b: "lg_start s < disksize s" using hs(1) by (simp add: homes_ok_def)
  obtain i s1 where s1: "bread 1 (lg_start s) s = Inr (i, s1)" "binv s1" "brest s s1" "disk s1 = disk s" "wlog s1 = wlog s"
    "view s1 = view s" "held_bufs s1 = {i}" "b_data (bufs s1 ! i) = view s (lg_start s)" "b_blockno (bufs s1 ! i) = lg_start s"
    "dirty_blocks s1 = {}"
    by (rule bread_block [OF inv(1) b]) (use hb inv in auto)
  define d where "d = disk s (lg_start s)"
  define s2 where "s2 = s1\<lparr>lh_n := sint (rd32 d 0),
    lh_block := map (\<lambda>k. unat (rd32 d (4 + 4 * k))) [0..<nat (sint (rd32 d 0))] @ drop (nat (sint (rd32 d 0))) (lh_block s1)\<rparr>"
  have same: "bufs s2 = bufs s1" "disk s2 = disk s1" "held_bufs s2 = held_bufs s1" "dirty_blocks s2 = dirty_blocks s1"
    "binv s2 = binv s1" "view s2 = view s1" "wlog s2 = wlog s1"
    by (simp_all add: s2_def held_bufs_def dirty_blocks_def binv_def cur_pid_def view_def cached_def fun_eq_iff cong: option.case_cong)
  have n: "sint (rd32 d 0) = int (length hs)" "length hs \<le> LOGSIZE" "\<And>k. k < length hs \<Longrightarrow> unat (rd32 d (4 + 4 * k)) = hs ! k"
    using hs by (auto simp: head_is_def homes_ok_def d_def)
  have blk: "map (\<lambda>k. unat (rd32 d (4 + 4 * k))) [0..<length hs] = hs" by (rule nth_equalityI) (use n(3) in auto)
  have lh: "lh_n s2 = int (length hs)" "lh_block s2 = hs @ drop (length hs) (lh_block s1)" by (simp_all add: s2_def n(1) blk)
  obtain t where t: "brelse i s2 = Inr t" "binv t" "brest s2 t" "disk t = disk s2" "wlog t = wlog s2" "view t = view s2"
    "held_bufs t = {}" "dirty_blocks t = dirty_blocks s2"
    by (rule brelse_block [of s2 i]) (use s1 same v in auto)
  have "read_head s = Inr t"
    using s1(1,8) t(1) n(1,2) inv(4) v by (simp add: read_head_def Let_def s2_def d_def)
  moreover have "lg_dev t = 1" "lg_start t = lg_start s" "disksize t = disksize s" "lh_n t = lh_n s2" "lh_block t = lh_block s2"
    using brest_log [OF t(3)] brest_log [OF s1(3)] brest_simps(9) [OF t(3)] brest_simps(9) [OF s1(3)] inv(4) by (simp_all add: s2_def)
  ultimately show ?thesis
    using t s1 same lh v hs(1) n(2) inv(5) brest_log(7) [OF s1(3)] by (simp add: log_ok_def)
qed

section \<open>Commit and recovery as sequences of block writes\<close>

lemma log_ok_dirty:
  "log_ok s hs \<Longrightarrow> dirty_blocks s = set hs \<Longrightarrow> length hs < NBUF \<Longrightarrow> card (dirty_blocks s) < NBUF \<and> lg_start s \<notin> dirty_blocks s"
  using card_length [of hs] by (auto simp: log_ok_def homes_ok_def outside_def)

lemma log_ok_clear:
  assumes "log_ok s hs"
  shows "log_ok (s\<lparr>lh_n := 0\<rparr>) []" "view (s\<lparr>lh_n := 0\<rparr>) = view s" "dirty_blocks (s\<lparr>lh_n := 0\<rparr>) = dirty_blocks s"
proof -
  have same: "held_bufs (s\<lparr>lh_n := 0\<rparr>) = held_bufs s" "binv (s\<lparr>lh_n := 0\<rparr>) = binv s"
    by (simp_all add: held_bufs_def binv_def cur_pid_def cong: option.case_cong)
  show "view (s\<lparr>lh_n := 0\<rparr>) = view s" "dirty_blocks (s\<lparr>lh_n := 0\<rparr>) = dirty_blocks s"
    by (simp_all add: view_def cached_def dirty_blocks_def fun_eq_iff cong: option.case_cong)
  show "log_ok (s\<lparr>lh_n := 0\<rparr>) []" using assms same by (simp add: log_ok_def homes_ok_def)
qed

lemma clear_head:
  assumes ok: "log_ok s hs" and dirty: "dirty_blocks s = {}"
  shows "\<exists>t h0. write_head (s\<lparr>lh_n := 0\<rparr>) = Inr t \<and> log_ok t [] \<and> brest (s\<lparr>lh_n := 0\<rparr>) t \<and> dirty_blocks t = {} \<and>
    wlog t = wlog s @ [(lg_start s, h0)] \<and> disk t = (disk s)(lg_start s := h0) \<and> rd32 h0 0 = 0"
  using write_head_spec [OF log_ok_clear(1) [OF ok]] dirty log_ok_clear [OF ok] head_data_n [of 0] by simp metis

lemma recover_spec:
  assumes inv: "binv s" "held_bufs s = {}" "dirty_blocks s = {}" "lg_dev s = 1" "length (lh_block s) = LOGSIZE"
    and hs: "homes_ok (lg_start s) (disksize s) hs" "head_is (disk s (lg_start s)) hs"
  shows "\<exists>t h0. recover_from_log s = Inr t \<and> log_ok t [] \<and> dirty_blocks t = {} \<and> rd32 h0 0 = 0 \<and>
    wlog t = wlog s @ home_writes (lg_start s) (disk s) hs (length hs) @ [(lg_start s, h0)] \<and>
    disk t = apply_writes (home_writes (lg_start s) (disk s) hs (length hs) @ [(lg_start s, h0)]) (disk s)"
proof -
  obtain s1 where s1: "read_head s = Inr s1" "log_ok s1 hs" "dirty_blocks s1 = {}" "disk s1 = disk s" "view s1 = disk s"
    "wlog s1 = wlog s" "lg_start s1 = lg_start s" using read_head_spec [OF inv hs] by blast
  obtain s2 where s2: "install_trans s1 = Inr s2" "log_ok s2 hs" "brest s1 s2" "dirty_blocks s2 = {}"
    "wlog s2 = wlog s @ home_writes (lg_start s) (disk s) hs (length hs)"
    "disk s2 = apply_writes (home_writes (lg_start s) (disk s) hs (length hs)) (disk s)"
    using install_spec [OF s1(2)] s1 by auto
  have st: "lg_start s2 = lg_start s" using brest_log(1) [OF s2(3)] s1(7) by simp
  obtain t h0 where "write_head (s2\<lparr>lh_n := 0\<rparr>) = Inr t" "log_ok t []" "dirty_blocks t = {}"
    "wlog t = wlog s2 @ [(lg_start s, h0)]" "disk t = (disk s2)(lg_start s := h0)" "rd32 h0 0 = 0"
    using clear_head [OF s2(2,4)] st by auto
  with s1 s2 show ?thesis by (intro exI [of _ t] exI [of _ h0]) (simp add: recover_from_log_def)
qed

lemma commit_spec:
  assumes ok: "log_ok s hs" and dirty: "dirty_blocks s = set hs" and n: "0 < length hs" "length hs < NBUF"
  defines "st \<equiv> lg_start s"
  defines "I \<equiv> map (\<lambda>k. (hs ! k, view s (hs ! k))) [0..<length hs]"
  shows "\<exists>t h1 h0. commit s = Inr t \<and> log_ok t [] \<and> dirty_blocks t = {} \<and> head_is h1 hs \<and> rd32 h0 0 = 0 \<and>
    wlog t = wlog s @ log_writes st (view s) hs (length hs) @ [(st, h1)] @ I @ [(st, h0)] \<and>
    disk t = apply_writes (log_writes st (view s) hs (length hs) @ [(st, h1)] @ I @ [(st, h0)]) (disk s)"
proof -
  let ?L = "log_writes st (view s) hs (length hs)"
  obtain s1 where s1: "write_log s = Inr s1" "log_ok s1 hs" "brest s s1" "dirty_blocks s1 = set hs" "wlog s1 = wlog s @ ?L"
    "disk s1 = apply_writes ?L (disk s)" "view s1 = apply_writes ?L (view s)"
    using write_log_spec [OF ok dirty n(2)] unfolding st_def by blast
  have st1: "lg_start s1 = st" using brest_log(1) [OF s1(3)] by (simp add: st_def)
  obtain s2 h1 where s2: "write_head s1 = Inr s2" "log_ok s2 hs" "brest s1 s2" "dirty_blocks s2 = set hs"
    "wlog s2 = wlog s1 @ [(st, h1)]" "disk s2 = (disk s1)(st := h1)" "view s2 = (view s1)(st := h1)" "head_is h1 hs"
    using write_head_spec [OF s1(2)] log_ok_dirty [OF s1(2,4) n(2)] s1(4) head_data_is [OF s1(2)] st1 by metis
  have st2: "lg_start s2 = st" using brest_log(1) [OF s2(3)] st1 by simp
  have I: "home_writes st (view s2) hs (length hs) = I"
    unfolding home_writes_def I_def
  proof (rule map_cong [OF refl])
    fix k assume "k \<in> set [0..<length hs]"
    then show "(hs ! k, view s2 (st + k + 1)) = (hs ! k, view s (hs ! k))"
      using s2(7) s1(7) log_writes_nth [of k "length hs" st] by simp
  qed
  obtain s3 where s3: "install_trans s2 = Inr s3" "log_ok s3 hs" "brest s2 s3" "dirty_blocks s3 = {}"
    "wlog s3 = wlog s2 @ I" "disk s3 = apply_writes I (disk s2)"
    using install_spec [OF s2(2)] s2(4) n(2) st2 I by auto
  have st3: "lg_start s3 = st" using brest_log(1) [OF s3(3)] st2 by simp
  obtain t h0 where "write_head (s3\<lparr>lh_n := 0\<rparr>) = Inr t" "log_ok t []" "dirty_blocks t = {}"
    "wlog t = wlog s3 @ [(st, h0)]" "disk t = (disk s3)(st := h0)" "rd32 h0 0 = 0"
    using clear_head [OF s3(2,4)] st3 by auto
  moreover have "lh_n s > 0" using ok n by (simp add: log_ok_def)
  ultimately have "commit s = Inr t \<and> log_ok t [] \<and> dirty_blocks t = {} \<and> head_is h1 hs \<and> rd32 h0 0 = 0 \<and>
    wlog t = wlog s @ ?L @ [(st, h1)] @ I @ [(st, h0)] \<and> disk t = apply_writes (?L @ [(st, h1)] @ I @ [(st, h0)]) (disk s)"
    using s1 s2 s3 by (simp add: commit_def)
  then show ?thesis by blast
qed

section \<open>Crashes\<close>

text \<open>
  What a crash leaves is the disk. \<open>booted r st ds\<close>: a machine just started on a disk of \<open>ds\<close>
  blocks with its log at \<open>st\<close>, with nothing in its cache. A crash during recovery keeps the
  disk after some of the block writes of \<^verbatim>\<open>recover_from_log\<close>; a block write itself is atomic.
\<close>

definition booted :: "'a lstate_scheme \<Rightarrow> nat \<Rightarrow> nat \<Rightarrow> bool" where
  "booted r st ds \<longleftrightarrow> binv r \<and> held_bufs r = {} \<and> dirty_blocks r = {} \<and> lg_dev r = 1 \<and> length (lh_block r) = LOGSIZE \<and>
     lg_start r = st \<and> disksize r = ds"

inductive crash :: "nat \<Rightarrow> nat \<Rightarrow> (nat \<Rightarrow> bytes) \<Rightarrow> (nat \<Rightarrow> bytes) \<Rightarrow> bool" for st ds where
  "booted (r :: lstate) st ds \<Longrightarrow> recover_from_log r = Inr t \<Longrightarrow> wlog t = wlog r @ ws \<Longrightarrow>
   crash st ds (disk r) (apply_writes (take k ws) (disk r))"

text \<open>The part of a disk that is not log.\<close>

definition home_part :: "nat \<Rightarrow> (nat \<Rightarrow> bytes) \<Rightarrow> nat \<Rightarrow> bytes" where
  "home_part st d = (\<lambda>b. if outside st b then d b else (\<lambda>_. 0))"

text \<open>A disk with an empty log and content \<open>v\<close>, or with a committed log that leads to content \<open>v\<close>.\<close>

definition settled :: "nat \<Rightarrow> (nat \<Rightarrow> bytes) \<Rightarrow> (nat \<Rightarrow> bytes) \<Rightarrow> bool" where
  "settled st v d \<longleftrightarrow> rd32 (d st) 0 = 0 \<and> home_part st d = home_part st v"

definition logged :: "nat \<Rightarrow> nat list \<Rightarrow> (nat \<Rightarrow> bytes) \<Rightarrow> (nat \<Rightarrow> bytes) \<Rightarrow> bool" where
  "logged st hs v d \<longleftrightarrow> head_is (d st) hs \<and> (\<forall>k < length hs. d (st + k + 1) = v (hs ! k)) \<and>
     (\<forall>b. outside st b \<longrightarrow> b \<notin> set hs \<longrightarrow> d b = v b)"

lemma home_part_eqI: "(\<And>b. outside st b \<Longrightarrow> d b = e b) \<Longrightarrow> home_part st d = home_part st e"
  by (auto simp: home_part_def)

lemma home_part_eqD: "home_part st d = home_part st e \<Longrightarrow> outside st b \<Longrightarrow> d b = e b"
  unfolding home_part_def by metis

lemma take_home_writes: "n \<le> m \<Longrightarrow> take n (map f [0..<m]) = map f [0..<n]"
  by (simp add: take_map)

text \<open>Installing a prefix of the logged blocks keeps a committed log what it is.\<close>

lemma logged_install:
  assumes lg: "logged st hs v d" and hs: "homes_ok st ds hs" and n: "n \<le> length hs"
  shows "logged st hs v (apply_writes (home_writes st d hs n) d)"
proof -
  have nin: "b \<notin> set hs" if "b = st \<or> (\<exists>k < length hs. b = st + k + 1)" for b
    using that hs by (auto simp: homes_ok_def outside_def)
  have keep: "apply_writes (home_writes st d hs n) d b = d b" if "b \<notin> set hs" for b
    using home_writes_other [OF n that] .
  have "apply_writes (home_writes st d hs n) d (st + k + 1) = d (st + k + 1)" if "k < length hs" for k
    by (rule keep, rule nin) (use that in auto)
  moreover have "apply_writes (home_writes st d hs n) d st = d st" by (rule keep, rule nin) simp
  ultimately show ?thesis using lg keep unfolding logged_def by metis
qed

lemma logged_done:
  assumes lg: "logged st hs v d" and hs: "homes_ok st ds hs" and h: "rd32 h0 0 = 0"
  shows "settled st v ((apply_writes (home_writes st d hs (length hs)) d)(st := h0))"
proof -
  have "apply_writes (home_writes st d hs (length hs)) d b = v b" if "outside st b" for b
  proof (cases "b \<in> set hs")
    case True
    then obtain k where k: "k < length hs" "b = hs ! k" by (auto simp: in_set_conv_nth)
    have "distinct hs" using hs by (simp add: homes_ok_def)
    from home_writes_nth [OF k(1) order_refl this, of st d d] k lg show ?thesis by (simp add: logged_def)
  next
    case False
    with that lg home_writes_other [OF order_refl False] show ?thesis by (simp add: logged_def)
  qed
  moreover have "outside st b \<Longrightarrow> b \<noteq> st" for b by (auto simp: outside_def)
  ultimately have "home_part st ((apply_writes (home_writes st d hs (length hs)) d)(st := h0)) = home_part st v"
    by (intro home_part_eqI) simp
  with h show ?thesis by (simp add: settled_def)
qed

text \<open>Recovery, complete or cut short, from each of the two kinds of disk.\<close>

lemma recover_settled:
  assumes r: "booted r st ds" "st + LOGSIZE < ds" "ds \<le> 2 ^ 32" and d: "settled st v (disk r)"
  shows "\<exists>t ws. recover_from_log r = Inr t \<and> wlog t = wlog r @ ws \<and> disk t = apply_writes ws (disk r) \<and>
    (\<forall>k. settled st v (apply_writes (take k ws) (disk r)))"
proof -
  have "homes_ok (lg_start r) (disksize r) []" "head_is (disk r (lg_start r)) []"
    using r d head_is_0 by (auto simp: homes_ok_def booted_def settled_def)
  from recover_spec [OF _ _ _ _ _ this] r(1)
  obtain t h0 where t: "recover_from_log r = Inr t" "rd32 h0 0 = 0" "wlog t = wlog r @ [(st, h0)]" "disk t = (disk r)(st := h0)"
    by (auto simp: booted_def home_writes_def)
  have "home_part st ((disk r)(st := h0)) = home_part st (disk r)"
    by (rule home_part_eqI) (auto simp: outside_def)
  then have "settled st v ((disk r)(st := h0))" using d t(2) by (simp add: settled_def)
  then have "settled st v (apply_writes (take k [(st, h0)]) (disk r))" for k using d by (cases k) auto
  with t show ?thesis by (intro exI [of _ t] exI [of _ "[(st, h0)]"]) simp
qed

lemma recover_logged:
  assumes r: "booted r st ds" and hs: "homes_ok st ds hs" and d: "logged st hs v (disk r)"
  shows "\<exists>t ws. recover_from_log r = Inr t \<and> wlog t = wlog r @ ws \<and> disk t = apply_writes ws (disk r) \<and> settled st v (disk t) \<and>
    (\<forall>k. logged st hs v (apply_writes (take k ws) (disk r)) \<or> settled st v (apply_writes (take k ws) (disk r)))"
proof -
  let ?I = "home_writes st (disk r) hs (length hs)"
  obtain t h0 where t: "recover_from_log r = Inr t" "rd32 h0 0 = 0" "wlog t = wlog r @ ?I @ [(st, h0)]"
    "disk t = apply_writes (?I @ [(st, h0)]) (disk r)"
    using recover_spec [of r hs] r hs d by (auto simp: booted_def logged_def)
  note fin = logged_done [OF d hs t(2)]
  have "logged st hs v (apply_writes (take k (?I @ [(st, h0)])) (disk r)) \<or>
        settled st v (apply_writes (take k (?I @ [(st, h0)])) (disk r))" for k
  proof (cases "k \<le> length hs")
    case True
    then have "take k (?I @ [(st, h0)]) = home_writes st (disk r) hs k"
      by (simp add: home_writes_def take_home_writes)
    with logged_install [OF d hs True] show ?thesis by simp
  next
    case False
    then have "take k (?I @ [(st, h0)]) = ?I @ [(st, h0)]" by (simp add: home_writes_def)
    with fin show ?thesis by simp
  qed
  with t fin show ?thesis by (intro exI [of _ t] exI [of _ "?I @ [(st, h0)]"]) simp
qed

lemma crash_step:
  assumes "crash st ds d d'" and hs: "homes_ok st ds hs"
    and "settled st v d \<or> settled st w d \<or> logged st hs w d"
  shows "settled st v d' \<or> settled st w d' \<or> logged st hs w d'"
  using assms(1)
proof cases
  case (1 r t ws k)
  have ds: "st + LOGSIZE < ds" "ds \<le> 2 ^ 32" using hs by (auto simp: homes_ok_def)
  consider "settled st v d" | "settled st w d" | "logged st hs w d" using assms(3) by blast
  then show ?thesis
  proof cases
    case a: 1
    with recover_settled [OF 1(3) ds, of v] 1 show ?thesis by auto
  next
    case 2
    with recover_settled [OF 1(3) ds, of w] 1 show ?thesis by auto
  next
    case 3
    with recover_logged [OF 1(3) hs, of w] 1 show ?thesis by auto
  qed
qed

lemma crash_steps:
  assumes "(crash st ds)\<^sup>*\<^sup>* d d'" and "homes_ok st ds hs" and "settled st v d \<or> settled st w d \<or> logged st hs w d"
  shows "settled st v d' \<or> settled st w d' \<or> logged st hs w d'"
  using assms(1,3) by (induction rule: rtranclp_induct) (use crash_step assms(2) in blast)+

text \<open>Wherever \<^verbatim>\<open>commit\<close> is cut, the disk is still the old one, already the new one, or has the new one logged.\<close>

lemma commit_prefix:
  assumes hs: "homes_ok st ds hs" and d: "rd32 (d st) 0 = 0" and h: "head_is h1 hs" "rd32 h0 0 = 0"
    and v: "\<And>b. outside st b \<Longrightarrow> b \<notin> set hs \<Longrightarrow> v b = d b"
  defines "ws \<equiv> log_writes st v hs (length hs) @ [(st, h1)] @ map (\<lambda>k. (hs ! k, v (hs ! k))) [0..<length hs] @ [(st, h0)]"
  defines "e k \<equiv> apply_writes (take k ws) d"
  shows "settled st d (e k) \<or> settled st v (e k) \<or> logged st hs v (e k)"
proof -
  let ?n = "length hs" and ?L = "log_writes st v hs (length hs)"
  have n: "?n \<le> LOGSIZE" using hs by (simp add: homes_ok_def)
  have len: "length ?L = ?n" by (simp add: log_writes_def)
  let ?d1 = "(apply_writes ?L d)(st := h1)"
  have lg: "logged st hs v ?d1"
    unfolding logged_def
  proof (intro conjI allI impI)
    show "head_is (?d1 st) hs" using h(1) by simp
    show "?d1 (st + k + 1) = v (hs ! k)" if "k < ?n" for k using log_writes_nth [OF that, of st v hs d] by simp
    fix b assume b: "outside st b" "b \<notin> set hs"
    then have "apply_writes ?L d b = d b" "b \<noteq> st" using log_writes_other [OF n] by (auto simp: outside_def)
    with v [OF b] show "?d1 b = v b" by simp
  qed
  have I: "map (\<lambda>k. (hs ! k, v (hs ! k))) [0..<?n] = home_writes st ?d1 hs ?n"
    unfolding home_writes_def by (rule map_cong [OF refl]) (use lg in \<open>simp add: logged_def\<close>)
  consider "k \<le> ?n" | m where "k = Suc (?n + m)" "m \<le> ?n" | "k > Suc (?n + ?n)"
    using that(2) [of "k - Suc ?n"] by linarith
  then show ?thesis
  proof cases
    case 1
    then have "e k = apply_writes (log_writes st v hs k) d"
      unfolding e_def ws_def using len by (simp add: log_writes_def take_home_writes)
    moreover have "k \<le> LOGSIZE" using 1 n by simp
    ultimately have "settled st d (e k)"
      using d log_writes_other [of k st _ v hs d] by (auto simp: settled_def intro: home_part_eqI)
    then show ?thesis ..
  next
    case (2 m)
    then have "take k ws = ?L @ [(st, h1)] @ home_writes st ?d1 hs m"
      unfolding ws_def I using len by (simp add: home_writes_def take_home_writes)
    then have "e k = apply_writes (home_writes st ?d1 hs m) ?d1" by (simp add: e_def)
    with logged_install [OF lg hs 2(2)] show ?thesis by simp
  next
    case 3
    then have "take k ws = ws" by (simp add: ws_def len)
    then have "e k = (apply_writes (home_writes st ?d1 hs ?n) ?d1)(st := h0)" by (simp add: e_def ws_def I)
    with logged_done [OF lg hs h(2)] show ?thesis by simp
  qed
qed

text \<open>The home blocks after all writes of a commit.\<close>

lemma commit_disk:
  assumes hs: "homes_ok st ds hs" and b: "outside st b" and v: "b \<notin> set hs \<Longrightarrow> v b = d b"
  shows "apply_writes (map (\<lambda>k. (hs ! k, v (hs ! k))) [0..<length hs])
    ((apply_writes (log_writes st v hs (length hs)) d)(st := h1)) b = v b"
proof (cases "b \<in> set hs")
  case True
  then obtain k where k: "k < length hs" "b = hs ! k" by (auto simp: in_set_conv_nth)
  have "distinct (map ((!) hs) [0..<length hs])" using hs by (simp add: map_nth homes_ok_def)
  from apply_writes_nth [OF this k(1)] show ?thesis by (simp add: k(2))
next
  case False
  have "apply_writes (log_writes st v hs (length hs)) d b = d b"
    by (rule log_writes_other) (use hs b in \<open>auto simp: homes_ok_def\<close>)
  moreover have "b \<noteq> st" using b by (auto simp: outside_def)
  ultimately show ?thesis using False v by (subst apply_writes_other) auto
qed

lemma commit_view:
  assumes "log_ok s hs" "dirty_blocks s = set hs" "outside (lg_start s) b" "b \<notin> set hs"
  shows "view s b = disk s b"
  by (rule view_clean) (use assms in \<open>auto simp: log_ok_def held_blocks_def\<close>)

section \<open>Properties\<close>



section \<open>A transaction of one block\<close>

text \<open>Block 50 is dirty in the cache and logged; the log starts at block 2.\<close>

definition sample_log :: lstate where
  "sample_log = \<lparr>kend = 0x80100000, use_lock = True, freelist = None, runArr = (\<lambda>_. \<lparr>run_next = None, run_ref = 0\<rparr>),
     occupiedPages = 0, pmem = (\<lambda>_ _. 0), procs = [proc0\<lparr>p_pid := 1\<rparr>], curp = Some 0, initproc = Some 0, nextpid = 2,
     cr3 = 0, disk = (\<lambda>_ _. 0), disksize = 1000,
     bufs = buf0\<lparr>b_valid := True, b_dirty := True, b_dev := 1, b_blockno := 50, b_data := (\<lambda>_. 7)\<rparr> # replicate 29 buf0,
     mru = rev [0..<NBUF], wlog = [], lg_start = 2, lg_size = 30, outstanding = 0, committing = True, lg_dev = 1, lh_n = 1,
     lh_block = 50 # replicate 29 0\<rparr>"

definition sample_boot :: "(nat \<Rightarrow> bytes) \<Rightarrow> lstate" where
  "sample_boot d = sample_log\<lparr>disk := d, bufs := replicate NBUF buf0\<rparr>"

lemma sample_log_ok: "log_ok sample_log [50]" "dirty_blocks sample_log = set [50]" "lg_start sample_log = 2"
  "disk sample_log = (\<lambda>_ _. 0)" "disksize sample_log = 1000"
  by (auto simp: log_ok_def homes_ok_def outside_def sample_log_def dirty_blocks_def binv_def bufs_distinct_def buf_ok_def
      buf0_def initsleeplock_def held_bufs_def nth_Cons split: nat.splits)

lemma sample_booted: "booted (sample_boot d) 2 1000" "disk (sample_boot d) = d"
  by (auto simp: booted_def sample_boot_def sample_log_def dirty_blocks_def binv_def bufs_distinct_def buf_ok_def
      buf0_def initsleeplock_def held_bufs_def)



end
