(* ===== verification/Ide.thy ===== *)
theory Ide
  imports Log
begin

text \<open>
  The IDE driver of \<^verbatim>\<open>ide.c\<close>: the queue of requests, linked through \<^verbatim>\<open>qnext\<close>, the interrupt handler
  and the processes that wait for their buffer. The device is not modelled: what the driver
  writes to ports is a trace, and what it reads (status bytes and data) is an argument.
\<close>

section \<open>State and operations\<close>

datatype portop = Outb nat uchar | Outsl nat bytes

record ide = bstate +
  idequeue :: "nat option"
  qnext :: "nat \<Rightarrow> nat option"
  havedisk1 :: bool
  ports :: "portop list"

text \<open>The status bytes read until the disk is ready; \<open>None\<close> when it is not ready yet.\<close>

fun idewait :: "bool \<Rightarrow> uchar list \<Rightarrow> (int \<times> uchar list) option" where
  "idewait checkerr [] = None"
| "idewait checkerr (r # rs) =
     (if r AND 0xC0 \<noteq> 0x40 then idewait checkerr rs
      else if checkerr \<and> r AND 0x21 \<noteq> 0 then Some (-1, rs)
      else Some (0, rs))"

text \<open>The poll for disk 1 reads up to 1000 status bytes and stops at one that is not 0.\<close>

definition ideinit :: "uchar list \<Rightarrow> 'a ide_scheme \<Rightarrow> 'a ide_scheme res" where
  "ideinit st s =
     (case idewait False st of
        None \<Rightarrow> Inl (Blocked ''idewait'')
      | Some (_, rs) \<Rightarrow>
          Inr (s\<lparr>havedisk1 := havedisk1 s \<or> list_ex (\<lambda>r. r \<noteq> 0) (take 1000 rs),
                 ports := ports s @ [Outb 0x1F6 (0xE0 OR push_bit 4 1), Outb 0x1F6 0xE0]\<rparr>))"

abbreviation sector_per_block :: nat where "sector_per_block \<equiv> BSIZE div 512"

text \<open>The port writes that start the request for a buffer.\<close>

definition ide_command :: "buf \<Rightarrow> portop list" where
  "ide_command b =
     (let sector = of_nat (b_blockno b * sector_per_block) :: uint
      in [Outb 0x3F6 0,
          Outb 0x1F2 (of_nat sector_per_block),
          Outb 0x1F3 (ucast (sector AND 0xFF)),
          Outb 0x1F4 (ucast (drop_bit 8 sector AND 0xFF)),
          Outb 0x1F5 (ucast (drop_bit 16 sector AND 0xFF)),
          Outb 0x1F6 (ucast (0xE0 OR push_bit 4 (b_dev b AND 1) OR (drop_bit 24 sector AND 0x0F)))] @
         (if b_dirty b
          then [Outb 0x1F7 (if sector_per_block = 1 then 0x30 else 0xC5), Outsl 0x1F0 (b_data b)]
          else [Outb 0x1F7 (if sector_per_block = 1 then 0x20 else 0xC4)]))"

definition idestart :: "nat option \<Rightarrow> uchar list \<Rightarrow> 'a ide_scheme \<Rightarrow> 'a ide_scheme res" where
  "idestart bp st s =
     (case bp of
        None \<Rightarrow> Inl (Panic ''idestart'')
      | Some i \<Rightarrow>
          if b_blockno (bufs s ! i) \<ge> FSSIZE then Inl (Panic ''incorrect blockno'')
          else if sector_per_block > 7 then Inl (Panic ''idestart'')
          else if idewait False st = None then Inl (Blocked ''idewait'')
          else Inr (s\<lparr>ports := ports s @ ide_command (bufs s ! i)\<rparr>))"

text \<open>
  The interrupt handler. \<open>st\<close> are the status bytes for reading the data, \<open>st'\<close> those for starting the
  next request, and \<open>d\<close> is the data read.
\<close>

definition ideintr :: "uchar list \<Rightarrow> bytes \<Rightarrow> uchar list \<Rightarrow> 'a ide_scheme \<Rightarrow> 'a ide_scheme res" where
  "ideintr st d st' s =
     (case idequeue s of
        None \<Rightarrow> Inr s
      | Some i \<Rightarrow>
          let s1 = s\<lparr>idequeue := qnext s i\<rparr>
          in rbind (if b_dirty (bufs s1 ! i) then Inr s1
                    else case idewait True st of
                           None \<Rightarrow> Inl (Blocked ''idewait'')
                         | Some (r, _) \<Rightarrow> Inr (if r \<ge> 0 then upd_buf i (\<lambda>b. b\<lparr>b_data := d\<rparr>) s1 else s1)) (\<lambda>s2.
             let s3 = wakeup (ChanIde i) (upd_buf i (\<lambda>b. b\<lparr>b_valid := True, b_dirty := False\<rparr>) s2)
             in if idequeue s3 \<noteq> None then idestart (idequeue s3) st' s3 else Inr s3))"

text \<open>The end of the queue from the buffer \<open>i\<close> on.\<close>

partial_function (option) queue_end :: "(nat \<Rightarrow> nat option) \<Rightarrow> nat \<Rightarrow> nat option" where
  "queue_end q i = (case q i of None \<Rightarrow> Some i | Some j \<Rightarrow> queue_end q j)"

definition ide_append :: "nat \<Rightarrow> 'a ide_scheme \<Rightarrow> 'a ide_scheme res" where
  "ide_append i s =
     (let s1 = s\<lparr>qnext := (qnext s)(i := None)\<rparr>
      in case idequeue s1 of
           None \<Rightarrow> Inr (s1\<lparr>idequeue := Some i\<rparr>)
         | Some h \<Rightarrow>
             (case queue_end (qnext s1) h of
                None \<Rightarrow> Inl (Blocked ''idequeue'')
              | Some l \<Rightarrow> Inr (s1\<lparr>qnext := (qnext s1)(l := Some i)\<rparr>)))"

text \<open>
  One test of the waiting loop of \<^verbatim>\<open>iderw\<close> by process \<open>p\<close>: the request is finished (\<open>True\<close>), or the
  process goes to sleep.
\<close>

definition iderw_wait :: "nat \<Rightarrow> nat \<Rightarrow> 'a ide_scheme \<Rightarrow> bool \<times> 'a ide_scheme" where
  "iderw_wait p i s =
     (if b_valid (bufs s ! i) \<and> \<not> b_dirty (bufs s ! i) then (True, s)
      else (False, s\<lparr>procs := sleep_enter p (ChanIde i) (procs s)\<rparr>))"

text \<open>\<^verbatim>\<open>iderw\<close> up to its first sleep.\<close>

definition ide_request :: "nat \<Rightarrow> nat \<Rightarrow> uchar list \<Rightarrow> 'a ide_scheme \<Rightarrow> (bool \<times> 'a ide_scheme) res" where
  "ide_request p i st s =
     (let b = bufs s ! i
      in if \<not> holdingsleep p (b_lock b) (procs s) then Inl (Panic ''iderw: buf not locked'')
         else if b_valid b \<and> \<not> b_dirty b then Inl (Panic ''iderw: nothing to do'')
         else if b_dev b \<noteq> 0 \<and> \<not> havedisk1 s then Inl (Panic ''iderw: ide disk 1 not present'')
         else rbind (ide_append i s) (\<lambda>s1.
              rbind (if idequeue s1 = Some i then idestart (Some i) st s1 else Inr s1) (\<lambda>s2.
              Inr (iderw_wait p i s2))))"

section \<open>The queue\<close>

primrec qchain :: "(nat \<Rightarrow> nat option) \<Rightarrow> nat option \<Rightarrow> nat list \<Rightarrow> bool" where
  "qchain q h [] = (h = None)"
| "qchain q h (x # xs) = (h = Some x \<and> qchain q (q x) xs)"

lemma chain_upd: "i \<notin> set xs \<Longrightarrow> qchain (q(i := v)) h xs = qchain q h xs"
  by (induction xs arbitrary: h) auto

lemma queue_end_chain: "qchain q (Some h) xs \<Longrightarrow> queue_end q h = Some (last xs)"
proof (induction xs arbitrary: h)
  case (Cons x xs)
  then show ?case by (subst queue_end.simps) (cases "q h"; cases xs; auto)
qed simp

lemma chain_snoc:
  assumes "qchain q (Some h) xs" "distinct xs" "i \<notin> set xs" "q i = None"
  shows "qchain (q(last xs := Some i)) (Some h) (xs @ [i])"
  using assms
proof (induction xs arbitrary: h)
  case (Cons x xs)
  show ?case
  proof (cases xs)
    case Nil
    then show ?thesis using Cons.prems by auto
  next
    case (Cons y ys)
    then have "last xs \<noteq> x" using Cons.prems(2) by (metis distinct.simps(2) last_in_set list.distinct(1))
    then show ?thesis using Cons.IH [of y] Cons.prems Cons by auto
  qed
qed simp

lemma ide_append_ok:
  assumes "qchain (qnext s) (idequeue s) xs" "distinct xs" "i \<notin> set xs"
  shows "\<exists>t. ide_append i s = Inr t \<and> qchain (qnext t) (idequeue t) (xs @ [i]) \<and>
    t = s\<lparr>qnext := qnext t, idequeue := idequeue t\<rparr>"
proof (cases xs)
  case Nil
  then show ?thesis using assms(1) by (simp add: ide_append_def Let_def)
next
  case (Cons h ys)
  have c: "qchain ((qnext s)(i := None)) (Some h) xs" using assms(1) Cons unfolding chain_upd [OF assms(3)] by simp
  have "qchain (((qnext s)(i := None))(last xs := Some i)) (Some h) (xs @ [i])"
    by (rule chain_snoc [OF c assms(2,3)]) simp
  then show ?thesis using assms(1) Cons queue_end_chain [OF c] by (simp add: ide_append_def Let_def)
qed

section \<open>Commands to the device\<close>

text \<open>
  The commands in a port trace: a write to the command port reads the task file registers
  written before it. A command is a direction and a sector number.
\<close>

fun decode :: "(nat \<Rightarrow> uchar) \<Rightarrow> portop list \<Rightarrow> (bool \<times> nat) list" where
  "decode r [] = []"
| "decode r (Outsl p d # ops) = decode r ops"
| "decode r (Outb p v # ops) =
     (if p = 0x1F7
      then (v = 0x30, unat (r 0x1F3) + 256 * unat (r 0x1F4) + 65536 * unat (r 0x1F5) + 16777216 * unat (r 0x1F6 AND 0x0F)) # decode r ops
      else decode (r(p := v)) ops)"

lemma decode_append: "\<exists>r'. decode r (xs @ ys) = decode r xs @ decode r' ys"
  by (induction r xs rule: decode.induct) (auto simp del: fun_upd_apply)

lemma low_byte: "unat (ucast (w AND 0xFF) :: uchar) = unat w mod 256" for w :: uint
proof -
  have "w AND 0xFF = take_bit 8 w" by (simp add: take_bit_eq_mask mask_eq_exp_minus_1)
  then show ?thesis by (simp add: unsigned_ucast_eq take_bit_eq_mod unat_mod)
qed

lemma device_bits:
  fixes d :: uint
  shows "(ucast (0xE0 OR push_bit 4 (d AND 1)) :: uchar) AND 0x0F = 0"
proof (rule bit_word_eqI)
  have f: "(0x0F :: uchar) = mask 4" "(0xE0 :: uint) = push_bit 5 (mask 3)" by (simp_all add: mask_eq_exp_minus_1 push_bit_eq_mult)
  fix n
  show "bit ((ucast (0xE0 OR push_bit 4 (d AND 1)) :: uchar) AND 0x0F) n = bit (0 :: uchar) n"
    unfolding f by (auto simp: bit_and_iff bit_or_iff bit_unsigned_iff bit_push_bit_iff bit_mask_iff)
qed

lemma decode_command:
  assumes "b_blockno b < FSSIZE"
  shows "decode r (ide_command b) = [(b_dirty b, b_blockno b)]"
proof -
  let ?w = "of_nat (b_blockno b) :: uint"
  have u: "unat ?w = b_blockno b" using assms by (simp add: unat_of_nat)
  have d: "drop_bit 16 ?w = 0" "drop_bit 24 ?w = 0" "unat (drop_bit 8 ?w) = b_blockno b div 256"
    using assms u by (simp_all add: drop_bit_eq_div unat_div word_unat_eq_iff)
  show ?thesis
    using assms u low_byte [of ?w] low_byte [of "drop_bit 8 ?w"] d device_bits [of "b_dev b"] by (simp add: ide_command_def Let_def)
qed

lemma idestart_command:
  assumes "idestart (Some i) st s = Inr t"
  shows "b_blockno (bufs s ! i) < FSSIZE" "bufs t = bufs s" "procs t = procs s" "qnext t = qnext s" "idequeue t = idequeue s"
    "decode r (ports t) = decode r (ports s) @ [(b_dirty (bufs s ! i), b_blockno (bufs s ! i))]"
proof -
  have t: "b_blockno (bufs s ! i) < FSSIZE" "t = s\<lparr>ports := ports s @ ide_command (bufs s ! i)\<rparr>"
    using assms by (simp_all add: idestart_def split: if_splits)
  then show "b_blockno (bufs s ! i) < FSSIZE" "bufs t = bufs s" "procs t = procs s" "qnext t = qnext s" "idequeue t = idequeue s" by simp_all
  show "decode r (ports t) = decode r (ports s) @ [(b_dirty (bufs s ! i), b_blockno (bufs s ! i))]"
    using decode_append [of r "ports s" "ide_command (bufs s ! i)"] decode_command [OF t(1)] t(2) by auto
qed

section \<open>Processes, requests and interrupts\<close>

text \<open>
  The driver among its users. \<open>waiting p\<close> is the buffer for which process \<open>p\<close> is inside \<^verbatim>\<open>iderw\<close>. History:
  \<open>reqs\<close> are the requests made (buffer, direction and block number at that time), the first
  \<open>nserved\<close> of which were finished by an interrupt.
\<close>

record isys =
  kst :: ide
  waiting :: "nat \<Rightarrow> nat option"
  reqs :: "(nat \<times> bool \<times> nat) list"
  nserved :: nat

definition ide_asleep :: "nat \<Rightarrow> nat \<Rightarrow> proc list \<Rightarrow> bool" where
  "ide_asleep p i ps \<longleftrightarrow> p < length ps \<and> p_state (ps ! p) = SLEEPING \<and> p_chan (ps ! p) = ChanIde i"

definition b_done :: "buf \<Rightarrow> bool" where
  "b_done b \<longleftrightarrow> b_valid b \<and> \<not> b_dirty b"

definition ide_init :: "isys \<Rightarrow> bool" where
  "ide_init x \<longleftrightarrow> idequeue (kst x) = None \<and> ports (kst x) = [] \<and> waiting x = (\<lambda>_. None) \<and> reqs x = [] \<and> nserved x = 0 \<and>
     (\<forall>p i. \<not> ide_asleep p i (procs (kst x)))"

text \<open>
  Steps, each under \<^verbatim>\<open>idelock\<close>. \<open>request\<close>: a process that holds the sleep lock of the buffer, so
  that nobody else is in \<^verbatim>\<open>iderw\<close> with it, makes a request. \<open>intr\<close>: an interrupt, the one labelled step. \<open>recheck\<close>: a
  process that was woken tests its buffer again. \<open>sched\<close>: the rest of the kernel changes the
  process table, but puts nobody to sleep on a disk request; it may wake sleepers, as \<^verbatim>\<open>kill\<close>
  does. \<open>touch\<close>: the rest of the kernel changes a buffer nobody waits for.
\<close>

inductive istep :: "isys \<Rightarrow> bool \<Rightarrow> isys \<Rightarrow> bool" where
  request: "waiting x p = None \<Longrightarrow> p < length (procs (kst x)) \<Longrightarrow> i < length (bufs (kst x)) \<Longrightarrow> \<forall>q. waiting x q \<noteq> Some i \<Longrightarrow>
    ide_request p i st (kst x) = Inr (fin, s) \<Longrightarrow>
    istep x False (x\<lparr>kst := s, waiting := (waiting x)(p := if fin then None else Some i),
      reqs := reqs x @ [(i, b_dirty (bufs (kst x) ! i), b_blockno (bufs (kst x) ! i))]\<rparr>)"
| intr: "ideintr st d st' (kst x) = Inr s \<Longrightarrow>
    istep x True (x\<lparr>kst := s, nserved := nserved x + (if idequeue (kst x) = None then 0 else 1)\<rparr>)"
| recheck: "waiting x p = Some i \<Longrightarrow> p < length (procs (kst x)) \<Longrightarrow> p_state (procs (kst x) ! p) = RUNNING \<Longrightarrow>
    iderw_wait p i (kst x) = (fin, s) \<Longrightarrow>
    istep x False (x\<lparr>kst := s, waiting := (waiting x)(p := if fin then None else Some i)\<rparr>)"
| sched: "length ps = length (procs (kst x)) \<Longrightarrow> \<forall>p i. ide_asleep p i ps \<longrightarrow> ide_asleep p i (procs (kst x)) \<Longrightarrow>
    istep x False (x\<lparr>kst := (kst x)\<lparr>procs := ps\<rparr>\<rparr>)"
| touch: "\<forall>q. waiting x q \<noteq> Some i \<Longrightarrow> istep x False (x\<lparr>kst := upd_buf i f (kst x)\<rparr>)"

text \<open>Runs, with the number of interrupts in them.\<close>

inductive irun :: "isys \<Rightarrow> nat \<Rightarrow> isys \<Rightarrow> bool" where
  irun_nil: "irun x 0 x"
| irun_step: "irun x n y \<Longrightarrow> istep y l z \<Longrightarrow> irun x (n + (if l then 1 else 0)) z"

text \<open>
  The invariant, for the sequence \<open>rs\<close> of unserved requests: the chain of buffers is that
  sequence; the buffers are unchanged since the request, unfinished and waited for; every
  unfinished buffer that is waited for and every buffer somebody sleeps for is among them; and
  the device was given the served requests and the first unserved one.
\<close>

definition pending_ok :: "'a ide_scheme \<Rightarrow> (nat \<Rightarrow> nat option) \<Rightarrow> (nat \<times> bool \<times> nat) list \<Rightarrow> bool" where
  "pending_ok s wt rs \<longleftrightarrow> qchain (qnext s) (idequeue s) (map fst rs) \<and> distinct (map fst rs) \<and>
     (\<forall>r\<in>set rs. fst r < length (bufs s) \<and> \<not> b_done (bufs s ! fst r) \<and>
        snd r = (b_dirty (bufs s ! fst r), b_blockno (bufs s ! fst r)) \<and> (\<exists>p. wt p = Some (fst r)))"

definition waiters_ok :: "'a ide_scheme \<Rightarrow> (nat \<Rightarrow> nat option) \<Rightarrow> nat set \<Rightarrow> bool" where
  "waiters_ok s wt q \<longleftrightarrow> (\<forall>p i. wt p = Some i \<and> \<not> b_done (bufs s ! i) \<longrightarrow> i \<in> q) \<and>
     (\<forall>p i. ide_asleep p i (procs s) \<longrightarrow> wt p = Some i \<and> i \<in> q)"

abbreviation pending :: "isys \<Rightarrow> (nat \<times> bool \<times> nat) list" where
  "pending x \<equiv> drop (nserved x) (reqs x)"

definition ide_inv :: "isys \<Rightarrow> bool" where
  "ide_inv x \<longleftrightarrow> nserved x \<le> length (reqs x) \<and> pending_ok (kst x) (waiting x) (pending x) \<and>
     waiters_ok (kst x) (waiting x) (fst ` set (pending x)) \<and>
     decode (\<lambda>_. 0) (ports (kst x)) = map snd (take (nserved x + (if pending x = [] then 0 else 1)) (reqs x))"

lemma ide_inv_init: "ide_init x \<Longrightarrow> ide_inv x"
  by (simp add: ide_init_def ide_inv_def pending_ok_def waiters_ok_def)

lemma ide_inv_sched:
  assumes "ide_inv x" "\<forall>p i. ide_asleep p i ps \<longrightarrow> ide_asleep p i (procs (kst x))"
  shows "ide_inv (x\<lparr>kst := (kst x)\<lparr>procs := ps\<rparr>\<rparr>)"
proof -
  have "waiters_ok ((kst x)\<lparr>procs := ps\<rparr>) (waiting x) (fst ` set (pending x))"
    using assms unfolding ide_inv_def waiters_ok_def by simp blast
  then show ?thesis using assms(1) by (simp add: ide_inv_def pending_ok_def)
qed

lemma ide_inv_touch:
  assumes "ide_inv x" "\<forall>q. waiting x q \<noteq> Some i"
  shows "ide_inv (x\<lparr>kst := upd_buf i f (kst x)\<rparr>)"
proof -
  have same: "bufs (upd_buf i f (kst x)) ! j = bufs (kst x) ! j" if "waiting x q = Some j" for j q
  proof -
    have "j \<noteq> i" using assms(2) that by auto
    then show ?thesis by (simp add: upd_buf_def)
  qed
  have keep: "qnext (upd_buf i f (kst x)) = qnext (kst x)" "idequeue (upd_buf i f (kst x)) = idequeue (kst x)"
    "length (bufs (upd_buf i f (kst x))) = length (bufs (kst x))" "procs (upd_buf i f (kst x)) = procs (kst x)"
    "ports (upd_buf i f (kst x)) = ports (kst x)" by (simp_all add: upd_buf_def)
  have p: "pending_ok (kst x) (waiting x) (pending x)" and w: "waiters_ok (kst x) (waiting x) (fst ` set (pending x))"
    using assms(1) by (simp_all add: ide_inv_def)
  have "pending_ok (upd_buf i f (kst x)) (waiting x) (pending x)"
    using p same unfolding pending_ok_def keep by metis
  moreover have "waiters_ok (upd_buf i f (kst x)) (waiting x) (fst ` set (pending x))"
    using w same unfolding waiters_ok_def keep by metis
  ultimately show ?thesis using assms(1) by (simp add: ide_inv_def keep)
qed

lemma ide_asleep_enter: "ide_asleep q j (sleep_enter p (ChanIde i) ps) \<longleftrightarrow> (if q = p then p < length ps \<and> j = i else ide_asleep q j ps)"
  by (auto simp: ide_asleep_def sleep_enter_def nth_list_update)

lemma ide_inv_recheck:
  assumes "ide_inv x" "waiting x p = Some i" "iderw_wait p i (kst x) = (fin, s)" "p_state (procs (kst x) ! p) = RUNNING"
  shows "ide_inv (x\<lparr>kst := s, waiting := (waiting x)(p := if fin then None else Some i)\<rparr>)"
proof -
  have pk: "pending_ok (kst x) (waiting x) (pending x)" and w: "waiters_ok (kst x) (waiting x) (fst ` set (pending x))"
    using assms(1) by (simp_all add: ide_inv_def)
  show ?thesis
  proof (cases fin)
    case True
    then have s: "s = kst x" "b_done (bufs (kst x) ! i)" using assms(3) by (auto simp: iderw_wait_def b_done_def split: if_splits)
    have "\<exists>q. ((waiting x)(p := None)) q = Some (fst r)" if "r \<in> set (pending x)" for r
    proof -
      obtain q where "waiting x q = Some (fst r)" "\<not> b_done (bufs (kst x) ! fst r)" using pk \<open>r \<in> set (pending x)\<close> by (auto simp: pending_ok_def)
      then show ?thesis using s(2) assms(2) by (intro exI [of _ q]) auto
    qed
    then have "pending_ok s ((waiting x)(p := None)) (pending x)" using pk by (simp add: pending_ok_def s(1))
    moreover have "\<not> ide_asleep p j (procs (kst x))" for j using assms(4) by (simp add: ide_asleep_def)
    then have "waiters_ok s ((waiting x)(p := None)) (fst ` set (pending x))" using w by (auto simp: waiters_ok_def s(1))
    ultimately show ?thesis using assms(1) True by (simp add: ide_inv_def s(1))
  next
    case False
    then have s: "s = (kst x)\<lparr>procs := sleep_enter p (ChanIde i) (procs (kst x))\<rparr>" "\<not> b_done (bufs (kst x) ! i)"
      using assms(3) by (auto simp: iderw_wait_def b_done_def split: if_splits)
    have "(waiting x)(p := Some i) = waiting x" using assms(2) by auto
    moreover have "waiters_ok s (waiting x) (fst ` set (pending x))"
      using w assms(2) s(2) by (auto simp: waiters_ok_def s(1) ide_asleep_enter)
    ultimately show ?thesis using assms(1) False pk by (simp add: ide_inv_def s(1) pending_ok_def)
  qed
qed

lemma ide_inv_request:
  assumes inv: "ide_inv x" and i: "i < length (bufs (kst x))" and free: "\<forall>q. waiting x q \<noteq> Some i" and new: "waiting x p = None"
    and run: "ide_request p i st (kst x) = Inr (fin, s)"
  shows "ide_inv (x\<lparr>kst := s, waiting := (waiting x)(p := if fin then None else Some i),
      reqs := reqs x @ [(i, b_dirty (bufs (kst x) ! i), b_blockno (bufs (kst x) ! i))]\<rparr>)"
proof -
  let ?s = "kst x" and ?rs = "pending x" and ?r = "(i, b_dirty (bufs (kst x) ! i), b_blockno (bufs (kst x) ! i))"
  have pk: "pending_ok ?s (waiting x) ?rs" and w: "waiters_ok ?s (waiting x) (fst ` set ?rs)" and n: "nserved x \<le> length (reqs x)"
    and dec: "decode (\<lambda>_. 0) (ports ?s) = map snd (take (nserved x + (if ?rs = [] then 0 else 1)) (reqs x))"
    using inv by (simp_all add: ide_inv_def)
  have fresh: "i \<notin> set (map fst ?rs)" using pk free by (auto simp: pending_ok_def)
  have nd: "\<not> b_done (bufs ?s ! i)" using run by (auto simp: ide_request_def b_done_def Let_def split: if_splits)
  obtain s1 where s1: "ide_append i ?s = Inr s1" "qchain (qnext s1) (idequeue s1) (map fst ?rs @ [i])"
    "s1 = ?s\<lparr>qnext := qnext s1, idequeue := idequeue s1\<rparr>"
    using ide_append_ok [of ?s "map fst ?rs" i] pk fresh by (auto simp: pending_ok_def)
  obtain s2 where s2: "(if idequeue s1 = Some i then idestart (Some i) st s1 else Inr s1) = Inr s2" "(fin, s) = iderw_wait p i s2"
    using run s1(1) by (auto simp: ide_request_def Let_def rbind_eq_Inr split: if_splits)
  have b1: "bufs s1 = bufs ?s" "ports s1 = ports ?s" "procs s1 = procs ?s" by (subst s1(3); simp)+
  have first: "idequeue s1 = Some i \<longleftrightarrow> ?rs = []" using s1(2) fresh by (cases ?rs) auto
  have b2: "bufs s2 = bufs ?s \<and> procs s2 = procs ?s \<and> qnext s2 = qnext s1 \<and> idequeue s2 = idequeue s1 \<and>
      decode (\<lambda>_. 0) (ports s2) = decode (\<lambda>_. 0) (ports ?s) @ (if ?rs = [] then [snd ?r] else [])"
  proof (cases "idequeue s1 = Some i")
    case True
    then have "idestart (Some i) st s1 = Inr s2" using s2(1) by simp
    from idestart_command [OF this] show ?thesis using True b1 first by simp
  next
    case False
    then show ?thesis using s2(1) b1 first by simp
  qed
  note b2 = b2 [THEN conjunct1] b2 [THEN conjunct2, THEN conjunct1] b2 [THEN conjunct2, THEN conjunct2, THEN conjunct1]
    b2 [THEN conjunct2, THEN conjunct2, THEN conjunct2, THEN conjunct1] b2 [THEN conjunct2, THEN conjunct2, THEN conjunct2, THEN conjunct2]
  have fin: "\<not> fin" "s = s2\<lparr>procs := sleep_enter p (ChanIde i) (procs s2)\<rparr>"
    using s2(2) nd by (auto simp: iderw_wait_def b_done_def b2)
  have rs': "drop (nserved x) (reqs x @ [?r]) = ?rs @ [?r]" using n by simp
  have "\<exists>q. ((waiting x)(p := Some i)) q = Some (fst r)" if r: "r \<in> set ?rs" for r
  proof -
    obtain q where "waiting x q = Some (fst r)" using pk r by (auto simp: pending_ok_def)
    then show ?thesis using new by (intro exI [of _ q]) auto
  qed
  moreover have "\<exists>q. ((waiting x)(p := Some i)) q = Some i" by (intro exI [of _ p]) simp
  ultimately have "pending_ok s ((waiting x)(p := Some i)) (?rs @ [?r])"
    using pk s1(2) fresh i nd by (simp add: pending_ok_def fin(2) b2 del: fun_upd_apply)
  moreover have "waiters_ok s ((waiting x)(p := Some i)) (fst ` set (?rs @ [?r]))"
    using w by (auto simp: waiters_ok_def fin(2) b2 ide_asleep_enter split: if_splits)
  moreover have "decode (\<lambda>_. 0) (ports s) = map snd (take (nserved x + 1) (reqs x @ [?r]))"
    using b2(5) dec n by (auto simp: fin(2))
  ultimately show ?thesis using n fin(1) by (simp add: ide_inv_def rs')
qed

lemma ide_asleep_wakeup: "ide_asleep p j (procs (wakeup (ChanIde i) s)) \<longleftrightarrow> ide_asleep p j (procs s) \<and> j \<noteq> i"
  by (auto simp: ide_asleep_def wakeup_def wakeup1_nth split: if_splits)

text \<open>The handler up to the start of the next request.\<close>

lemma ideintr_cases:
  assumes "ideintr st d st' s = Inr t" "idequeue s = Some i" "i < length (bufs s)"
  shows "\<exists>s3. (if idequeue s3 \<noteq> None then idestart (idequeue s3) st' s3 else Inr s3) = Inr t \<and> idequeue s3 = qnext s i \<and> qnext s3 = qnext s \<and>
    ports s3 = ports s \<and> procs s3 = procs (wakeup (ChanIde i) s) \<and> length (bufs s3) = length (bufs s) \<and> b_done (bufs s3 ! i) \<and>
    (\<forall>j. j \<noteq> i \<longrightarrow> bufs s3 ! j = bufs s ! j)"
proof -
  let ?f = "\<lambda>s2. wakeup (ChanIde i) (upd_buf i (\<lambda>b. b\<lparr>b_valid := True, b_dirty := False\<rparr>) s2)"
  let ?g = "if b_dirty (bufs s ! i) then Inr (s\<lparr>idequeue := qnext s i\<rparr>)
     else case idewait True st of None \<Rightarrow> Inl (Blocked ''idewait'')
       | Some (r, _) \<Rightarrow> Inr (if r \<ge> 0 then upd_buf i (\<lambda>b. b\<lparr>b_data := d\<rparr>) (s\<lparr>idequeue := qnext s i\<rparr>) else s\<lparr>idequeue := qnext s i\<rparr>)"
  have "rbind ?g (\<lambda>s2. if idequeue (?f s2) \<noteq> None then idestart (idequeue (?f s2)) st' (?f s2) else Inr (?f s2)) = Inr t"
    using assms(1,2) by (simp add: ideintr_def Let_def)
  then obtain s2 where g: "?g = Inr s2" and fin: "(if idequeue (?f s2) \<noteq> None then idestart (idequeue (?f s2)) st' (?f s2) else Inr (?f s2)) = Inr t"
    unfolding rbind_eq_Inr by blast
  have s2: "s2 = s\<lparr>idequeue := qnext s i\<rparr> \<or> s2 = upd_buf i (\<lambda>b. b\<lparr>b_data := d\<rparr>) (s\<lparr>idequeue := qnext s i\<rparr>)"
    using g by (auto split: if_splits option.splits)
  show ?thesis
    by (rule exI [of _ "?f s2"]) (use s2 fin assms(3) in \<open>auto simp: upd_buf_def wakeup_def b_done_def\<close>)
qed

lemma ide_inv_intr:
  assumes inv: "ide_inv x" and run: "ideintr st d st' (kst x) = Inr t"
  shows "ide_inv (x\<lparr>kst := t, nserved := nserved x + (if idequeue (kst x) = None then 0 else 1)\<rparr>)"
proof (cases "idequeue (kst x)")
  case None
  then show ?thesis using inv run by (simp add: ideintr_def ide_inv_def)
next
  case (Some i)
  let ?s = "kst x"
  have pk: "pending_ok ?s (waiting x) (pending x)" and w: "waiters_ok ?s (waiting x) (fst ` set (pending x))" and n: "nserved x \<le> length (reqs x)"
    and dec: "decode (\<lambda>_. 0) (ports ?s) = map snd (take (nserved x + (if pending x = [] then 0 else 1)) (reqs x))"
    using inv by (simp_all add: ide_inv_def)
  obtain r rs where rs: "pending x = r # rs" "fst r = i" using pk Some by (cases "pending x") (auto simp: pending_ok_def)
  have lt: "nserved x < length (reqs x)" using rs(1) n by (metis drop_all leI list.distinct(1))
  have rs': "drop (Suc (nserved x)) (reqs x) = rs" using rs(1) by (metis drop_Suc drop_tl list.sel(3))
  have i: "i < length (bufs ?s)" using pk rs by (simp add: pending_ok_def)
  obtain s3 where s3: "(if idequeue s3 \<noteq> None then idestart (idequeue s3) st' s3 else Inr s3) = Inr t" "idequeue s3 = qnext ?s i" "qnext s3 = qnext ?s"
    "ports s3 = ports ?s" "procs s3 = procs (wakeup (ChanIde i) ?s)" "length (bufs s3) = length (bufs ?s)" "b_done (bufs s3 ! i)"
    "\<And>j. j \<noteq> i \<Longrightarrow> bufs s3 ! j = bufs ?s ! j"
    using ideintr_cases [OF run Some i] by blast
  have ni: "i \<notin> fst ` set rs" using pk rs by (auto simp: pending_ok_def)
  have p3: "pending_ok s3 (waiting x) rs"
  proof -
    have "fst q \<noteq> i" if "q \<in> set rs" for q using that ni by auto
    then show ?thesis using pk rs s3(2,3,6,8) by (auto simp: pending_ok_def)
  qed
  have w3: "waiters_ok s3 (waiting x) (fst ` set rs)"
  proof -
    have "j \<in> fst ` set rs" if "waiting x p = Some j" "\<not> b_done (bufs s3 ! j)" for p j
    proof -
      have "j \<noteq> i" using that(2) s3(7) by auto
      then show ?thesis using w that s3(8) [of j] rs by (auto simp: waiters_ok_def)
    qed
    then show ?thesis using w rs by (auto simp: waiters_ok_def s3(5) ide_asleep_wakeup)
  qed
  have t: "bufs t = bufs s3 \<and> procs t = procs s3 \<and> qnext t = qnext s3 \<and> idequeue t = idequeue s3 \<and>
      decode (\<lambda>_. 0) (ports t) = decode (\<lambda>_. 0) (ports ?s) @ map snd (take 1 rs)"
  proof (cases rs)
    case Nil
    then show ?thesis using p3 s3(1,4) by (auto simp: pending_ok_def)
  next
    case (Cons r' rs')
    then have q: "idequeue s3 = Some (fst r')" "snd r' = (b_dirty (bufs s3 ! fst r'), b_blockno (bufs s3 ! fst r'))"
      using p3 by (auto simp: pending_ok_def)
    then have "idestart (Some (fst r')) st' s3 = Inr t" using s3(1) by simp
    from idestart_command [OF this] show ?thesis using q Cons s3(4) by simp
  qed
  have "pending_ok t (waiting x) rs = pending_ok s3 (waiting x) rs" "waiters_ok t (waiting x) q = waiters_ok s3 (waiting x) q" for q
    unfolding pending_ok_def waiters_ok_def using t by simp_all
  then have "pending_ok t (waiting x) rs" "waiters_ok t (waiting x) (fst ` set rs)" using p3 w3 by blast+
  moreover have "decode (\<lambda>_. 0) (ports t) = map snd (take (Suc (nserved x) + (if rs = [] then 0 else 1)) (reqs x))"
  proof -
    have "take (Suc (nserved x) + (if rs = [] then 0 else 1)) (reqs x) = take (Suc (nserved x)) (reqs x) @ take 1 rs"
      unfolding take_add rs' by (cases rs) auto
    then show ?thesis using t dec rs(1) by simp
  qed
  ultimately show ?thesis using lt Some by (simp add: ide_inv_def rs')
qed

interpretation ide_system: inv_system ide_init "\<lambda>x y. \<exists>l. istep x l y" ide_inv
proof
  show "ide_inv x" if "ide_init x" for x using that by (rule ide_inv_init)
  show "ide_inv y" if inv: "ide_inv x" and st: "\<exists>l. istep x l y" for x y
  proof -
    obtain l where "istep x l y" using st by blast
    then show ?thesis
    proof cases
      case (request p i st fin s)
      then show ?thesis using ide_inv_request [OF inv] by simp
    next
      case (intr st d st' s)
      then show ?thesis using ide_inv_intr [OF inv] by simp
    next
      case (recheck p i fin s)
      then show ?thesis using ide_inv_recheck [OF inv] by simp
    next
      case (sched ps)
      then show ?thesis using ide_inv_sched [OF inv] by simp
    next
      case (touch i f)
      then show ?thesis using ide_inv_touch [OF inv] by simp
    qed
  qed
qed

section \<open>Service\<close>

text \<open>In a run requests are only added, and each interrupt serves one while there is one.\<close>

lemma istep_progress:
  assumes "ide_inv x" "istep x l y"
  shows "\<exists>rs. reqs y = reqs x @ rs \<and> min (length (reqs x)) (nserved x + (if l then 1 else 0)) \<le> nserved y"
  using assms(2)
proof cases
  case (intr st d st' s)
  have "length (reqs x) \<le> nserved x" if "idequeue (kst x) = None"
    using assms(1) that by (cases "pending x") (auto simp: ide_inv_def pending_ok_def)
  then show ?thesis using intr by auto
qed auto

lemma irun_progress:
  assumes "irun x n y" "ide_inv x"
  shows "ide_inv y \<and> (\<exists>rs. reqs y = reqs x @ rs) \<and> min (length (reqs x)) (nserved x + n) \<le> nserved y"
  using assms
proof (induction rule: irun.induct)
  case (irun_step x n y l z)
  then have y: "ide_inv y" "\<exists>rs. reqs y = reqs x @ rs" "min (length (reqs x)) (nserved x + n) \<le> nserved y" by blast+
  then obtain rs where rs: "reqs y = reqs x @ rs" by blast
  obtain rs' where z: "reqs z = reqs y @ rs'" "min (length (reqs y)) (nserved y + (if l then 1 else 0)) \<le> nserved z"
    using istep_progress [OF y(1) irun_step.hyps(2)] by blast
  have "ide_inv z" using ide_system.inv_step [OF y(1)] irun_step.hyps(2) by blast
  then show ?case using z rs y(3) by auto
qed auto

text \<open>
  C38. Requests to the disk are served in the order in which they are made, and no wakeup is
  lost. In every run from a reachable state with \<open>n\<close> interrupts, whatever else happens, the
  number of requests served afterwards is at least \<open>n\<close> more than before, unless all requests
  made before are served; the commands the device was given are the requests, in order, up
  to the first one not served, each with its direction and block; and a process asleep in
  \<^verbatim>\<open>iderw\<close> waits for a request that is still to be served.
\<close>

theorem ide_requests_served:
  assumes "reach ide_init (\<lambda>x y. \<exists>l. istep x l y) x" "irun x n y"
  shows "(\<exists>rs. reqs y = reqs x @ rs) \<and> min (length (reqs x)) (nserved x + n) \<le> nserved y \<and> nserved y \<le> length (reqs y) \<and>
    decode (\<lambda>_. 0) (ports (kst y)) = map snd (take (nserved y + 1) (reqs y)) \<and>
    (\<forall>p i. ide_asleep p i (procs (kst y)) \<longrightarrow> waiting y p = Some i \<and> i \<in> fst ` set (drop (nserved y) (reqs y)))"
proof -
  have inv: "ide_inv x" by (rule ide_system.reach_inv [OF assms(1)])
  note r = irun_progress [OF assms(2) inv]
  then have "ide_inv y" by blast
  then show ?thesis using r by (auto simp: ide_inv_def waiters_ok_def split: if_splits)
qed

text \<open>One process reads block 5.\<close>

definition ide_sample :: ide where
  "ide_sample = (bstate.extend boot_bstate (ide.fields None (\<lambda>_. None) False []))
     \<lparr>procs := [proc0\<lparr>p_state := RUNNING, p_pid := 7\<rparr>],
      bufs := [\<lparr>b_valid = False, b_dirty = False, b_dev = 0, b_blockno = 5, b_lock = \<lparr>slocked = True, spid = 7\<rparr>,
                b_refcnt = 1, b_data = (\<lambda>_. 0)\<rparr>]\<rparr>"

lemma ide_sample_fields: "idequeue ide_sample = None" "ports ide_sample = []" "procs ide_sample = [proc0\<lparr>p_state := RUNNING, p_pid := 7\<rparr>]"
  "bufs ide_sample = [\<lparr>b_valid = False, b_dirty = False, b_dev = 0, b_blockno = 5, b_lock = \<lparr>slocked = True, spid = 7\<rparr>,
                b_refcnt = 1, b_data = (\<lambda>_. 0)\<rparr>]" "qnext ide_sample = (\<lambda>_. None)"
  by (simp_all add: ide_sample_def boot_bstate_def bstate.defs ide.defs)

abbreviation isys_sample :: isys where
  "isys_sample \<equiv> \<lparr>kst = ide_sample, waiting = (\<lambda>_. None), reqs = [], nserved = 0\<rparr>"

lemma ide_sample_request: "\<exists>s. ide_request 0 0 [0x40] ide_sample = Inr (False, s) \<and> idequeue s = Some 0 \<and> bufs s = bufs ide_sample \<and> qnext s 0 = None"
  by (simp add: ide_request_def ide_sample_fields holdingsleep_def ide_append_def Let_def idestart_def iderw_wait_def)

theorem ide_requests_served_witness:
  "\<exists>x y. reach ide_init (\<lambda>x y. \<exists>l. istep x l y) x \<and> irun x 1 y \<and> reqs x = [(0, False, 5)] \<and> nserved x = 0 \<and> nserved y = 1 \<and>
     decode (\<lambda>_. 0) (ports (kst y)) = [(False, 5)]"
proof -
  obtain s where s: "ide_request 0 0 [0x40] ide_sample = Inr (False, s)" "idequeue s = Some 0" "bufs s = bufs ide_sample" "qnext s 0 = None"
    using ide_sample_request by blast
  define x where "x = \<lparr>kst = s, waiting = (\<lambda>_. None)(0 := Some 0), reqs = [(0, False, 5)], nserved = 0\<rparr>"
  have "ide_init isys_sample" by (auto simp: ide_init_def ide_sample_fields ide_asleep_def)
  moreover have "istep isys_sample False x"
    using istep.request [of isys_sample 0 0 "[0x40]" False s] s(1) by (simp add: x_def ide_sample_fields)
  ultimately have rx: "reach ide_init (\<lambda>x y. \<exists>l. istep x l y) x"
    using reach_step [OF reach_init [of ide_init isys_sample], of "\<lambda>x y. \<exists>l. istep x l y" x] by blast
  obtain t where t: "ideintr [0x40] (\<lambda>_. 1) [] s = Inr t"
    using s(2-4) by (simp add: ideintr_def ide_sample_fields Let_def upd_buf_def wakeup_def)
  define y where "y = x\<lparr>kst := t, nserved := 1\<rparr>"
  have "istep x True y" using istep.intr [of "[0x40]" "\<lambda>_. 1" "[]" x t] t s(2) by (simp add: x_def y_def)
  then have ry: "irun x 1 y" using irun_step [OF irun_nil [of x], of True y] by simp
  from ide_requests_served [OF rx ry] rx ry show ?thesis by (intro exI [of _ x] exI [of _ y]) (simp add: x_def y_def)
qed

end
