(* ===== verification/Inode.thy ===== *)
theory Inode
  imports Log
begin

text \<open>
  The block allocator and the inodes of \<^verbatim>\<open>fs.c\<close> (up to \<^verbatim>\<open>stati\<close>), with the on-disk format of
  \<^verbatim>\<open>fs.h\<close>. A pointer to an inode is its index in \<^verbatim>\<open>icache.inode\<close>; waiting for an inode's sleep lock
  is the result \<open>Blocked\<close>.
\<close>

section \<open>State (fs.h, file.h)\<close>

abbreviation NDIRECT :: nat where "NDIRECT \<equiv> 12"
abbreviation NINDIRECT :: nat where "NINDIRECT \<equiv> 128"
abbreviation MAXFILE :: nat where "MAXFILE \<equiv> 140"
abbreviation IPB :: nat where "IPB \<equiv> 8"
abbreviation BPB :: nat where "BPB \<equiv> 4096"
abbreviation NINODE :: nat where "NINODE \<equiv> 50"
abbreviation ROOTINO :: nat where "ROOTINO \<equiv> 1"
abbreviation T_DIR :: ushort where "T_DIR \<equiv> 1"
abbreviation T_FILE :: ushort where "T_FILE \<equiv> 2"
abbreviation T_DEV :: ushort where "T_DEV \<equiv> 3"

record inode =
  i_dev :: uint
  i_inum :: nat
  i_ref :: int
  i_lock :: sleeplock
  i_valid :: bool
  i_type :: ushort
  i_major :: ushort
  i_minor :: ushort
  i_nlink :: ushort
  i_size :: uint
  i_addrs :: "uint list"

record stat =
  st_type :: ushort
  st_dev :: uint
  st_ino :: nat
  st_nlink :: ushort
  st_size :: uint

record istate = lstate +
  sb :: superblock
  inodes :: "inode list"

definition IBLOCK :: "nat \<Rightarrow> superblock \<Rightarrow> nat" where
  "IBLOCK i spb = i div IPB + sb_inodestart spb"

definition BBLOCK :: "nat \<Rightarrow> superblock \<Rightarrow> nat" where
  "BBLOCK b spb = b div BPB + sb_bmapstart spb"

definition upd_inode :: "nat \<Rightarrow> (inode \<Rightarrow> inode) \<Rightarrow> 'a istate_scheme \<Rightarrow> 'a istate_scheme" where
  "upd_inode ip f s = s\<lparr>inodes := (inodes s)[ip := f (inodes s ! ip)]\<rparr>"

section \<open>Blocks\<close>

definition bzero :: "uint \<Rightarrow> nat \<Rightarrow> 'a istate_scheme \<Rightarrow> 'a istate_scheme res" where
  "bzero dev bno s =
     rbind (bread dev bno s) (\<lambda>(bp, s1).
     rbind (log_write bp (set_data bp (memset (b_data (bufs s1 ! bp)) 0 0 BSIZE) s1)) (\<lambda>s2.
     brelse bp s2))"

text \<open>The bit of block \<open>bi\<close> in a bitmap block: tested, set and cleared with the mask \<^verbatim>\<open>1 << (bi % 8)\<close>.\<close>

definition bmask :: "nat \<Rightarrow> uchar" where
  "bmask bi = push_bit (bi mod 8) 1"

definition bit_clear :: "bytes \<Rightarrow> nat \<Rightarrow> bool" where
  "bit_clear d bi \<longleftrightarrow> d (bi div 8) AND bmask bi = 0"

definition mark_used :: "nat \<Rightarrow> bytes \<Rightarrow> bytes" where
  "mark_used bi d = d(bi div 8 := d (bi div 8) OR bmask bi)"

definition mark_free :: "nat \<Rightarrow> bytes \<Rightarrow> bytes" where
  "mark_free bi d = d(bi div 8 := d (bi div 8) AND NOT (bmask bi))"

primrec balloc_loop :: "uint \<Rightarrow> nat list \<Rightarrow> 'a istate_scheme \<Rightarrow> (nat \<times> 'a istate_scheme) res" where
  "balloc_loop dev [] s = Inl (Panic ''balloc: out of blocks'')"
| "balloc_loop dev (b # bs) s =
     rbind (bread dev (BBLOCK b (sb s)) s) (\<lambda>(bp, s1).
     let d = b_data (bufs s1 ! bp)
     in case find (bit_clear d) [0..<min BPB (sb_size (sb s) - b)] of
          Some bi \<Rightarrow>
            rbind (log_write bp (set_data bp (mark_used bi d) s1)) (\<lambda>s2.
            rbind (brelse bp s2) (\<lambda>s3.
            rbind (bzero dev (b + bi) s3) (\<lambda>s4.
            Inr (b + bi, s4))))
        | None \<Rightarrow> rbind (brelse bp s1) (\<lambda>s2. balloc_loop dev bs s2))"

text \<open>The loop runs \<^verbatim>\<open>b\<close> over the multiples of \<^verbatim>\<open>BPB\<close> below \<^verbatim>\<open>sb.size\<close>.\<close>

definition balloc :: "uint \<Rightarrow> 'a istate_scheme \<Rightarrow> (nat \<times> 'a istate_scheme) res" where
  "balloc dev s = balloc_loop dev (map (\<lambda>k. k * BPB) [0..<(sb_size (sb s) + BPB - 1) div BPB]) s"

definition bfree :: "uint \<Rightarrow> nat \<Rightarrow> 'a istate_scheme \<Rightarrow> 'a istate_scheme res" where
  "bfree dev b s =
     rbind (bread dev (BBLOCK b (sb s)) s) (\<lambda>(bp, s1).
     let bi = b mod BPB; d = b_data (bufs s1 ! bp)
     in if bit_clear d bi then Inl (Panic ''freeing free block'')
        else rbind (log_write bp (set_data bp (mark_free bi d) s1)) (\<lambda>s2.
             brelse bp s2))"

section \<open>Inodes\<close>

text \<open>The in-memory image of the dinode of 64 bytes at offset \<open>o\<close> of a block, and its inverse.\<close>

definition get_dinode :: "bytes \<Rightarrow> nat \<Rightarrow> inode \<Rightarrow> inode" where
  "get_dinode d k ip = ip\<lparr>i_type := rd16 d k, i_major := rd16 d (k + 2), i_minor := rd16 d (k + 4),
     i_nlink := rd16 d (k + 6), i_size := rd32 d (k + 8), i_addrs := map (\<lambda>j. rd32 d (k + 12 + 4 * j)) [0..<NDIRECT + 1]\<rparr>"

definition put_dinode :: "inode \<Rightarrow> nat \<Rightarrow> bytes \<Rightarrow> bytes" where
  "put_dinode ip k d =
     fold (\<lambda>j f. wr32 f (k + 12 + 4 * j) (i_addrs ip ! j)) [0..<NDIRECT + 1]
       (wr32 (wr16 (wr16 (wr16 (wr16 d k (i_type ip)) (k + 2) (i_major ip)) (k + 4) (i_minor ip)) (k + 6) (i_nlink ip))
         (k + 8) (i_size ip))"

definition dip :: "nat \<Rightarrow> nat" where
  "dip inum = 64 * (inum mod IPB)"

definition iinit :: "uint \<Rightarrow> 'a istate_scheme \<Rightarrow> 'a istate_scheme res" where
  "iinit dev s =
     rbind (readsb dev (s\<lparr>inodes := map (\<lambda>ip. ip\<lparr>i_lock := initsleeplock\<rparr>) (inodes s)\<rparr>)) (\<lambda>(sb', s1).
     Inr (s1\<lparr>sb := sb'\<rparr>))"

definition iget :: "uint \<Rightarrow> nat \<Rightarrow> 'a istate_scheme \<Rightarrow> (nat \<times> 'a istate_scheme) res" where
  "iget dev inum s =
     (case find (\<lambda>k. i_ref (inodes s ! k) > 0 \<and> i_dev (inodes s ! k) = dev \<and> i_inum (inodes s ! k) = inum)
             [0..<length (inodes s)] of
        Some k \<Rightarrow> Inr (k, upd_inode k (\<lambda>ip. ip\<lparr>i_ref := i_ref ip + 1\<rparr>) s)
      | None \<Rightarrow>
          (case find (\<lambda>k. i_ref (inodes s ! k) = 0) [0..<length (inodes s)] of
             None \<Rightarrow> Inl (Panic ''iget: no inodes'')
           | Some k \<Rightarrow> Inr (k, upd_inode k (\<lambda>ip. ip\<lparr>i_dev := dev, i_inum := inum, i_ref := 1, i_valid := False\<rparr>) s)))"

primrec ialloc_loop :: "uint \<Rightarrow> ushort \<Rightarrow> nat list \<Rightarrow> 'a istate_scheme \<Rightarrow> (nat \<times> 'a istate_scheme) res" where
  "ialloc_loop dev type [] s = Inl (Panic ''ialloc: no inodes'')"
| "ialloc_loop dev type (inum # inums) s =
     rbind (bread dev (IBLOCK inum (sb s)) s) (\<lambda>(bp, s1).
     let d = b_data (bufs s1 ! bp)
     in if rd16 d (dip inum) = 0
        then rbind (log_write bp (set_data bp (wr16 (memset d (dip inum) 0 64) (dip inum) type) s1)) (\<lambda>s2.
             rbind (brelse bp s2) (\<lambda>s3.
             iget dev inum s3))
        else rbind (brelse bp s1) (\<lambda>s2. ialloc_loop dev type inums s2))"

definition ialloc :: "uint \<Rightarrow> ushort \<Rightarrow> 'a istate_scheme \<Rightarrow> (nat \<times> 'a istate_scheme) res" where
  "ialloc dev type s = ialloc_loop dev type [1..<sb_ninodes (sb s)] s"

definition iupdate :: "nat \<Rightarrow> 'a istate_scheme \<Rightarrow> 'a istate_scheme res" where
  "iupdate ip s =
     (let i = inodes s ! ip
      in rbind (bread (i_dev i) (IBLOCK (i_inum i) (sb s)) s) (\<lambda>(bp, s1).
         rbind (log_write bp (set_data bp (put_dinode i (dip (i_inum i)) (b_data (bufs s1 ! bp))) s1)) (\<lambda>s2.
         brelse bp s2)))"

definition idup :: "nat \<Rightarrow> 'a istate_scheme \<Rightarrow> nat \<times> 'a istate_scheme" where
  "idup ip s = (ip, upd_inode ip (\<lambda>i. i\<lparr>i_ref := i_ref i + 1\<rparr>) s)"

text \<open>The sleep lock routines on \<^verbatim>\<open>ip->lock\<close>.\<close>

definition acquire_inode :: "nat \<Rightarrow> 'a istate_scheme \<Rightarrow> 'a istate_scheme res" where
  "acquire_inode ip s =
     rbind (myproc s) (\<lambda>p.
     case acquiresleep_round (ChanInode ip) p (i_lock (inodes s ! ip)) (procs s) of
       (got, lk, ps) \<Rightarrow>
         if got then Inr (upd_inode ip (\<lambda>i. i\<lparr>i_lock := lk\<rparr>) (s\<lparr>procs := ps\<rparr>))
         else Inl (Blocked ''acquiresleep''))"

definition release_inode :: "nat \<Rightarrow> 'a istate_scheme \<Rightarrow> 'a istate_scheme" where
  "release_inode ip s =
     (case releasesleep (ChanInode ip) (i_lock (inodes s ! ip)) (procs s) of
        (lk, ps) \<Rightarrow> upd_inode ip (\<lambda>i. i\<lparr>i_lock := lk\<rparr>) (s\<lparr>procs := ps\<rparr>))"

definition holding_inode :: "nat \<Rightarrow> 'a istate_scheme \<Rightarrow> bool res" where
  "holding_inode ip s = rbind (myproc s) (\<lambda>p. Inr (holdingsleep p (i_lock (inodes s ! ip)) (procs s)))"

definition ilock :: "nat option \<Rightarrow> 'a istate_scheme \<Rightarrow> 'a istate_scheme res" where
  "ilock ipp s =
     (case ipp of
        None \<Rightarrow> Inl (Panic ''ilock'')
      | Some ip \<Rightarrow>
          if i_ref (inodes s ! ip) < 1 then Inl (Panic ''ilock'')
          else rbind (acquire_inode ip s) (\<lambda>s1.
               let i = inodes s1 ! ip
               in if \<not> i_valid i
                  then rbind (bread (i_dev i) (IBLOCK (i_inum i) (sb s1)) s1) (\<lambda>(bp, s2).
                       let s3 = upd_inode ip (get_dinode (b_data (bufs s2 ! bp)) (dip (i_inum i))) s2
                       in rbind (brelse bp s3) (\<lambda>s4.
                          let s5 = upd_inode ip (\<lambda>i. i\<lparr>i_valid := True\<rparr>) s4
                          in if i_type (inodes s5 ! ip) = 0 then Inl (Panic ''ilock: no type'') else Inr s5))
                  else Inr s1))"

definition iunlock :: "nat option \<Rightarrow> 'a istate_scheme \<Rightarrow> 'a istate_scheme res" where
  "iunlock ipp s =
     (case ipp of
        None \<Rightarrow> Inl (Panic ''iunlock'')
      | Some ip \<Rightarrow>
          rbind (holding_inode ip s) (\<lambda>h.
          if \<not> h \<or> i_ref (inodes s ! ip) < 1 then Inl (Panic ''iunlock'') else Inr (release_inode ip s)))"

definition trunc_direct :: "nat \<Rightarrow> nat \<Rightarrow> 'a istate_scheme \<Rightarrow> 'a istate_scheme res" where
  "trunc_direct ip k s =
     (let i = inodes s ! ip
      in if i_addrs i ! k \<noteq> 0
         then rbind (bfree (i_dev i) (unat (i_addrs i ! k)) s) (\<lambda>s1.
              Inr (upd_inode ip (\<lambda>i. i\<lparr>i_addrs := (i_addrs i)[k := 0]\<rparr>) s1))
         else Inr s)"

definition trunc_indirect :: "uint \<Rightarrow> nat \<Rightarrow> nat \<Rightarrow> 'a istate_scheme \<Rightarrow> 'a istate_scheme res" where
  "trunc_indirect dev bp j s =
     (let a = rd32 (b_data (bufs s ! bp)) (4 * j)
      in if a \<noteq> 0 then bfree dev (unat a) s else Inr s)"

definition itrunc :: "nat \<Rightarrow> 'a istate_scheme \<Rightarrow> 'a istate_scheme res" where
  "itrunc ip s =
     rbind (rfold (trunc_direct ip) [0..<NDIRECT] s) (\<lambda>s1.
     let i = inodes s1 ! ip; a = unat (i_addrs i ! NDIRECT)
     in rbind (if i_addrs i ! NDIRECT \<noteq> 0
               then rbind (bread (i_dev i) a s1) (\<lambda>(bp, s2).
                    rbind (rfold (trunc_indirect (i_dev i) bp) [0..<NINDIRECT] s2) (\<lambda>s3.
                    rbind (brelse bp s3) (\<lambda>s4.
                    rbind (bfree (i_dev i) a s4) (\<lambda>s5.
                    Inr (upd_inode ip (\<lambda>i. i\<lparr>i_addrs := (i_addrs i)[NDIRECT := 0]\<rparr>) s5)))))
               else Inr s1) (\<lambda>s6.
        iupdate ip (upd_inode ip (\<lambda>i. i\<lparr>i_size := 0\<rparr>) s6)))"

definition iput :: "nat \<Rightarrow> 'a istate_scheme \<Rightarrow> 'a istate_scheme res" where
  "iput ip s =
     rbind (acquire_inode ip s) (\<lambda>s1.
     let i = inodes s1 ! ip
     in rbind (if i_valid i \<and> i_nlink i = 0 \<and> i_ref i = 1
               then rbind (itrunc ip s1) (\<lambda>s2.
                    rbind (iupdate ip (upd_inode ip (\<lambda>i. i\<lparr>i_type := 0\<rparr>) s2)) (\<lambda>s3.
                    Inr (upd_inode ip (\<lambda>i. i\<lparr>i_valid := False\<rparr>) s3)))
               else Inr s1) (\<lambda>s4.
        Inr (upd_inode ip (\<lambda>i. i\<lparr>i_ref := i_ref i - 1\<rparr>) (release_inode ip s4))))"

definition iunlockput :: "nat \<Rightarrow> 'a istate_scheme \<Rightarrow> 'a istate_scheme res" where
  "iunlockput ip s = rbind (iunlock (Some ip) s) (\<lambda>s1. iput ip s1)"

definition bmap :: "nat \<Rightarrow> nat \<Rightarrow> 'a istate_scheme \<Rightarrow> (nat \<times> 'a istate_scheme) res" where
  "bmap ip bn s =
     (let i = inodes s ! ip
      in if bn < NDIRECT
         then if i_addrs i ! bn = 0
              then rbind (balloc (i_dev i) s) (\<lambda>(addr, s1).
                   Inr (addr, upd_inode ip (\<lambda>i. i\<lparr>i_addrs := (i_addrs i)[bn := of_nat addr]\<rparr>) s1))
              else Inr (unat (i_addrs i ! bn), s)
         else if bn - NDIRECT < NINDIRECT
         then rbind (if i_addrs i ! NDIRECT = 0
                     then rbind (balloc (i_dev i) s) (\<lambda>(addr, s1).
                          Inr (addr, upd_inode ip (\<lambda>i. i\<lparr>i_addrs := (i_addrs i)[NDIRECT := of_nat addr]\<rparr>) s1))
                     else Inr (unat (i_addrs i ! NDIRECT), s)) (\<lambda>(ind, s2).
              rbind (bread (i_dev i) ind s2) (\<lambda>(bp, s3).
              let a = rd32 (b_data (bufs s3 ! bp)) (4 * (bn - NDIRECT))
              in if a = 0
                 then rbind (balloc (i_dev i) s3) (\<lambda>(addr, s4).
                      rbind (log_write bp (set_data bp
                               (wr32 (b_data (bufs s4 ! bp)) (4 * (bn - NDIRECT)) (of_nat addr)) s4)) (\<lambda>s5.
                      rbind (brelse bp s5) (\<lambda>s6.
                      Inr (addr, s6))))
                 else rbind (brelse bp s3) (\<lambda>s4. Inr (unat a, s4))))
         else Inl (Panic ''bmap: out of range''))"

definition stati :: "inode \<Rightarrow> stat" where
  "stati ip = \<lparr>st_type = i_type ip, st_dev = i_dev ip, st_ino = i_inum ip, st_nlink = i_nlink ip, st_size = i_size ip\<rparr>"

end
