(* ===== verification/Ring.thy ===== *)
theory Ring
  imports Prelude
begin

text \<open>
  Ring buffers indexed by free-running 32 bit counters, as in \<^verbatim>\<open>pipe.c\<close> (512 bytes) and
  \<^verbatim>\<open>console.c\<close> (128 bytes). Position \<open>w\<close> of the stream is stored at \<open>w mod N\<close>; the counters wrap
  around, which is harmless because \<open>N\<close> divides \<open>2 ^ 32\<close>.
\<close>

text \<open>The stored bytes from position \<open>r\<close> up to position \<open>w\<close>.\<close>

definition ring_bytes :: "nat \<Rightarrow> bytes \<Rightarrow> uint \<Rightarrow> uint \<Rightarrow> uchar list" where
  "ring_bytes N d r w = map (\<lambda>k. d (unat (r + of_nat k) mod N)) [0..<unat (w - r)]"

lemma unat_diff_Suc:
  fixes r w :: uint
  assumes "r \<noteq> w"
  shows "unat (w - r) = Suc (unat (w - (r + 1)))"
proof -
  have "w - r \<noteq> 0" using assms by simp
  then have "unat (w - r) \<noteq> 0" by (simp add: unat_eq_zero)
  moreover have "unat (w - r - 1) = unat (w - r) - 1" by (rule unat_minus_one) (use assms in simp)
  ultimately show ?thesis by (simp add: algebra_simps)
qed

locale ring =
  fixes N :: nat
  assumes pos: "0 < N" and divides: "N dvd 2 ^ 32" and small: "N < 2 ^ 32"
begin

lemma add_mod: "unat (r + of_nat k :: uint) mod N = (unat r + k) mod N"
proof -
  have "unat (r + of_nat k :: uint) = (unat r + k) mod 2 ^ 32"
    by (simp add: unat_word_ariths unat_of_nat mod_add_right_eq)
  then show ?thesis using divides by (simp add: mod_mod_cancel)
qed

text \<open>Two positions less than \<open>N\<close> apart are stored in different places.\<close>

lemma slots_differ:
  assumes "j < N" "k < N" "j \<noteq> k"
  shows "unat (r + of_nat j :: uint) mod N \<noteq> unat (r + of_nat k :: uint) mod N"
proof
  assume "unat (r + of_nat j :: uint) mod N = unat (r + of_nat k :: uint) mod N"
  then have "(unat r + j) mod N = (unat r + k) mod N" by (simp add: add_mod)
  then have eq: "(unat r + j) mod N = (unat r + k) mod N" "(unat r + k) mod N = (unat r + j) mod N" by simp_all
  show False
  proof (cases "j < k")
    case True
    with eq(2) have "N dvd k - j" by (subst (asm) mod_eq_dvd_iff_nat) simp_all
    with True assms show False by (auto dest: dvd_imp_le)
  next
    case False
    with eq(1) have "N dvd j - k" by (subst (asm) mod_eq_dvd_iff_nat) simp_all
    with False assms show False by (auto dest: dvd_imp_le)
  qed
qed

text \<open>Reading one byte and storing one byte, as the code does it.\<close>

lemma get:
  assumes "r \<noteq> w"
  shows "ring_bytes N d r w = d (unat r mod N) # ring_bytes N d (r + 1) w"
proof -
  have u: "[0..<Suc n] = 0 # map Suc [0..<n]" for n
    by (simp add: map_Suc_upt upt_conv_Cons del: upt_Suc)
  show ?thesis
    unfolding ring_bytes_def unat_diff_Suc [OF assms] u by (simp add: comp_def add.assoc)
qed

lemma put:
  assumes "unat (w - r) < N"
  shows "ring_bytes N (d(unat w mod N := c)) r (w + 1) = ring_bytes N d r w @ [c]"
proof -
  let ?n = "unat (w - r)"
  have w: "w = r + of_nat ?n" by simp
  have "w - r \<noteq> - 1"
  proof
    assume "w - r = - 1"
    then have "?n = 2 ^ 32 - 1" by (simp add: unsigned_minus_1_eq_mask mask_eq_exp_minus_1)
    with assms small show False by simp
  qed
  then have "unat (1 + (w - r)) = Suc ?n" by (intro unatSuc) (metis add.commute eq_neg_iff_add_eq_0)
  then have n: "unat (w + 1 - r) = Suc ?n" by (simp add: algebra_simps)
  have "(d(unat w mod N := c)) (unat (r + of_nat k) mod N) = d (unat (r + of_nat k) mod N)" if "k < ?n" for k
  proof -
    have "unat (r + of_nat k) mod N \<noteq> unat w mod N"
      using slots_differ [of k ?n r] that assms by simp
    then show ?thesis by simp
  qed
  then show ?thesis unfolding ring_bytes_def n by simp
qed

text \<open>The same facts for positions given as distances \<open>a \<le> m\<close> from \<open>r\<close>, all within one round of the buffer.\<close>

lemma unat_dist: "a < 2 ^ 32 \<Longrightarrow> unat (r + of_nat a - r :: uint) = a"
  by (simp add: unat_of_nat)

lemma unat_dist2:
  assumes "a \<le> m" "m < 2 ^ 32"
  shows "unat (r + of_nat m - (r + of_nat a) :: uint) = m - a"
proof -
  have eq: "r + of_nat m - (r + of_nat a) = (of_nat (m - a) :: uint)" using assms by (simp add: of_nat_diff)
  show ?thesis unfolding eq using assms by (simp add: unat_of_nat del: of_nat_diff)
qed

lemma bytes_from:
  assumes "a \<le> m" "m < 2 ^ 32"
  shows "ring_bytes N d (r + of_nat a) (r + of_nat m) = map (\<lambda>k. d ((unat r + k) mod N)) [a..<m]"
proof -
  have "ring_bytes N d (r + of_nat a) (r + of_nat m) = map (\<lambda>k. d (unat (r + of_nat (a + k)) mod N)) [0..<m - a]"
    unfolding ring_bytes_def unat_dist2 [OF assms] by (simp add: add.assoc)
  also have "\<dots> = map (\<lambda>k. d ((unat r + k) mod N)) (map (\<lambda>k. k + a) [0..<m - a])"
    unfolding add_mod by (simp add: comp_def ac_simps)
  also have "map (\<lambda>k. k + a) [0..<m - a] = [a..<m]" using assms by (simp add: map_add_upt)
  finally show ?thesis .
qed

lemma put_frame:
  assumes "a \<le> m" "m < N"
  shows "ring_bytes N (d(unat (r + of_nat m) mod N := c)) r (r + of_nat a) = ring_bytes N d r (r + of_nat a)"
proof -
  have "(unat r + k) mod N \<noteq> unat (r + of_nat m) mod N" if "k < a" for k
    using slots_differ [of k m r] that assms by (simp add: add_mod)
  then show ?thesis
    using bytes_from [of 0 a "d(unat (r + of_nat m) mod N := c)" r] bytes_from [of 0 a d r] assms small by simp
qed

end

end
