(* ===== verification/Console.thy ===== *)
theory Console
  imports Inode Ring
begin

text \<open>
  The console of \<^verbatim>\<open>console.c\<close>: number formatting and \<^verbatim>\<open>cprintf\<close>, the CGA screen, the line-editing
  input buffer filled by the interrupt handler, and the console device that \<^verbatim>\<open>readi\<close> and
  \<^verbatim>\<open>writei\<close> reach through \<^verbatim>\<open>devsw\<close>. The serial port is the sequence of bytes sent to it; the cursor
  registers of the CGA are \<open>crt_pos\<close>.
\<close>

section \<open>State\<close>

abbreviation INPUT_BUF :: nat where "INPUT_BUF \<equiv> 128"
abbreviation BACKSPACE :: int where "BACKSPACE \<equiv> 0x100"
abbreviation NDEV :: nat where "NDEV \<equiv> 10"
abbreviation CONSOLE :: nat where "CONSOLE \<equiv> 1"

text \<open>An entry of \<^verbatim>\<open>devsw\<close>: its two functions are both null or both those of the console.\<close>

datatype devops = DevNull | DevConsole

record cstate = istate +
  crt :: "nat \<Rightarrow> ushort"
  crt_pos :: nat
  uart_out :: "uchar list"
  input_buf :: bytes
  input_r :: uint
  input_w :: uint
  input_e :: uint
  devsw :: "devops list"

section \<open>Output\<close>

definition cga_char :: "int \<Rightarrow> ushort" where
  "cga_char c = ucast (of_int c :: uchar) OR 0x0700"

text \<open>The cursor after character \<open>c\<close>, before scrolling.\<close>

definition cga_move :: "int \<Rightarrow> nat \<Rightarrow> nat" where
  "cga_move c pos = (if c = 10 then pos + (80 - pos mod 80)
     else if c = BACKSPACE then (if pos > 0 then pos - 1 else pos) else pos + 1)"

text \<open>Scrolling one line up with the cursor at \<open>pos\<close> (already moved up) and clearing from there on.\<close>

definition scroll_up :: "nat \<Rightarrow> (nat \<Rightarrow> ushort) \<Rightarrow> nat \<Rightarrow> ushort" where
  "scroll_up pos g = (\<lambda>k. if pos \<le> k \<and> k < 24 * 80 then 0 else if k < 23 * 80 then g (k + 80) else g k)"

definition cgaputc :: "int \<Rightarrow> 'a cstate_scheme \<Rightarrow> 'a cstate_scheme res" where
  "cgaputc c s =
     (let pos1 = cga_move c (crt_pos s);
          crt1 = (if c = 10 \<or> c = BACKSPACE then crt s else (crt s)(crt_pos s := cga_char c))
      in if pos1 > 25 * 80 then Inl (Panic ''pos under/overflow'')
         else if pos1 div 80 \<ge> 24
         then Inr (s\<lparr>crt_pos := pos1 - 80, crt := (scroll_up (pos1 - 80) crt1)(pos1 - 80 := cga_char 32)\<rparr>)
         else Inr (s\<lparr>crt_pos := pos1, crt := crt1(pos1 := cga_char 32)\<rparr>))"

definition uartputc :: "int \<Rightarrow> 'a cstate_scheme \<Rightarrow> 'a cstate_scheme" where
  "uartputc c s = s\<lparr>uart_out := uart_out s @ [of_int c]\<rparr>"

definition consputc :: "int \<Rightarrow> 'a cstate_scheme \<Rightarrow> 'a cstate_scheme res" where
  "consputc c s =
     cgaputc c (if c = BACKSPACE then uartputc 8 (uartputc 32 (uartputc 8 s)) else uartputc c s)"

definition putchars :: "int list \<Rightarrow> 'a cstate_scheme \<Rightarrow> 'a cstate_scheme res" where
  "putchars cs s = rfold consputc cs s"

text \<open>
  The digits of \<open>x\<close>, least significant first: the first loop of \<^verbatim>\<open>printint\<close>, which fills \<^verbatim>\<open>buf\<close>
  from index 0. The base is 10 or 16.
\<close>

definition digit :: "nat \<Rightarrow> int" where
  "digit d = (if d < 10 then 48 + int d else 87 + int d)"

function int_digits :: "nat \<Rightarrow> nat \<Rightarrow> int list" where
  "int_digits base x =
     digit (x mod base) # (if base \<ge> 2 \<and> x div base \<noteq> 0 then int_digits base (x div base) else [])"
  by auto
termination
  by (relation "measure snd") (auto intro!: div_less_dividend simp: div_greater_zero_iff)

definition printint_chars :: "uint \<Rightarrow> nat \<Rightarrow> bool \<Rightarrow> int list" where
  "printint_chars xx base sign =
     (let neg = sign \<and> sint xx < 0;
          x = (if neg then - xx else xx)
      in rev (int_digits base (unat x) @ (if neg then [45] else [])))"

definition printint :: "uint \<Rightarrow> nat \<Rightarrow> bool \<Rightarrow> 'a cstate_scheme \<Rightarrow> 'a cstate_scheme res" where
  "printint xx base sign s = putchars (printint_chars xx base sign) s"

text \<open>
  An argument of \<^verbatim>\<open>cprintf\<close> is a word, or a string pointer (\<open>None\<close> is null). A format that
  consumes more arguments than there are, or of the wrong kind, reads whatever the stack
  holds.
\<close>

datatype parg = PInt uint | PStr "uchar list option"

definition null_str :: "int list" where
  "null_str = [40, 110, 117, 108, 108, 41]"

fun cprintf_loop :: "uchar list \<Rightarrow> parg list \<Rightarrow> 'a cstate_scheme \<Rightarrow> 'a cstate_scheme res" where
  "cprintf_loop [] args s = Inr s"
| "cprintf_loop (c # cs) args s =
     (if c \<noteq> 37 then rbind (consputc (uint c) s) (cprintf_loop cs args)
      else case cs of
        [] \<Rightarrow> Inr s
      | f # cs' \<Rightarrow>
          if f = 100 \<or> f = 120 \<or> f = 112
          then (case args of
                  PInt x # args' \<Rightarrow>
                    rbind (if f = 100 then printint x 10 True s else printint x 16 False s) (cprintf_loop cs' args')
                | _ \<Rightarrow> Inl (Undef ''cprintf''))
          else if f = 115
          then (case args of
                  PStr p # args' \<Rightarrow>
                    rbind (putchars (case p of None \<Rightarrow> null_str | Some t \<Rightarrow> map sint t) s) (cprintf_loop cs' args')
                | _ \<Rightarrow> Inl (Undef ''cprintf''))
          else if f = 37 then rbind (consputc 37 s) (cprintf_loop cs' args)
          else rbind (consputc 37 s) (\<lambda>s1. rbind (consputc (uint f) s1) (cprintf_loop cs' args)))"

definition cprintf :: "uchar list option \<Rightarrow> parg list \<Rightarrow> 'a cstate_scheme \<Rightarrow> 'a cstate_scheme res" where
  "cprintf fmt args s = (case fmt of None \<Rightarrow> Inl (Panic ''null fmt'') | Some cs \<Rightarrow> cprintf_loop cs args s)"

section \<open>Input\<close>

lemma uartputc_simps [simp]:
  "input_e (uartputc c s) = input_e s" "input_w (uartputc c s) = input_w s" "input_r (uartputc c s) = input_r s"
  "input_buf (uartputc c s) = input_buf s" "crt_pos (uartputc c s) = crt_pos s" "crt (uartputc c s) = crt s"
  "uart_out (uartputc c s) = uart_out s @ [of_int c]"
  by (simp_all add: uartputc_def)

text \<open>Printing changes the screen and the serial line, nothing else.\<close>

definition same_but_screen :: "'a cstate_scheme \<Rightarrow> 'a cstate_scheme \<Rightarrow> bool" where
  "same_but_screen s t \<longleftrightarrow> t = s\<lparr>crt := crt t, crt_pos := crt_pos t, uart_out := uart_out t\<rparr>"

lemma consputc_screen: "consputc c s = Inr t \<Longrightarrow> same_but_screen s t"
  by (auto simp: consputc_def cgaputc_def uartputc_def same_but_screen_def Let_def split: if_splits prod.splits)

lemma same_but_screen_input:
  assumes "same_but_screen s t"
  shows "input_e t = input_e s" "input_w t = input_w s" "input_r t = input_r s" "input_buf t = input_buf s"
    "procs t = procs s" "curp t = curp s" "inodes t = inodes s"
proof -
  have eq: "t = s\<lparr>crt := crt t, crt_pos := crt_pos t, uart_out := uart_out t\<rparr>"
    using assms unfolding same_but_screen_def .
  show "input_e t = input_e s" "input_w t = input_w s" "input_r t = input_r s" "input_buf t = input_buf s"
    "procs t = procs s" "curp t = curp s" "inodes t = inodes s"
    by (subst eq, simp)+
qed

lemma same_but_screen_trans: "same_but_screen s t \<Longrightarrow> same_but_screen t u \<Longrightarrow> same_but_screen s u"
proof -
  assume "same_but_screen s t" "same_but_screen t u"
  then obtain a b c a' b' c' where "t = s\<lparr>crt := a, crt_pos := b, uart_out := c\<rparr>" "u = t\<lparr>crt := a', crt_pos := b', uart_out := c'\<rparr>"
    unfolding same_but_screen_def by blast
  then show ?thesis by (simp add: same_but_screen_def)
qed

text \<open>Control-U erases the line typed so far.\<close>

function kill_line :: "'a cstate_scheme \<Rightarrow> 'a cstate_scheme res" where
  "kill_line s =
     (if input_e s \<noteq> input_w s \<and> input_buf s (unat (input_e s - 1) mod INPUT_BUF) \<noteq> 10
      then rbind (consputc BACKSPACE (s\<lparr>input_e := input_e s - 1\<rparr>)) kill_line
      else Inr s)"
  by auto

lemma unat_diff_pred: "(e :: uint) \<noteq> w \<Longrightarrow> unat (e - w) = Suc (unat (e - 1 - w))"
  using unat_diff_Suc [of w e] by (simp add: algebra_simps)

termination kill_line
proof (relation "measure (\<lambda>s. unat (input_e s - input_w s))", goal_cases)
  case (2 s t)
  then show ?case using same_but_screen_input(1,2) [OF consputc_screen [OF 2(2)]] unat_diff_pred [of "input_e s" "input_w s"] by simp
qed simp

definition consoleintr_char :: "int \<Rightarrow> 'a cstate_scheme \<Rightarrow> (bool \<times> 'a cstate_scheme) res" where
  "consoleintr_char c s =
     (if c = 0x10 then Inr (True, s)
      else if c = 0x15 then rbind (kill_line s) (\<lambda>s1. Inr (False, s1))
      else if c = 8 \<or> c = 0x7f
      then (if input_e s \<noteq> input_w s
            then rbind (consputc BACKSPACE (s\<lparr>input_e := input_e s - 1\<rparr>)) (\<lambda>s1. Inr (False, s1))
            else Inr (False, s))
      else if c \<noteq> 0 \<and> input_e s - input_r s < of_nat INPUT_BUF
      then let c' = (if c = 13 then 10 else c);
               s1 = s\<lparr>input_buf := (input_buf s)(unat (input_e s) mod INPUT_BUF := of_int c'), input_e := input_e s + 1\<rparr>
           in rbind (consputc c' s1) (\<lambda>s2.
              if c' = 10 \<or> c' = 4 \<or> input_e s2 = input_r s2 + of_nat INPUT_BUF
              then Inr (False, wakeup ChanInput (s2\<lparr>input_w := input_e s2\<rparr>))
              else Inr (False, s2))
      else Inr (False, s))"

text \<open>
  The handler's loop over the characters \<^verbatim>\<open>getc\<close> delivers (its end is a negative result). The
  flag says whether \<^verbatim>\<open>procdump\<close> is to run afterwards.
\<close>

primrec consoleintr :: "int list \<Rightarrow> 'a cstate_scheme \<Rightarrow> (bool \<times> 'a cstate_scheme) res" where
  "consoleintr [] s = Inr (False, s)"
| "consoleintr (c # cs) s =
     rbind (consoleintr_char c s) (\<lambda>(d, s1).
     rbind (consoleintr cs s1) (\<lambda>(d', s2). Inr (d \<or> d', s2)))"

section \<open>The console device\<close>

text \<open>
  The reading loop of \<^verbatim>\<open>consoleread\<close> with \<open>n\<close> bytes still wanted of \<open>target\<close>: the bytes copied out,
  how the loop ended, and the state.
\<close>

datatype rstatus = RDone | RKilled | RSleep

primrec consoleread_loop :: "nat \<Rightarrow> nat \<Rightarrow> bool \<Rightarrow> 'a cstate_scheme \<Rightarrow> uchar list \<times> rstatus \<times> 'a cstate_scheme" where
  "consoleread_loop target 0 killed s = ([], RDone, s)"
| "consoleread_loop target (Suc n) killed s =
     (if input_r s = input_w s then ([], if killed then RKilled else RSleep, s)
      else let c = input_buf s (unat (input_r s) mod INPUT_BUF);
               s1 = s\<lparr>input_r := input_r s + 1\<rparr>
           in if c = 4 then ([], RDone, if Suc n < target then s else s1)
              else if c = 10 then ([c], RDone, s1)
              else case consoleread_loop target n killed s1 of (cs, st, s2) \<Rightarrow> (c # cs, st, s2))"

definition consoleread :: "nat \<Rightarrow> uint \<Rightarrow> 'a cstate_scheme \<Rightarrow> ((int \<times> uchar list) \<times> 'a cstate_scheme) res" where
  "consoleread ip n s =
     rbind (iunlock (Some ip) s) (\<lambda>s1.
     rbind (myproc s1) (\<lambda>p.
     case consoleread_loop (nat (sint n)) (nat (sint n)) (p_killed (procs s1 ! p)) s1 of
       (cs, RDone, s2) \<Rightarrow> rbind (ilock (Some ip) s2) (\<lambda>s3. Inr ((int (length cs), cs), s3))
     | (cs, RKilled, s2) \<Rightarrow> rbind (ilock (Some ip) s2) (\<lambda>s3. Inr ((-1, cs), s3))
     | (cs, RSleep, s2) \<Rightarrow> Inl (Blocked ''consoleread'')))"

definition consolewrite :: "nat \<Rightarrow> uchar list \<Rightarrow> 'a cstate_scheme \<Rightarrow> (int \<times> 'a cstate_scheme) res" where
  "consolewrite ip src s =
     rbind (iunlock (Some ip) s) (\<lambda>s1.
     rbind (putchars (map uint src) s1) (\<lambda>s2.
     rbind (ilock (Some ip) s2) (\<lambda>s3.
     Inr (int (length src), s3))))"

definition consoleinit :: "'a cstate_scheme \<Rightarrow> 'a cstate_scheme" where
  "consoleinit s = s\<lparr>devsw := (devsw s)[CONSOLE := DevConsole]\<rparr>"

section \<open>The screen\<close>

lemma cga_move_le:
  assumes "pos < 24 * 80"
  shows "cga_move c pos \<le> 24 * 80"
proof -
  have "pos div 80 < 24" using assms by (simp add: less_mult_imp_div_less)
  then have "pos + (80 - pos mod 80) \<le> 24 * 80"
    using div_mult_mod_eq [of pos 80] mod_less_divisor [of 80 pos] by linarith
  moreover have "cga_move c pos \<le> pos + 1" if "c \<noteq> 10" using that by (auto simp: cga_move_def)
  moreover have "cga_move 10 pos = pos + (80 - pos mod 80)" by (simp add: cga_move_def)
  ultimately show ?thesis using assms by (cases "c = 10") (metis, linarith)
qed

lemma cgaputc_ok:
  assumes "crt_pos s < 24 * 80"
  shows "\<exists>t. cgaputc c s = Inr t \<and> crt_pos t < 24 * 80"
proof -
  let ?p = "cga_move c (crt_pos s)"
  have le: "?p \<le> 24 * 80" using cga_move_le [OF assms] .
  show ?thesis
  proof (cases "24 \<le> ?p div 80")
    case True
    with le show ?thesis by (simp add: cgaputc_def Let_def)
  next
    case False
    then have "?p < 24 * 80" by (simp add: not_le div_less_iff_less_mult)
    with False le show ?thesis by (simp add: cgaputc_def Let_def)
  qed
qed

lemma consputc_ok: "crt_pos s < 24 * 80 \<Longrightarrow> \<exists>t. consputc c s = Inr t \<and> crt_pos t < 24 * 80"
  unfolding consputc_def by (rule cgaputc_ok) simp

lemma putchars_ok: "crt_pos s < 24 * 80 \<Longrightarrow> \<exists>t. putchars cs s = Inr t \<and> crt_pos t < 24 * 80 \<and> same_but_screen s t"
proof (induction cs arbitrary: s)
  case Nil
  then show ?case by (simp add: putchars_def same_but_screen_def)
next
  case (Cons c cs)
  from consputc_ok [OF Cons.prems, of c] obtain t where t: "consputc c s = Inr t" "crt_pos t < 24 * 80" by blast
  from Cons.IH [OF t(2)] t(1) consputc_screen [OF t(1)] show ?case
    by (auto simp: putchars_def intro: same_but_screen_trans)
qed

text \<open>What reaches the serial port: a backspace erases on the terminal with three characters.\<close>

definition uart_chars :: "int \<Rightarrow> uchar list" where
  "uart_chars c = (if c = BACKSPACE then [8, 32, 8] else [of_int c])"

lemma consputc_uart: "consputc c s = Inr t \<Longrightarrow> uart_out t = uart_out s @ uart_chars c"
  by (auto simp: consputc_def cgaputc_def uart_chars_def Let_def split: if_splits prod.splits)

lemma putchars_uart: "putchars cs s = Inr t \<Longrightarrow> uart_out t = uart_out s @ concat (map uart_chars cs)"
  by (induction cs arbitrary: s) (auto simp: putchars_def rbind_eq_Inr dest!: consputc_uart)


text \<open>A blank console whose input indices are about to wrap around.\<close>

definition blank_console :: cstate where
  "blank_console = \<lparr>kend = 0x80100000, use_lock = True, freelist = None, runArr = (\<lambda>_. \<lparr>run_next = None, run_ref = 0\<rparr>),
     occupiedPages = 0, pmem = (\<lambda>_ _. 0), procs = [proc0\<lparr>p_pid := 1, p_state := SLEEPING, p_chan := ChanInput\<rparr>], curp = None,
     initproc = Some 0, nextpid = 2, cr3 = 0, disk = (\<lambda>_ _. 0), disksize = 1000, bufs = replicate NBUF buf0, mru = rev [0..<NBUF],
     wlog = [], lg_start = 2, lg_size = 30, outstanding = 0, committing = False, lg_dev = 1, lh_n = 0, lh_block = replicate 30 0,
     sb = sb_of (\<lambda>_. 0), inodes = [], crt = (\<lambda>_. 0), crt_pos = 0, uart_out = [], input_buf = (\<lambda>_. 0), input_r = - 3,
     input_w = - 3, input_e = - 3, devsw = []\<rparr>"


section \<open>Numbers\<close>

definition undigit :: "int \<Rightarrow> nat" where
  "undigit c = nat (if c \<ge> 97 then c - 87 else c - 48)"

definition read_digits :: "nat \<Rightarrow> int list \<Rightarrow> nat" where
  "read_digits base cs = foldl (\<lambda>n c. n * base + undigit c) 0 cs"

definition read_int :: "nat \<Rightarrow> int list \<Rightarrow> int" where
  "read_int base cs = (case cs of c # cs' \<Rightarrow> if c = 45 then - int (read_digits base cs') else int (read_digits base cs) | [] \<Rightarrow> 0)"

declare int_digits.simps [simp del]

lemma undigit_digit: "d < 16 \<Longrightarrow> undigit (digit d) = d"
  by (auto simp: undigit_def digit_def)

lemma digit_not_minus: "digit d \<noteq> 45"
  by (simp add: digit_def)

lemma read_digits_snoc: "read_digits base (cs @ [c]) = read_digits base cs * base + undigit c"
  by (simp add: read_digits_def)

lemma read_int_digits:
  assumes "2 \<le> base" "base \<le> 16"
  shows "read_digits base (rev (int_digits base x)) = x"
  using assms
proof (induction base x rule: int_digits.induct)
  case (1 base x)
  have "x mod base < base" using "1.prems" by simp
  then have d: "undigit (digit (x mod base)) = x mod base" using "1.prems" by (intro undigit_digit) linarith
  show ?case
  proof (cases "x div base = 0")
    case True
    then have "x mod base = x" using "1.prems" by (simp add: div_eq_0_iff)
    with True d show ?thesis by (subst int_digits.simps) (simp add: read_digits_def)
  next
    case False
    with 1 d show ?thesis by (subst int_digits.simps) (simp add: read_digits_snoc)
  qed
qed

lemma int_digits_no_minus: "45 \<notin> set (int_digits base x)"
  by (induction base x rule: int_digits.induct) (subst int_digits.simps, auto simp: digit_not_minus)

lemma int_digits_Cons: "int_digits base x \<noteq> []"
  by (subst int_digits.simps) simp

lemma read_int_pos:
  assumes "2 \<le> b" "b \<le> 16"
  shows "read_int b (rev (int_digits b n)) = int n"
proof -
  obtain c cs where c: "rev (int_digits b n) = c # cs" using int_digits_Cons [of b n] by (cases "rev (int_digits b n)") auto
  then have "c \<in> set (rev (int_digits b n))" by simp
  then have "c \<noteq> 45" using int_digits_no_minus [of b n] by auto
  with read_int_digits [OF assms, of n] c show ?thesis by (simp add: read_int_def)
qed

lemma int_digits_length: "10 \<le> base \<Longrightarrow> x < 10 ^ n \<Longrightarrow> 0 < n \<Longrightarrow> length (int_digits base x) \<le> n"
proof (induction base x arbitrary: n rule: int_digits.induct)
  case (1 base x)
  show ?case
  proof (cases "x div base = 0")
    case True
    with 1 show ?thesis by (subst int_digits.simps) simp
  next
    case False
    then have b: "base \<le> x" "2 \<le> base" using "1.prems" by (auto simp: div_eq_0_iff not_less)
    obtain m where m: "n = Suc m" using "1.prems" by (cases n) auto
    have "x div base \<le> x div 10" using "1.prems" by (simp add: div_le_mono2)
    also have "\<dots> < 10 ^ m" using "1.prems" m by (simp add: less_mult_imp_div_less mult.commute)
    finally have lt: "x div base < 10 ^ m" .
    with False have "0 < m" by (cases m) auto
    with 1 False b lt m show ?thesis by (subst int_digits.simps) simp
  qed
qed

lemma uint_of_int_small: "0 \<le> k \<Longrightarrow> k < 2 ^ 32 \<Longrightarrow> uint (word_of_int k :: uint) = k"
  by (simp add: uint_word_of_int)

lemma neg_word:
  assumes "sint (x :: uint) < 0"
  shows "int (unat (- x)) = - sint x"
proof -
  have "- sint x \<le> 2 ^ 31" using sint_ge [of x] by simp
  then have "uint (word_of_int (- sint x) :: uint) = - sint x" using assms by (intro uint_of_int_small) simp_all
  then have "uint (- x) = - sint x" by simp
  then show ?thesis using assms by (simp add: unat_eq_nat_uint)
qed

lemma pos_word:
  assumes "\<not> sint (x :: uint) < 0"
  shows "int (unat x) = sint x"
proof -
  have "sint x < 2 ^ 31" using sint_lt [of x] by simp
  then have "uint (word_of_int (sint x) :: uint) = sint x" using assms by (intro uint_of_int_small) simp_all
  then have "uint x = sint x" by simp
  then show ?thesis using assms by (simp add: unat_eq_nat_uint)
qed

text \<open>
  C23. Printing a number and reading the characters back gives the number, signed in base 10
  and unsigned in base 16; and the digits fit the 16 characters of the local buffer.
\<close>

theorem printint_roundtrip:
  "read_int 10 (printint_chars x 10 True) = sint x \<and> read_int 16 (printint_chars x 16 False) = int (unat x) \<and>
   length (printint_chars x 10 True) \<le> 16 \<and> length (printint_chars x 16 False) \<le> 16"
proof -
  have len: "length (int_digits 10 (unat y)) \<le> 10" "length (int_digits 16 (unat y)) \<le> 10" for y :: uint
  proof -
    have "unat y < 2 ^ LENGTH(32)" by (rule unsigned_less)
    then have "unat y < 10 ^ 10" by simp
    then show "length (int_digits 10 (unat y)) \<le> 10" "length (int_digits 16 (unat y)) \<le> 10"
      by (auto intro!: int_digits_length)
  qed
  have "int (unat x) = sint x" if "\<not> sint x < 0" using that by (rule pos_word)
  then have "read_int 10 (printint_chars x 10 True) = sint x"
    using neg_word [of x] read_int_pos [of 10] read_int_digits [of 10]
    by (cases "sint x < 0") (simp_all add: printint_chars_def read_int_def)
  moreover have "read_int 16 (printint_chars x 16 False) = int (unat x)"
    using read_int_pos [of 16] by (simp add: printint_chars_def)
  ultimately show ?thesis using len [of x] len [of "- x"] by (simp add: printint_chars_def Let_def)
qed

end
