(* ===== verification/LineInput.thy ===== *)
theory LineInput
  imports Console
begin

text \<open>
  The input side of the console refines a line editor: committed characters waiting to be
  read, and the line being typed. The interrupt handler's index arithmetic on the ring
  buffer implements the editor for any sequence of characters, and a read returns a line.
\<close>

interpretation input_ring: ring INPUT_BUF
  by unfold_locales simp_all

section \<open>The line editor\<close>

definition line_step :: "int \<Rightarrow> uchar list \<times> uchar list \<Rightarrow> uchar list \<times> uchar list" where
  "line_step c q =
     (case q of (com, line) \<Rightarrow>
        if c = 0x10 then (com, line)
        else if c = 0x15 then (com, [])
        else if c = 8 \<or> c = 0x7f then (com, butlast line)
        else if c \<noteq> 0 \<and> length com + length line < INPUT_BUF
        then let c' = (if c = 13 then 10 else c); line' = line @ [of_int c']
             in if c' = 10 \<or> c' = 4 \<or> length com + length line' = INPUT_BUF then (com @ line', []) else (com, line')
        else (com, line))"

definition input_view :: "'a cstate_scheme \<Rightarrow> uchar list \<times> uchar list" where
  "input_view s = (ring_bytes INPUT_BUF (input_buf s) (input_r s) (input_w s),
                   ring_bytes INPUT_BUF (input_buf s) (input_w s) (input_e s))"

text \<open>\<open>a\<close> characters are committed, \<open>m - a\<close> are in the line, which has no newline.\<close>

definition input_at :: "nat \<Rightarrow> nat \<Rightarrow> 'a cstate_scheme \<Rightarrow> bool" where
  "input_at a m s \<longleftrightarrow> a \<le> m \<and> m \<le> INPUT_BUF \<and> input_w s = input_r s + of_nat a \<and> input_e s = input_r s + of_nat m \<and>
     10 \<notin> set (snd (input_view s))"

definition input_inv :: "'a cstate_scheme \<Rightarrow> bool" where
  "input_inv s \<longleftrightarrow> (\<exists>a m. input_at a m s)"

lemma view_at:
  assumes "input_at a m s"
  shows "input_view s = (map (\<lambda>k. input_buf s ((unat (input_r s) + k) mod INPUT_BUF)) [0..<a],
                         map (\<lambda>k. input_buf s ((unat (input_r s) + k) mod INPUT_BUF)) [a..<m])"
  using assms input_ring.bytes_from [of 0 a "input_buf s" "input_r s"] input_ring.bytes_from [of a m "input_buf s" "input_r s"]
  by (simp add: input_view_def input_at_def)

lemma view_screen: "same_but_screen s t \<Longrightarrow> input_view t = input_view s \<and> input_at a m t = input_at a m s"
  using same_but_screen_input [of s t] by (simp add: input_view_def input_at_def)

lemma last_at:
  assumes "input_at a m s" "a < m"
  shows "input_buf s (unat (input_e s - 1) mod INPUT_BUF) = last (snd (input_view s))"
    "input_view (s\<lparr>input_e := input_e s - 1\<rparr>) = (fst (input_view s), butlast (snd (input_view s)))"
    "input_at a (m - 1) (s\<lparr>input_e := input_e s - 1\<rparr>)"
proof -
  obtain n where n: "m = Suc n" using assms(2) by (cases m) auto
  have e: "input_e s - 1 = input_r s + of_nat n" using assms(1) n by (simp add: input_at_def)
  have v: "snd (input_view s) = map (\<lambda>k. input_buf s ((unat (input_r s) + k) mod INPUT_BUF)) [a..<n] @
      [input_buf s ((unat (input_r s) + n) mod INPUT_BUF)]"
    using view_at [OF assms(1)] assms(2) n by simp
  show "input_buf s (unat (input_e s - 1) mod INPUT_BUF) = last (snd (input_view s))"
    unfolding e v by (simp add: input_ring.add_mod)
  have w: "snd (input_view (s\<lparr>input_e := input_e s - 1\<rparr>)) = butlast (snd (input_view s))"
    unfolding v using assms n e input_ring.bytes_from [of a n "input_buf s" "input_r s"]
    by (simp add: input_view_def input_at_def)
  show "input_view (s\<lparr>input_e := input_e s - 1\<rparr>) = (fst (input_view s), butlast (snd (input_view s)))"
    using w by (simp add: input_view_def)
  have "10 \<notin> set (butlast (snd (input_view s)))" using assms(1) in_set_butlastD by (fastforce simp: input_at_def)
  with assms n e w show "input_at a (m - 1) (s\<lparr>input_e := input_e s - 1\<rparr>)" by (simp add: input_at_def)
qed

lemma at_empty: "input_at a m s \<Longrightarrow> input_e s = input_w s \<longleftrightarrow> a = m"
  using input_ring.unat_dist2 [of a m "input_r s"] by (auto simp: input_at_def)

lemma at_lengths: "input_at a m s \<Longrightarrow> length (fst (input_view s)) = a \<and> length (snd (input_view s)) = m - a"
  using view_at [of a m s] by simp

declare kill_line.simps [simp del]

lemma kill_line_at:
  assumes "input_at a m s" "crt_pos s < 24 * 80"
  shows "\<exists>t. kill_line s = Inr t \<and> input_at a a t \<and> input_view t = (fst (input_view s), []) \<and> crt_pos t < 24 * 80 \<and>
    input_r t = input_r s"
  using assms
proof (induction "m - a" arbitrary: m s)
  case 0
  then have m: "m = a" by (simp add: input_at_def)
  then have "input_e s = input_w s" using 0 at_empty by blast
  then show ?case using 0 m at_lengths [of a a s] by (subst kill_line.simps) (auto simp: prod_eq_iff)
next
  case (Suc k)
  then have lt: "a < m" by simp
  let ?s = "s\<lparr>input_e := input_e s - 1\<rparr>"
  note l = last_at [OF Suc.prems(1) lt]
  have ne: "snd (input_view s) \<noteq> []" using at_lengths [OF Suc.prems(1)] lt by auto
  then have "last (snd (input_view s)) \<noteq> 10" using Suc.prems(1) last_in_set by (fastforce simp: input_at_def)
  then have go: "input_e s \<noteq> input_w s" "input_buf s (unat (input_e s - 1) mod INPUT_BUF) \<noteq> 10"
    using l(1) at_empty [OF Suc.prems(1)] lt by auto
  obtain t where t: "consputc BACKSPACE ?s = Inr t" "crt_pos t < 24 * 80" using consputc_ok [of ?s BACKSPACE] Suc.prems(2) by auto
  note scr = consputc_screen [OF t(1)]
  have "\<exists>u. kill_line t = Inr u \<and> input_at a a u \<and> input_view u = (fst (input_view t), []) \<and> crt_pos u < 24 * 80 \<and> input_r u = input_r t"
    by (rule Suc.hyps(1) [of "m - 1"]) (use Suc.hyps(2) l(3) t(2) view_screen [OF scr] in auto)
  moreover have "kill_line s = kill_line t" using go t(1) by (subst kill_line.simps) simp
  ultimately show ?case using view_screen [OF scr] l(2) same_but_screen_input(3) [OF scr] by simp
qed

text \<open>A stored character goes at the end of the line; committing moves the line over.\<close>

lemma put_at:
  assumes at: "input_at a m s" and m: "m < INPUT_BUF"
    and s1: "s1 = s\<lparr>input_buf := (input_buf s)(unat (input_e s) mod INPUT_BUF := b), input_e := input_e s + 1\<rparr>"
  shows "input_view s1 = (fst (input_view s), snd (input_view s) @ [b])"
    "input_w s1 = input_r s1 + of_nat a" "input_e s1 = input_r s1 + of_nat (Suc m)"
proof -
  have am: "a \<le> m" and w: "input_w s = input_r s + of_nat a" and e: "input_e s = input_r s + of_nat m"
    using at by (simp_all add: input_at_def)
  have "unat (input_e s - input_w s) < INPUT_BUF" using input_ring.unat_dist2 [of a m "input_r s"] am m w e by simp
  from input_ring.put [OF this, of "input_buf s" b]
  have "snd (input_view s1) = snd (input_view s) @ [b]" by (simp add: input_view_def s1)
  moreover have "fst (input_view s1) = fst (input_view s)"
    using input_ring.put_frame [OF am m, of "input_buf s" "input_r s" b] by (simp add: input_view_def s1 w e)
  ultimately show "input_view s1 = (fst (input_view s), snd (input_view s) @ [b])" by (simp add: prod_eq_iff)
  show "input_w s1 = input_r s1 + of_nat a" "input_e s1 = input_r s1 + of_nat (Suc m)" using w e by (simp_all add: s1)
qed

lemma upt_split: "a \<le> m \<Longrightarrow> [0..<m] = [0..<a] @ [a..<m]"
  using upt_add_eq_append [of 0 a "m - a"] by simp

lemma commit_at:
  assumes "a \<le> m" "m \<le> INPUT_BUF" "input_w s = input_r s + of_nat a" "input_e s = input_r s + of_nat m"
  shows "input_at m m (s\<lparr>input_w := input_e s\<rparr>)"
    "input_view (s\<lparr>input_w := input_e s\<rparr>) = (fst (input_view s) @ snd (input_view s), [])"
proof -
  have v: "input_view (s\<lparr>input_w := input_e s\<rparr>) = (fst (input_view s) @ snd (input_view s), [])"
    using assms input_ring.bytes_from [of 0 a "input_buf s" "input_r s"] input_ring.bytes_from [of a m "input_buf s" "input_r s"]
      input_ring.bytes_from [of 0 m "input_buf s" "input_r s"] input_ring.bytes_from [of m m "input_buf s" "input_r s"]
    by (simp add: input_view_def upt_split [OF assms(1)])
  then show "input_view (s\<lparr>input_w := input_e s\<rparr>) = (fst (input_view s) @ snd (input_view s), [])" .
  with assms show "input_at m m (s\<lparr>input_w := input_e s\<rparr>)" by (simp add: input_at_def)
qed

lemma view_wakeup: "input_view (wakeup ch0 s) = input_view s" "input_at a m (wakeup ch0 s) = input_at a m s"
    "crt_pos (wakeup ch0 s) = crt_pos s"
  by (simp_all add: input_view_def input_at_def wakeup_def wakeup1_def)

lemma byte_eq: "0 \<le> c \<Longrightarrow> c < 256 \<Longrightarrow> (of_int c :: uchar) = 10 \<longleftrightarrow> c = 10"
  by (simp add: word_uint_eq_iff uint_word_of_int)

lemma intr_store:
  assumes at: "input_at a m s" and c: "0 \<le> c" "c < 256" and m: "m < INPUT_BUF" and pos: "crt_pos s < 24 * 80"
    and s1: "s1 = s\<lparr>input_buf := (input_buf s)(unat (input_e s) mod INPUT_BUF := of_int c), input_e := input_e s + 1\<rparr>"
  shows "\<exists>t. rbind (consputc c s1) (\<lambda>s2.
              if c = 10 \<or> c = 4 \<or> input_e s2 = input_r s2 + of_nat INPUT_BUF
              then Inr (False, wakeup ChanInput (s2\<lparr>input_w := input_e s2\<rparr>))
              else Inr (False, s2)) = Inr (False, t) \<and> crt_pos t < 24 * 80 \<and> input_inv t \<and>
    input_view t = (let line' = snd (input_view s) @ [of_int c]
      in if c = 10 \<or> c = 4 \<or> length (fst (input_view s)) + length line' = INPUT_BUF then (fst (input_view s) @ line', [])
         else (fst (input_view s), line'))"
proof -
  note p = put_at [OF at m s1]
  have am: "a \<le> m" and len: "length (fst (input_view s)) = a" "length (snd (input_view s)) = m - a" and nl: "10 \<notin> set (snd (input_view s))"
    using at at_lengths [OF at] by (simp_all add: input_at_def)
  obtain t where t: "consputc c s1 = Inr t" "crt_pos t < 24 * 80" using consputc_ok [of s1 c] pos s1 by auto
  note scr = consputc_screen [OF t(1)]
  note f = same_but_screen_input(1-4) [OF scr]
  have v: "input_view t = (fst (input_view s), snd (input_view s) @ [of_int c])" using view_screen [OF scr] p(1) by simp
  have full: "input_e t = input_r t + of_nat INPUT_BUF \<longleftrightarrow> length (fst (input_view s)) + length (snd (input_view s) @ [of_int c :: uchar]) = INPUT_BUF"
    using input_ring.unat_dist2 [of "Suc m" INPUT_BUF "input_r s1"] p(3) f len am m by auto
  have w: "input_w t = input_r t + of_nat a" "input_e t = input_r t + of_nat (Suc m)" using p f by simp_all
  note k = commit_at [OF le_SucI [OF am] Suc_leI [OF m] w]
  show ?thesis
  proof (cases "c = 10 \<or> c = 4 \<or> input_e t = input_r t + of_nat INPUT_BUF")
    case True
    then show ?thesis using t k v full by (auto simp: input_inv_def Let_def view_wakeup)
  next
    case False
    then have "input_at a (Suc m) t" using w am m v nl c by (auto simp: input_at_def byte_eq)
    then show ?thesis using False t v full by (auto simp: input_inv_def Let_def)
  qed
qed

lemma intr_char:
  assumes inv: "input_inv s" and c: "0 \<le> c" "c < 256" and pos: "crt_pos s < 24 * 80"
  shows "\<exists>t. consoleintr_char c s = Inr (c = 0x10, t) \<and> crt_pos t < 24 * 80 \<and> input_inv t \<and> input_view t = line_step c (input_view s)"
proof -
  obtain a m where at: "input_at a m s" using inv by (auto simp: input_inv_def)
  obtain com line where v: "input_view s = (com, line)" by fastforce
  have len: "length com = a" "length line = m - a" "a \<le> m" "m \<le> INPUT_BUF" using at_lengths [OF at] v at by (simp_all add: input_at_def)
  consider "c = 0x10" | "c = 0x15" | "c = 8 \<or> c = 0x7f" "a = m" | "c = 8 \<or> c = 0x7f" "a < m"
    | "c \<notin> {0x10, 0x15, 8, 0x7f}" "c = 0 \<or> m = INPUT_BUF" | "c \<notin> {0, 0x10, 0x15, 8, 0x7f}" "m < INPUT_BUF"
    using len by fastforce
  then show ?thesis
  proof cases
    case 1
    then show ?thesis using inv pos v by (auto simp: consoleintr_char_def line_step_def)
  next
    case 2
    from kill_line_at [OF at pos] obtain t where "kill_line s = Inr t" "input_at a a t" "input_view t = (com, [])" "crt_pos t < 24 * 80"
      using v by auto
    then show ?thesis using 2 v unfolding input_inv_def by (auto simp: consoleintr_char_def line_step_def)
  next
    case 3
    then show ?thesis using inv pos v len at_empty [OF at] by (auto simp: consoleintr_char_def line_step_def)
  next
    case 4
    let ?s = "s\<lparr>input_e := input_e s - 1\<rparr>"
    obtain t where t: "consputc BACKSPACE ?s = Inr t" "crt_pos t < 24 * 80" using consputc_ok [of ?s BACKSPACE] pos by auto
    show ?thesis using 4 t last_at(2,3) [OF at 4(2)] view_screen [OF consputc_screen [OF t(1)]] v at_empty [OF at]
      by (auto simp: consoleintr_char_def line_step_def input_inv_def)
  next
    case 5
    then have "c = 0 \<or> \<not> input_e s - input_r s < of_nat INPUT_BUF" using at by (auto simp: input_at_def)
    then show ?thesis using 5 inv pos v len by (auto simp: consoleintr_char_def line_step_def)
  next
    case 6
    then have lt: "input_e s - input_r s < of_nat INPUT_BUF"
      using at by (simp add: input_at_def word_less_nat_alt unat_of_nat)
    define c' where "c' = (if c = 13 then 10 else c)"
    have c': "0 \<le> c'" "c' < 256" using c by (auto simp: c'_def)
    have "consoleintr_char c s = rbind (consputc c' (s\<lparr>input_buf := (input_buf s)
          (unat (input_e s) mod INPUT_BUF := of_int c'), input_e := input_e s + 1\<rparr>)) (\<lambda>s2.
              if c' = 10 \<or> c' = 4 \<or> input_e s2 = input_r s2 + of_nat INPUT_BUF
              then Inr (False, wakeup ChanInput (s2\<lparr>input_w := input_e s2\<rparr>))
              else Inr (False, s2))"
      using 6 lt unfolding consoleintr_char_def Let_def c'_def by simp
    moreover have "line_step c (com, line) = (let line' = line @ [of_int c']
      in if c' = 10 \<or> c' = 4 \<or> length com + length line' = INPUT_BUF then (com @ line', []) else (com, line'))"
      using 6 len unfolding line_step_def Let_def c'_def by simp
    moreover have "(c = 0x10) = False" using 6 by simp
    ultimately show ?thesis using intr_store [OF at c' 6(2) pos refl] unfolding v fst_conv snd_conv by (simp only:)
  qed
qed

section \<open>Typing and reading\<close>

lemma consoleintr_lines:
  assumes "input_inv s" "\<forall>c\<in>set cs. 0 \<le> c \<and> c < 256" "crt_pos s < 24 * 80"
  shows "\<exists>t. consoleintr cs s = Inr (0x10 \<in> set cs, t) \<and> crt_pos t < 24 * 80 \<and> input_inv t \<and> input_view t = fold line_step cs (input_view s)"
  using assms
proof (induction cs arbitrary: s)
  case (Cons c cs)
  then obtain t where t: "consoleintr_char c s = Inr (c = 0x10, t)" "crt_pos t < 24 * 80" "input_inv t" "input_view t = line_step c (input_view s)"
    using intr_char [of s c] by auto
  from Cons.IH [of t] Cons.prems(2) t show ?case by auto
qed simp

text \<open>
  The bytes a read takes off the committed ones: up to and including a newline, or up to a
  control-D, which is consumed when it is the first byte wanted and left for the next read
  otherwise.
\<close>

primrec take_line :: "nat \<Rightarrow> nat \<Rightarrow> uchar list \<Rightarrow> (uchar list \<times> uchar list) option" where
  "take_line target 0 com = Some ([], com)"
| "take_line target (Suc n) com =
     (case com of [] \<Rightarrow> None
      | c # com' \<Rightarrow> if c = 4 then Some ([], if Suc n < target then com else com')
                    else if c = 10 then Some ([c], com')
                    else map_option (\<lambda>(l, rest). (c # l, rest)) (take_line target n com'))"

lemma get_at:
  assumes at: "input_at a m s" and a: "0 < a"
  shows "input_at (a - 1) (m - 1) (s\<lparr>input_r := input_r s + 1\<rparr>)"
    "input_view s = (input_buf s (unat (input_r s) mod INPUT_BUF) # fst (input_view (s\<lparr>input_r := input_r s + 1\<rparr>)), snd (input_view s))"
    "input_r s \<noteq> input_w s" "snd (input_view (s\<lparr>input_r := input_r s + 1\<rparr>)) = snd (input_view s)"
proof -
  obtain n where n: "a = Suc n" using a by (cases a) auto
  have w: "input_w s = input_r s + of_nat a" and am: "a \<le> m" "m \<le> INPUT_BUF" using at by (simp_all add: input_at_def)
  have un: "unat (input_w s - input_r s) = a" using input_ring.unat_dist2 [of 0 a "input_r s"] w am by simp
  then show ne: "input_r s \<noteq> input_w s" using a by auto
  show v2: "snd (input_view (s\<lparr>input_r := input_r s + 1\<rparr>)) = snd (input_view s)" by (simp add: input_view_def)
  from input_ring.get [OF ne, of "input_buf s"]
  show "input_view s = (input_buf s (unat (input_r s) mod INPUT_BUF) # fst (input_view (s\<lparr>input_r := input_r s + 1\<rparr>)), snd (input_view s))"
    by (simp add: input_view_def)
  obtain k where k: "m = Suc k" using n am by (cases m) auto
  show "input_at (a - 1) (m - 1) (s\<lparr>input_r := input_r s + 1\<rparr>)" using at v2 n k by (simp add: input_at_def algebra_simps)
qed

lemma read_loop:
  assumes "input_inv s"
  shows "\<exists>cs st t. consoleread_loop target n killed s = (cs, st, t) \<and> input_inv t \<and> snd (input_view t) = snd (input_view s) \<and>
    (case take_line target n (fst (input_view s)) of
       Some (l, rest) \<Rightarrow> st = RDone \<and> cs = l \<and> fst (input_view t) = rest
     | None \<Rightarrow> st = (if killed then RKilled else RSleep) \<and> cs = fst (input_view s) \<and> fst (input_view t) = [])"
  using assms
proof (induction n arbitrary: s)
  case (Suc n)
  obtain a m where at: "input_at a m s" using Suc.prems by (auto simp: input_inv_def)
  show ?case
  proof (cases "a = 0")
    case True
    then have "input_r s = input_w s" "fst (input_view s) = []" using at at_lengths [OF at] by (auto simp: input_at_def)
    then show ?thesis using Suc.prems by simp
  next
    case False
    then have a: "0 < a" by simp
    let ?s = "s\<lparr>input_r := input_r s + 1\<rparr>"
    note g = get_at [OF at a]
    have inv: "input_inv ?s" using g(1) by (auto simp: input_inv_def)
    define c where "c = input_buf s (unat (input_r s) mod INPUT_BUF)"
    have v: "fst (input_view s) = c # fst (input_view ?s)" using g(2) unfolding c_def by (metis fst_conv)
    from Suc.IH [OF inv] obtain cs st t where t: "consoleread_loop target n killed ?s = (cs, st, t)" "input_inv t"
      "snd (input_view t) = snd (input_view ?s)"
      "case take_line target n (fst (input_view ?s)) of
         Some (l, rest) \<Rightarrow> st = RDone \<and> cs = l \<and> fst (input_view t) = rest
       | None \<Rightarrow> st = (if killed then RKilled else RSleep) \<and> cs = fst (input_view ?s) \<and> fst (input_view t) = []" by blast
    have "consoleread_loop target (Suc n) killed s = (if c = 4 then ([], RDone, if Suc n < target then s else ?s)
        else if c = 10 then ([c], RDone, ?s) else (c # cs, st, t))"
      using g(3) t(1) by (simp add: Let_def flip: c_def)
    then show ?thesis using v t(2-4) g(4) inv Suc.prems
      by (cases "take_line target n (fst (input_view ?s))") auto
  qed
qed simp

text \<open>
  C24. The console's interrupt handler refines the line editor: for every sequence of typed
  bytes, handling them one by one leaves the ring buffer's committed part and line being typed
  exactly as the editor's, whatever the values of the wrapping indices; the handler never
  panics, and asks for a process listing exactly when control-P was typed.
\<close>

theorem console_line_discipline:
  assumes "input_inv s" "crt_pos s < 24 * 80" "\<forall>c\<in>set cs. 0 \<le> c \<and> c < 256"
  shows "\<exists>t. consoleintr cs s = Inr (0x10 \<in> set cs, t) \<and> input_inv t \<and> crt_pos t < 24 * 80 \<and>
    input_view t = fold line_step cs (input_view s)"
  using consoleintr_lines [OF assms(1,3,2)] by blast

lemma blank_inv: "input_at 0 0 blank_console" "input_view blank_console = ([], [])" "crt_pos blank_console = 0"
  by (simp_all add: blank_console_def input_at_def input_view_def ring_bytes_def)

text \<open>The indices wrap around while "ab", a backspace, and "c" and return are typed.\<close>

theorem console_line_discipline_witness:
  "\<exists>t. consoleintr [97, 98, 8, 99, 13] blank_console = Inr (False, t) \<and> input_inv t \<and> input_view t = ([97, 99, 10], [])"
proof -
  have "input_inv blank_console" using blank_inv(1) unfolding input_inv_def by blast
  from console_line_discipline [OF this, of "[97, 98, 8, 99, 13]"] show ?thesis
    by (auto simp: blank_inv line_step_def)
qed

lemma type_char:
  assumes "input_inv s" "crt_pos s < 24 * 80" "input_view s = ([], line)" "32 \<le> c" "c < 127" "length line < INPUT_BUF - 1"
  shows "\<exists>t. consoleintr_char c s = Inr (False, t) \<and> crt_pos t < 24 * 80 \<and> input_inv t \<and>
    input_view t = ([], line @ [of_int c]) \<and> procs t = procs s"
proof -
  from intr_char [of s c] assms obtain t where t: "consoleintr_char c s = Inr (False, t)" "crt_pos t < 24 * 80" "input_inv t"
    "input_view t = ([], line @ [of_int c])" by (auto simp: line_step_def)
  have "procs t = procs s"
  proof (cases "input_e s - input_r s < of_nat INPUT_BUF")
    case True
    let ?s = "s\<lparr>input_buf := (input_buf s)(unat (input_e s) mod INPUT_BUF := of_int c), input_e := input_e s + 1\<rparr>"
    obtain u where u: "consputc c ?s = Inr u" "t = u \<or> t = wakeup ChanInput (u\<lparr>input_w := input_e u\<rparr>)"
      using True t(1) assms(4,5) by (auto simp: consoleintr_char_def Let_def rbind_eq_Inr split: if_splits)
    have "t = u"
    proof (rule ccontr)
      assume "t \<noteq> u"
      then have "input_view t = input_view (u\<lparr>input_w := input_e u\<rparr>)" using u(2) by (simp add: view_wakeup)
      then have "snd (input_view t) = []" by (simp add: input_view_def ring_bytes_def)
      with t(4) show False by simp
    qed
    then show ?thesis using same_but_screen_input(5) [OF consputc_screen [OF u(1)]] by simp
  next
    case False
    then show ?thesis using t(1) assms(4,5) by (auto simp: consoleintr_char_def split: if_splits)
  qed
  with t show ?thesis by blast
qed

lemma type_chars:
  assumes "input_inv s" "crt_pos s < 24 * 80" "input_view s = ([], line)" "\<forall>c\<in>set cs. 32 \<le> c \<and> c < 127"
    "length line + length cs < INPUT_BUF"
  shows "\<exists>t. consoleintr cs s = Inr (False, t) \<and> crt_pos t < 24 * 80 \<and> input_inv t \<and>
    input_view t = ([], line @ map of_int cs) \<and> procs t = procs s"
  using assms
proof (induction cs arbitrary: s line)
  case (Cons c cs)
  then obtain t where t: "consoleintr_char c s = Inr (False, t)" "crt_pos t < 24 * 80" "input_inv t"
    "input_view t = ([], line @ [of_int c])" "procs t = procs s"
    using type_char [of s line c] by auto
  from Cons.IH [OF t(3,2,4)] Cons.prems(4,5) t show ?case by auto
qed simp

lemma type_return:
  assumes "input_inv s" "crt_pos s < 24 * 80" "input_view s = ([], line)" "length line < INPUT_BUF"
  shows "\<exists>t. consoleintr_char 13 s = Inr (False, t) \<and> input_inv t \<and> input_view t = (line @ [10], []) \<and>
    procs t = wakeup1 ChanInput (procs s)"
proof -
  from intr_char [of s 13] assms obtain t where t: "consoleintr_char 13 s = Inr (False, t)" "input_inv t"
    "input_view t = (line @ [10], [])" by (auto simp: line_step_def)
  have "input_e s - input_r s < of_nat INPUT_BUF"
  proof (rule ccontr)
    assume "\<not> ?thesis"
    then have "t = s" using t(1) by (simp add: consoleintr_char_def)
    with t(3) assms(3) show False by simp
  qed
  then obtain u where u: "consputc 10 (s\<lparr>input_buf := (input_buf s)(unat (input_e s) mod INPUT_BUF := 10), input_e := input_e s + 1\<rparr>) = Inr u"
      "t = wakeup ChanInput (u\<lparr>input_w := input_e u\<rparr>)"
    using t(1) by (auto simp: consoleintr_char_def rbind_eq_Inr)
  then have "procs t = wakeup1 ChanInput (procs s)"
    using same_but_screen_input(5) [OF consputc_screen [OF u(1)]] by (simp add: wakeup_def)
  with t show ?thesis by blast
qed

lemma consoleintr_snoc:
  "consoleintr cs s = Inr (d, t) \<Longrightarrow> consoleintr_char c t = Inr (e, u) \<Longrightarrow> consoleintr (cs @ [c]) s = Inr (d \<or> e, u)"
  by (induction cs arbitrary: s d) (auto simp: rbind_eq_Inr split: prod.splits)

lemma take_line_plain:
  "\<forall>c\<in>set cs. c \<noteq> 4 \<and> c \<noteq> 10 \<Longrightarrow> length cs < n \<Longrightarrow> take_line target n (cs @ 10 # rest) = Some (cs @ [10], rest)"
  by (induction cs arbitrary: n) (auto simp: gr0_conv_Suc Suc_less_eq2)

text \<open>
  C25. A typed line is delivered. On a console with no pending input, typing any printable line
  that fits the buffer and pressing return wakes every process sleeping in a console read, and
  a read of more bytes than the line has then completes without sleeping and returns the line
  with its newline, leaving nothing behind.
\<close>

theorem typed_line_is_delivered:
  assumes "input_inv s" "crt_pos s < 24 * 80" "input_view s = ([], [])" "\<forall>c\<in>set cs. 32 \<le> c \<and> c < 127"
    "length cs < INPUT_BUF" "length cs < n"
  shows "\<exists>t u. consoleintr (cs @ [13]) s = Inr (False, t) \<and> procs t = wakeup1 ChanInput (procs s) \<and>
    consoleread_loop n n killed t = (map of_int cs @ [10], RDone, u) \<and> input_view u = ([], [])"
proof -
  obtain t where t: "consoleintr cs s = Inr (False, t)" "crt_pos t < 24 * 80" "input_inv t" "input_view t = ([], map of_int cs)"
      "procs t = procs s"
    using type_chars [OF assms(1-4)] assms(5) by auto
  obtain u where u: "consoleintr_char 13 t = Inr (False, u)" "input_inv u" "input_view u = (map of_int cs @ [10], [])"
      "procs u = wakeup1 ChanInput (procs t)"
    using type_return [OF t(3,2,4)] assms(5) by auto
  have "\<forall>c\<in>set (map of_int cs :: uchar list). c \<noteq> 4 \<and> c \<noteq> 10"
    using assms(4) by (auto simp: word_uint_eq_iff uint_word_of_int)
  from take_line_plain [OF this, of n n "[]"] assms(6)
  have "take_line n n (fst (input_view u)) = Some (map of_int cs @ [10], [])" using u(3) by simp
  then obtain v where "consoleread_loop n n killed u = (map of_int cs @ [10], RDone, v)" "input_view v = ([], [])"
    using read_loop [OF u(2), of n n killed] u(3) by (auto simp: prod_eq_iff)
  then show ?thesis using consoleintr_snoc [OF t(1) u(1)] u(4) t(5) by auto
qed

theorem typed_line_is_delivered_witness:
  "\<exists>t u. consoleintr [104, 105, 13] blank_console = Inr (False, t) \<and> p_state (procs t ! 0) = RUNNABLE \<and>
    consoleread_loop 100 100 False t = ([104, 105, 10], RDone, u)"
proof -
  have "input_inv blank_console" using blank_inv(1) unfolding input_inv_def by blast
  from typed_line_is_delivered [OF this, of "[104, 105]" 100 False] blank_inv obtain t u where
    t: "consoleintr [104, 105, 13] blank_console = Inr (False, t)" "procs t = wakeup1 ChanInput (procs blank_console)"
    "consoleread_loop 100 100 False t = ([104, 105, 10], RDone, u)" by auto
  moreover have "p_state (procs t ! 0) = RUNNABLE" by (simp add: t(2) wakeup1_def blank_console_def)
  ultimately show ?thesis by blast
qed

end
