(* ===== verification/Fs.thy ===== *)
theory Fs
  imports Console
begin

text \<open>
  File content, directories and paths of \<^verbatim>\<open>fs.c\<close>. \<^verbatim>\<open>readi\<close> returns the bytes it copies out, and
  \<^verbatim>\<open>writei\<close> takes the bytes to write, so the caller's buffer is the caller's business. A path
  is the list of the characters of the C string, without the terminating 0; a name is the
  content of a \<^verbatim>\<open>char name[DIRSIZ]\<close> up to its 0.
\<close>

abbreviation DIRSIZ :: nat where "DIRSIZ \<equiv> 14"
abbreviation ROOTDEV :: uint where "ROOTDEV \<equiv> 1"

section \<open>Inode content\<close>

text \<open>\<^verbatim>\<open>major\<close> is a signed short; the device must be in the table with its functions set.\<close>

definition no_dev :: "inode \<Rightarrow> 'a cstate_scheme \<Rightarrow> bool" where
  "no_dev i s \<longleftrightarrow> sint (i_major i) < 0 \<or> sint (i_major i) \<ge> int NDEV \<or> devsw s ! unat (i_major i) = DevNull"

function readi_loop :: "nat \<Rightarrow> nat \<Rightarrow> nat \<Rightarrow> 'a cstate_scheme \<Rightarrow> (uchar list \<times> 'a cstate_scheme) res" where
  "readi_loop ip off n s =
     (if n = 0 then Inr ([], s)
      else let m = min n (BSIZE - off mod BSIZE)
           in rbind (bmap ip (off div BSIZE) s) (\<lambda>(addr, s1).
              rbind (bread (i_dev (inodes s1 ! ip)) addr s1) (\<lambda>(bp, s2).
              let cs = map (\<lambda>k. b_data (bufs s2 ! bp) (off mod BSIZE + k)) [0..<m]
              in rbind (brelse bp s2) (\<lambda>s3.
                 rbind (readi_loop ip (off + m) (n - m) s3) (\<lambda>(ds, s4).
                 Inr (cs @ ds, s4))))))"
  by auto
termination
  by (relation "measure (\<lambda>(ip, off, n, s). n)") auto

definition readi :: "nat \<Rightarrow> uint \<Rightarrow> uint \<Rightarrow> 'a cstate_scheme \<Rightarrow> ((int \<times> uchar list) \<times> 'a cstate_scheme) res" where
  "readi ip off n s =
     (let i = inodes s ! ip
      in if i_type i = T_DEV
         then if no_dev i s then Inr ((-1, []), s) else consoleread ip n s
         else if off > i_size i \<or> off + n < off then Inr ((-1, []), s)
         else let n' = (if off + n > i_size i then i_size i - off else n)
              in rbind (readi_loop ip (unat off) (unat n') s) (\<lambda>(cs, s1).
                 Inr ((sint n', cs), s1)))"

function writei_loop :: "nat \<Rightarrow> uchar list \<Rightarrow> nat \<Rightarrow> 'a cstate_scheme \<Rightarrow> 'a cstate_scheme res" where
  "writei_loop ip src off s =
     (if src = [] then Inr s
      else let m = min (length src) (BSIZE - off mod BSIZE)
           in rbind (bmap ip (off div BSIZE) s) (\<lambda>(addr, s1).
              rbind (bread (i_dev (inodes s1 ! ip)) addr s1) (\<lambda>(bp, s2).
              rbind (log_write bp (set_data bp (blit (b_data (bufs s2 ! bp)) (off mod BSIZE) (\<lambda>k. src ! k) 0 m) s2)) (\<lambda>s3.
              rbind (brelse bp s3) (\<lambda>s4.
              writei_loop ip (drop m src) (off + m) s4)))))"
  by auto
termination
  by (relation "measure (\<lambda>(ip, src, off, s). length src)") (auto simp: min_def)

definition writei :: "nat \<Rightarrow> uchar list \<Rightarrow> uint \<Rightarrow> 'a cstate_scheme \<Rightarrow> (int \<times> 'a cstate_scheme) res" where
  "writei ip src off s =
     (let i = inodes s ! ip; n = of_nat (length src) :: uint
      in if i_type i = T_DEV
         then if no_dev i s then Inr (-1, s) else consolewrite ip src s
         else if off > i_size i \<or> off + n < off then Inr (-1, s)
         else if off + n > of_nat (MAXFILE * BSIZE) then Inr (-1, s)
         else rbind (writei_loop ip src (unat off) s) (\<lambda>s1.
              let end' = off + n
              in if n > 0 \<and> end' > i_size (inodes s1 ! ip)
                 then rbind (iupdate ip (upd_inode ip (\<lambda>i. i\<lparr>i_size := end'\<rparr>) s1)) (\<lambda>s2. Inr (sint n, s2))
                 else Inr (sint n, s1)))"

section \<open>Directories\<close>

text \<open>\<^verbatim>\<open>strncmp\<close> on the characters of two strings, each followed by a 0.\<close>

primrec str_ncmp :: "nat \<Rightarrow> uchar list \<Rightarrow> uchar list \<Rightarrow> int" where
  "str_ncmp 0 p q = 0"
| "str_ncmp (Suc n) p q =
     (let a = (case p of [] \<Rightarrow> 0 | c # _ \<Rightarrow> c); b = (case q of [] \<Rightarrow> 0 | c # _ \<Rightarrow> c)
      in if a \<noteq> 0 \<and> a = b then str_ncmp n (tl p) (tl q) else int (unat a) - int (unat b))"

definition namecmp :: "uchar list \<Rightarrow> uchar list \<Rightarrow> int" where
  "namecmp s t = str_ncmp DIRSIZ s t"

text \<open>A directory entry of 16 bytes: the inode number and 14 bytes of name.\<close>

definition de_inum :: "uchar list \<Rightarrow> nat" where
  "de_inum de = unat (le16 (de ! 0) (de ! 1))"

definition de_name :: "uchar list \<Rightarrow> uchar list" where
  "de_name de = take DIRSIZ (drop 2 de)"

text \<open>\<^verbatim>\<open>strncpy(de.name, name, DIRSIZ)\<close> pads with zeros.\<close>

definition mk_dirent :: "nat \<Rightarrow> uchar list \<Rightarrow> uchar list" where
  "mk_dirent inum name = [of_nat inum, of_nat (inum div 256)] @ take DIRSIZ (name @ replicate DIRSIZ 0)"

text \<open>The offsets \<open>a\<close>, \<open>a + 16\<close>, \<open>\<dots>\<close> below \<open>n\<close>.\<close>

definition de_offsets :: "nat \<Rightarrow> nat \<Rightarrow> nat list" where
  "de_offsets a n = map (\<lambda>k. a + 16 * k) [0..<(n - a + 15) div 16]"

primrec dirlookup_loop :: "nat \<Rightarrow> uchar list \<Rightarrow> nat list \<Rightarrow> 'a cstate_scheme \<Rightarrow> ((nat \<times> nat) option \<times> 'a cstate_scheme) res" where
  "dirlookup_loop dp name [] s = Inr (None, s)"
| "dirlookup_loop dp name (off # offs) s =
     rbind (readi dp (of_nat off) 16 s) (\<lambda>((r, de), s1).
     if r \<noteq> 16 then Inl (Panic ''dirlookup read'')
     else if de_inum de = 0 then dirlookup_loop dp name offs s1
     else if namecmp name (de_name de) = 0
     then rbind (iget (i_dev (inodes s1 ! dp)) (de_inum de) s1) (\<lambda>(ip, s2). Inr (Some (ip, off), s2))
     else dirlookup_loop dp name offs s1)"

definition dirlookup :: "nat \<Rightarrow> uchar list \<Rightarrow> 'a cstate_scheme \<Rightarrow> ((nat \<times> nat) option \<times> 'a cstate_scheme) res" where
  "dirlookup dp name s =
     (if i_type (inodes s ! dp) \<noteq> T_DIR then Inl (Panic ''dirlookup not DIR'')
      else dirlookup_loop dp name (de_offsets 0 (unat (i_size (inodes s ! dp)))) s)"

text \<open>The offset of the first empty entry, or the first offset past the end.\<close>

primrec free_dirent :: "nat \<Rightarrow> nat list \<Rightarrow> nat \<Rightarrow> 'a cstate_scheme \<Rightarrow> (nat \<times> 'a cstate_scheme) res" where
  "free_dirent dp [] stop s = Inr (stop, s)"
| "free_dirent dp (off # offs) stop s =
     rbind (readi dp (of_nat off) 16 s) (\<lambda>((r, de), s1).
     if r \<noteq> 16 then Inl (Panic ''dirlink read'')
     else if de_inum de = 0 then Inr (off, s1)
     else free_dirent dp offs stop s1)"

definition dirlink :: "nat \<Rightarrow> uchar list \<Rightarrow> nat \<Rightarrow> 'a cstate_scheme \<Rightarrow> (int \<times> 'a cstate_scheme) res" where
  "dirlink dp name inum s =
     rbind (dirlookup dp name s) (\<lambda>(found, s1).
     case found of
       Some (ip, _) \<Rightarrow> rbind (iput ip s1) (\<lambda>s2. Inr (-1, s2))
     | None \<Rightarrow>
         let len = unat (i_size (inodes s1 ! dp))
         in rbind (free_dirent dp (de_offsets 0 len) (16 * ((len + 15) div 16)) s1) (\<lambda>(off, s2).
            rbind (writei dp (mk_dirent inum name) (of_nat off) s2) (\<lambda>(r, s3).
            if r \<noteq> 16 then Inl (Panic ''dirlink'') else Inr (0, s3))))"

section \<open>Paths\<close>

text \<open>The next element of a path, cut to \<^verbatim>\<open>DIRSIZ\<close> characters, and the path that follows it.\<close>

definition skipelem :: "uchar list \<Rightarrow> (uchar list \<times> uchar list) option" where
  "skipelem path =
     (let p = dropWhile (\<lambda>c. c = 47) path
      in if p = [] then None
         else Some (take DIRSIZ (takeWhile (\<lambda>c. c \<noteq> 47) p), dropWhile (\<lambda>c. c = 47) (dropWhile (\<lambda>c. c \<noteq> 47) p)))"

lemma skipelem_shorter:
  assumes "skipelem path = Some (name, rest)"
  shows "length rest < length path"
proof -
  let ?p = "dropWhile (\<lambda>c. c = 47) path"
  have p: "?p \<noteq> []" and rest: "rest = dropWhile (\<lambda>c. c = 47) (dropWhile (\<lambda>c. c \<noteq> 47) ?p)"
    using assms by (auto simp: skipelem_def Let_def split: if_splits)
  obtain c cs where cs: "?p = c # cs" using p by (cases ?p) auto
  then have "c \<noteq> 47" using hd_dropWhile [OF p] by simp
  then have r: "rest = dropWhile (\<lambda>c. c = 47) (dropWhile (\<lambda>c. c \<noteq> 47) cs)" using rest cs by simp
  have "length rest \<le> length cs"
    unfolding r by (rule order_trans [OF length_dropWhile_le length_dropWhile_le])
  also have "\<dots> < length ?p" by (simp add: cs)
  also have "\<dots> \<le> length path" by (rule length_dropWhile_le)
  finally show ?thesis .
qed

text \<open>
  The loop of \<^verbatim>\<open>namex\<close>. The result is the inode and, for \<^verbatim>\<open>nameiparent\<close>, the last element.
\<close>

function namex_loop ::
  "bool \<Rightarrow> nat \<Rightarrow> uchar list \<Rightarrow> 'a cstate_scheme \<Rightarrow> ((nat \<times> uchar list) option \<times> 'a cstate_scheme) res" where
  "namex_loop parent ip path s =
     (case skipelem path of
        None \<Rightarrow> if parent then rbind (iput ip s) (\<lambda>s1. Inr (None, s1)) else Inr (Some (ip, []), s)
      | Some (name, rest) \<Rightarrow>
          rbind (ilock (Some ip) s) (\<lambda>s1.
          if i_type (inodes s1 ! ip) \<noteq> T_DIR then rbind (iunlockput ip s1) (\<lambda>s2. Inr (None, s2))
          else if parent \<and> rest = [] then rbind (iunlock (Some ip) s1) (\<lambda>s2. Inr (Some (ip, name), s2))
          else rbind (dirlookup ip name s1) (\<lambda>(found, s2).
               case found of
                 None \<Rightarrow> rbind (iunlockput ip s2) (\<lambda>s3. Inr (None, s3))
               | Some (nxt, _) \<Rightarrow> rbind (iunlockput ip s2) (\<lambda>s3. namex_loop parent nxt rest s3))))"
  by auto
termination
  by (relation "measure (\<lambda>(parent, ip, path, s). length path)") (auto dest: skipelem_shorter)

definition namex :: "uchar list \<Rightarrow> bool \<Rightarrow> 'a cstate_scheme \<Rightarrow> ((nat \<times> uchar list) option \<times> 'a cstate_scheme) res" where
  "namex path parent s =
     rbind (if path \<noteq> [] \<and> hd path = 47 then iget ROOTDEV ROOTINO s
            else rbind (myproc s) (\<lambda>p. case p_cwd (procs s ! p) of None \<Rightarrow> Inl (Undef ''cwd'') | Some ip \<Rightarrow> Inr (idup ip s)))
       (\<lambda>(ip, s1). namex_loop parent ip path s1)"

definition namei :: "uchar list \<Rightarrow> 'a cstate_scheme \<Rightarrow> (nat option \<times> 'a cstate_scheme) res" where
  "namei path s = rbind (namex path False s) (\<lambda>(r, s1). Inr (map_option fst r, s1))"

definition nameiparent :: "uchar list \<Rightarrow> 'a cstate_scheme \<Rightarrow> ((nat \<times> uchar list) option \<times> 'a cstate_scheme) res" where
  "nameiparent path s = namex path True s"

section \<open>Numbers in names\<close>

text \<open>The decimal digits of \<open>n\<close>, most significant first: the two loops of \<^verbatim>\<open>itoa\<close>.\<close>

fun dec_digits :: "nat \<Rightarrow> uchar list" where
  "dec_digits n = (if n < 10 then [] else dec_digits (n div 10)) @ [of_nat (48 + n mod 10)]"

definition itoa :: "int \<Rightarrow> uchar list" where
  "itoa i = (if i < 0 then 45 # dec_digits (nat (- i)) else dec_digits (nat i))"

text \<open>The name \<^verbatim>\<open>/.swap<pid>\<close> of a swap file.\<close>

definition swap_path :: "int \<Rightarrow> uchar list" where
  "swap_path pid = [47, 46, 115, 119, 97, 112] @ itoa pid"

end
