(* ===== verification/File.thy ===== *)
theory File
  imports Fs
begin

text \<open>
  Open files (\<^verbatim>\<open>file.c\<close>), pipes (\<^verbatim>\<open>pipe.c\<close>), the directory updates shared by the system calls
  (\<^verbatim>\<open>create\<close> and \<^verbatim>\<open>unlink\<close> of \<^verbatim>\<open>sysfile.c\<close>) and the swap files of \<^verbatim>\<open>fs.c\<close>. A file pointer is an index into
  \<^verbatim>\<open>ftable.file\<close>; a pipe is known by the address of its page.
\<close>

section \<open>State (file.h, pipe.c)\<close>

abbreviation NFILE :: nat where "NFILE \<equiv> 100"
abbreviation PIPESIZE :: nat where "PIPESIZE \<equiv> 512"

datatype filetype = FD_NONE | FD_PIPE | FD_INODE

record kfile =
  f_type :: filetype
  f_ref :: int
  f_readable :: bool
  f_writable :: bool
  f_pipe :: uint
  f_ip :: nat
  f_off :: uint

record pipe =
  pp_data :: bytes
  nread :: uint
  nwrite :: uint
  readopen :: bool
  writeopen :: bool

record xstate = cstate +
  ftable :: "kfile list"
  pipes :: "uint \<Rightarrow> pipe"

definition upd_file :: "nat \<Rightarrow> (kfile \<Rightarrow> kfile) \<Rightarrow> 'a xstate_scheme \<Rightarrow> 'a xstate_scheme" where
  "upd_file f g s = s\<lparr>ftable := (ftable s)[f := g (ftable s ! f)]\<rparr>"

definition upd_pipe :: "uint \<Rightarrow> (pipe \<Rightarrow> pipe) \<Rightarrow> 'a xstate_scheme \<Rightarrow> 'a xstate_scheme" where
  "upd_pipe p g s = s\<lparr>pipes := (pipes s)(p := g (pipes s p))\<rparr>"

section \<open>Pipes (pipe.c)\<close>

definition pipeclose :: "uint \<Rightarrow> bool \<Rightarrow> 'a xstate_scheme \<Rightarrow> 'a xstate_scheme res" where
  "pipeclose p writable s =
     (let s1 = (if writable then wakeup (ChanPipeRead (unat p)) (upd_pipe p (\<lambda>q. q\<lparr>writeopen := False\<rparr>) s)
                else wakeup (ChanPipeWrite (unat p)) (upd_pipe p (\<lambda>q. q\<lparr>readopen := False\<rparr>) s))
      in if \<not> readopen (pipes s1 p) \<and> \<not> writeopen (pipes s1 p) then kfree p s1 else Inr s1)"

text \<open>
  The copying loop of \<^verbatim>\<open>pipewrite\<close>: the bytes not yet written, how the loop left off, and the
  state. \<open>RSleep\<close> is the call of \<^verbatim>\<open>sleep\<close>, after which the loop goes on with the remaining bytes.
\<close>

primrec pipewrite_loop :: "uint \<Rightarrow> bool \<Rightarrow> uchar list \<Rightarrow> 'a xstate_scheme \<Rightarrow> uchar list \<times> rstatus \<times> 'a xstate_scheme" where
  "pipewrite_loop p killed [] s = ([], RDone, s)"
| "pipewrite_loop p killed (c # cs) s =
     (let q = pipes s p
      in if nwrite q = nread q + of_nat PIPESIZE
         then if \<not> readopen q \<or> killed then (c # cs, RKilled, s)
              else (c # cs, RSleep, wakeup (ChanPipeRead (unat p)) s)
         else pipewrite_loop p killed cs
                (upd_pipe p (\<lambda>q. q\<lparr>pp_data := (pp_data q)(unat (nwrite q) mod PIPESIZE := c), nwrite := nwrite q + 1\<rparr>) s))"

definition pipewrite :: "uint \<Rightarrow> uchar list \<Rightarrow> 'a xstate_scheme \<Rightarrow> (int \<times> 'a xstate_scheme) res" where
  "pipewrite p src s =
     rbind (myproc s) (\<lambda>me.
     case pipewrite_loop p (p_killed (procs s ! me)) src s of
       (_, RDone, s1) \<Rightarrow> Inr (int (length src), wakeup (ChanPipeRead (unat p)) s1)
     | (_, RKilled, s1) \<Rightarrow> Inr (-1, s1)
     | (_, RSleep, s1) \<Rightarrow> Inl (Blocked ''pipewrite''))"

primrec piperead_loop :: "uint \<Rightarrow> nat \<Rightarrow> 'a xstate_scheme \<Rightarrow> uchar list \<times> 'a xstate_scheme" where
  "piperead_loop p 0 s = ([], s)"
| "piperead_loop p (Suc n) s =
     (let q = pipes s p
      in if nread q = nwrite q then ([], s)
         else case piperead_loop p n (upd_pipe p (\<lambda>q. q\<lparr>nread := nread q + 1\<rparr>) s) of
                (cs, s1) \<Rightarrow> (pp_data q (unat (nread q) mod PIPESIZE) # cs, s1))"

definition piperead :: "uint \<Rightarrow> nat \<Rightarrow> 'a xstate_scheme \<Rightarrow> ((int \<times> uchar list) \<times> 'a xstate_scheme) res" where
  "piperead p n s =
     (let q = pipes s p
      in if nread q = nwrite q \<and> writeopen q
         then rbind (myproc s) (\<lambda>me.
              if p_killed (procs s ! me) then Inr ((-1, []), s) else Inl (Blocked ''piperead''))
         else case piperead_loop p n s of
                (cs, s1) \<Rightarrow> Inr ((int (length cs), cs), wakeup (ChanPipeWrite (unat p)) s1))"

section \<open>Open files (file.c)\<close>

definition filealloc :: "'a xstate_scheme \<Rightarrow> nat option \<times> 'a xstate_scheme" where
  "filealloc s =
     (case find (\<lambda>f. f_ref (ftable s ! f) = 0) [0..<length (ftable s)] of
        None \<Rightarrow> (None, s)
      | Some f \<Rightarrow> (Some f, upd_file f (\<lambda>x. x\<lparr>f_ref := 1\<rparr>) s))"

definition filedup :: "nat \<Rightarrow> 'a xstate_scheme \<Rightarrow> 'a xstate_scheme res" where
  "filedup f s =
     (if f_ref (ftable s ! f) < 1 then Inl (Panic ''filedup'')
      else Inr (upd_file f (\<lambda>x. x\<lparr>f_ref := f_ref x + 1\<rparr>) s))"

definition fileclose :: "nat \<Rightarrow> 'a xstate_scheme \<Rightarrow> 'a xstate_scheme res" where
  "fileclose f s =
     (let ff = ftable s ! f
      in if f_ref ff < 1 then Inl (Panic ''fileclose'')
         else if f_ref ff - 1 > 0 then Inr (upd_file f (\<lambda>x. x\<lparr>f_ref := f_ref x - 1\<rparr>) s)
         else let s1 = upd_file f (\<lambda>x. x\<lparr>f_ref := 0, f_type := FD_NONE\<rparr>) s
              in case f_type ff of
                   FD_PIPE \<Rightarrow> pipeclose (f_pipe ff) (f_writable ff) s1
                 | FD_INODE \<Rightarrow> rbind (begin_op s1) (\<lambda>s2. rbind (iput (f_ip ff) s2) end_op)
                 | FD_NONE \<Rightarrow> Inr s1)"

definition filestat :: "nat \<Rightarrow> 'a xstate_scheme \<Rightarrow> (stat option \<times> 'a xstate_scheme) res" where
  "filestat f s =
     (let ff = ftable s ! f
      in if f_type ff = FD_INODE
         then rbind (ilock (Some (f_ip ff)) s) (\<lambda>s1.
              rbind (iunlock (Some (f_ip ff)) s1) (\<lambda>s2.
              Inr (Some (stati (inodes s1 ! f_ip ff)), s2)))
         else Inr (None, s))"

definition fileread :: "nat \<Rightarrow> uint \<Rightarrow> 'a xstate_scheme \<Rightarrow> ((int \<times> uchar list) \<times> 'a xstate_scheme) res" where
  "fileread f n s =
     (let ff = ftable s ! f
      in if \<not> f_readable ff then Inr ((-1, []), s)
         else case f_type ff of
                FD_PIPE \<Rightarrow> piperead (f_pipe ff) (nat (sint n)) s
              | FD_INODE \<Rightarrow>
                  rbind (ilock (Some (f_ip ff)) s) (\<lambda>s1.
                  rbind (readi (f_ip ff) (f_off ff) n s1) (\<lambda>((r, cs), s2).
                  rbind (iunlock (Some (f_ip ff))
                           (if r > 0 then upd_file f (\<lambda>x. x\<lparr>f_off := f_off x + of_int r\<rparr>) s2 else s2)) (\<lambda>s3.
                  Inr ((r, cs), s3))))
              | FD_NONE \<Rightarrow> Inl (Panic ''fileread''))"

text \<open>At most three blocks per transaction: \<^verbatim>\<open>((MAXOPBLOCKS-1-1-2) / 2) * 512\<close> bytes.\<close>

definition write_max :: nat where
  "write_max = ((MAXOPBLOCKS - 1 - 1 - 2) div 2) * 512"

function filewrite_loop :: "nat \<Rightarrow> uchar list \<Rightarrow> 'a xstate_scheme \<Rightarrow> (bool \<times> 'a xstate_scheme) res" where
  "filewrite_loop f src s =
     (if src = [] then Inr (True, s)
      else let ip = f_ip (ftable s ! f); n1 = min (length src) write_max
           in rbind (begin_op s) (\<lambda>s1.
              rbind (ilock (Some ip) s1) (\<lambda>s2.
              rbind (writei ip (take n1 src) (f_off (ftable s2 ! f)) s2) (\<lambda>(r, s3).
              rbind (iunlock (Some ip)
                       (if r > 0 then upd_file f (\<lambda>x. x\<lparr>f_off := f_off x + of_int r\<rparr>) s3 else s3)) (\<lambda>s4.
              rbind (end_op s4) (\<lambda>s5.
              if r < 0 then Inr (False, s5)
              else if r \<noteq> int n1 then Inl (Panic ''short filewrite'')
              else filewrite_loop f (drop n1 src) s5))))))"
  by auto
termination
  by (relation "measure (\<lambda>(f, src, s). length src)") (auto simp: write_max_def min_def)

definition filewrite :: "nat \<Rightarrow> uchar list \<Rightarrow> 'a xstate_scheme \<Rightarrow> (int \<times> 'a xstate_scheme) res" where
  "filewrite f src s =
     (let ff = ftable s ! f
      in if \<not> f_writable ff then Inr (-1, s)
         else case f_type ff of
                FD_PIPE \<Rightarrow> pipewrite (f_pipe ff) src s
              | FD_INODE \<Rightarrow>
                  rbind (filewrite_loop f src s) (\<lambda>(ok, s1). Inr (if ok then int (length src) else -1, s1))
              | FD_NONE \<Rightarrow> Inl (Panic ''filewrite''))"

definition pipealloc :: "'a xstate_scheme \<Rightarrow> ((nat \<times> nat) option \<times> 'a xstate_scheme) res" where
  "pipealloc s =
     (case filealloc s of
        (None, s1) \<Rightarrow> Inr (None, s1)
      | (Some f0, s1) \<Rightarrow>
          (case filealloc s1 of
             (None, s2) \<Rightarrow> rbind (fileclose f0 s2) (\<lambda>s3. Inr (None, s3))
           | (Some f1, s2) \<Rightarrow>
               (case kalloc s2 of
                  (p, s3) \<Rightarrow>
                    if p = 0 then rbind (fileclose f0 s3) (\<lambda>s4. rbind (fileclose f1 s4) (\<lambda>s5. Inr (None, s5)))
                    else Inr (Some (f0, f1),
                           upd_file f1 (\<lambda>x. x\<lparr>f_type := FD_PIPE, f_readable := False, f_writable := True, f_pipe := p\<rparr>)
                          (upd_file f0 (\<lambda>x. x\<lparr>f_type := FD_PIPE, f_readable := True, f_writable := False, f_pipe := p\<rparr>)
                          (upd_pipe p (\<lambda>q. q\<lparr>readopen := True, writeopen := True, nwrite := 0, nread := 0\<rparr>) s3))))))"

section \<open>Creating and removing directory entries (sysfile.c)\<close>

definition create ::
  "uchar list \<Rightarrow> ushort \<Rightarrow> ushort \<Rightarrow> ushort \<Rightarrow> 'a cstate_scheme \<Rightarrow> (nat option \<times> 'a cstate_scheme) res" where
  "create path type major minor s =
     rbind (nameiparent path s) (\<lambda>(r, s1).
     case r of
       None \<Rightarrow> Inr (None, s1)
     | Some (dp, name) \<Rightarrow>
         rbind (ilock (Some dp) s1) (\<lambda>s2.
         rbind (dirlookup dp name s2) (\<lambda>(found, s3).
         case found of
           Some (ip, _) \<Rightarrow>
             rbind (iunlockput dp s3) (\<lambda>s4.
             rbind (ilock (Some ip) s4) (\<lambda>s5.
             if type = T_FILE \<and> i_type (inodes s5 ! ip) = T_FILE then Inr (Some ip, s5)
             else rbind (iunlockput ip s5) (\<lambda>s6. Inr (None, s6))))
         | None \<Rightarrow>
             rbind (ialloc (i_dev (inodes s3 ! dp)) type s3) (\<lambda>(ip, s4).
             rbind (ilock (Some ip) s4) (\<lambda>s5.
             rbind (iupdate ip (upd_inode ip (\<lambda>i. i\<lparr>i_major := major, i_minor := minor, i_nlink := 1\<rparr>) s5)) (\<lambda>s6.
             rbind (if type = T_DIR
                    then rbind (iupdate dp (upd_inode dp (\<lambda>i. i\<lparr>i_nlink := i_nlink i + 1\<rparr>) s6)) (\<lambda>s7.
                         rbind (dirlink ip [46] (i_inum (inodes s7 ! ip)) s7) (\<lambda>(r1, s8).
                         if r1 < 0 then Inl (Panic ''create dots'')
                         else rbind (dirlink ip [46, 46] (i_inum (inodes s8 ! dp)) s8) (\<lambda>(r2, s9).
                              if r2 < 0 then Inl (Panic ''create dots'') else Inr s9)))
                    else Inr s6) (\<lambda>s10.
             rbind (dirlink dp name (i_inum (inodes s10 ! ip)) s10) (\<lambda>(r3, s11).
             if r3 < 0 then Inl (Panic ''create: dirlink'')
             else rbind (iunlockput dp s11) (\<lambda>s12. Inr (Some ip, s12))))))))))"

primrec isdirempty_loop :: "nat \<Rightarrow> nat list \<Rightarrow> 'a cstate_scheme \<Rightarrow> (bool \<times> 'a cstate_scheme) res" where
  "isdirempty_loop dp [] s = Inr (True, s)"
| "isdirempty_loop dp (off # offs) s =
     rbind (readi dp (of_nat off) 16 s) (\<lambda>((r, de), s1).
     if r \<noteq> 16 then Inl (Panic ''isdirempty: readi'')
     else if de_inum de \<noteq> 0 then Inr (False, s1)
     else isdirempty_loop dp offs s1)"

definition isdirempty :: "nat \<Rightarrow> 'a cstate_scheme \<Rightarrow> (bool \<times> 'a cstate_scheme) res" where
  "isdirempty dp s = isdirempty_loop dp (de_offsets 32 (unat (i_size (inodes s ! dp)))) s"

text \<open>\<^verbatim>\<open>unlink\<close> from its \<^verbatim>\<open>begin_op\<close> on; \<^verbatim>\<open>removeSwapFile\<close> repeats the same code.\<close>

definition unlink_bad :: "nat \<Rightarrow> 'a cstate_scheme \<Rightarrow> (int \<times> 'a cstate_scheme) res" where
  "unlink_bad dp s = rbind (iunlockput dp s) (\<lambda>s1. rbind (end_op s1) (\<lambda>s2. Inr (-1, s2)))"

definition unlink_entry :: "nat \<Rightarrow> nat \<Rightarrow> nat \<Rightarrow> 'a cstate_scheme \<Rightarrow> (int \<times> 'a cstate_scheme) res" where
  "unlink_entry dp ip off s =
     rbind (writei dp (replicate 16 0) (of_nat off) s) (\<lambda>(r, s1).
     if r \<noteq> 16 then Inl (Panic ''unlink: writei'')
     else rbind (if i_type (inodes s1 ! ip) = T_DIR
                 then iupdate dp (upd_inode dp (\<lambda>i. i\<lparr>i_nlink := i_nlink i - 1\<rparr>) s1)
                 else Inr s1) (\<lambda>s2.
          rbind (iunlockput dp s2) (\<lambda>s3.
          rbind (iupdate ip (upd_inode ip (\<lambda>i. i\<lparr>i_nlink := i_nlink i - 1\<rparr>) s3)) (\<lambda>s4.
          rbind (iunlockput ip s4) (\<lambda>s5.
          rbind (end_op s5) (\<lambda>s6.
          Inr (0, s6)))))))"

definition unlink :: "uchar list \<Rightarrow> 'a cstate_scheme \<Rightarrow> (int \<times> 'a cstate_scheme) res" where
  "unlink path s =
     rbind (begin_op s) (\<lambda>s0.
     rbind (nameiparent path s0) (\<lambda>(r, s1).
     case r of
       None \<Rightarrow> rbind (end_op s1) (\<lambda>s2. Inr (-1, s2))
     | Some (dp, name) \<Rightarrow>
         rbind (ilock (Some dp) s1) (\<lambda>s2.
         if namecmp name [46] = 0 \<or> namecmp name [46, 46] = 0 then unlink_bad dp s2
         else rbind (dirlookup dp name s2) (\<lambda>(found, s3).
              case found of
                None \<Rightarrow> unlink_bad dp s3
              | Some (ip, off) \<Rightarrow>
                  rbind (ilock (Some ip) s3) (\<lambda>s4.
                  if sint (i_nlink (inodes s4 ! ip)) < 1 then Inl (Panic ''unlink: nlink < 1'')
                  else if i_type (inodes s4 ! ip) = T_DIR
                  then rbind (isdirempty ip s4) (\<lambda>(e, s5).
                       if e then unlink_entry dp ip off s5
                       else rbind (iunlockput ip s5) (\<lambda>s6. unlink_bad dp s6))
                  else unlink_entry dp ip off s4)))))"

section \<open>Swap files (fs.c)\<close>

text \<open>The path is built in \<^verbatim>\<open>char path[14]\<close>: a process number of eight digits does not fit.\<close>

definition path_fits :: "int \<Rightarrow> bool" where
  "path_fits pid \<longleftrightarrow> length (swap_path pid) < 14"

definition removeSwapFile :: "nat \<Rightarrow> 'a xstate_scheme \<Rightarrow> (int \<times> 'a xstate_scheme) res" where
  "removeSwapFile p s =
     (let pid = p_pid (procs s ! p)
      in if \<not> path_fits pid then Inl (Undef ''path'')
         else case p_swapFile (procs s ! p) of
                None \<Rightarrow> Inr (-1, s)
              | Some f \<Rightarrow> rbind (fileclose f s) (\<lambda>s1. unlink (swap_path pid) s1))"

definition createSwapFile :: "nat \<Rightarrow> 'a xstate_scheme \<Rightarrow> (int \<times> 'a xstate_scheme) res" where
  "createSwapFile p s =
     (let pid = p_pid (procs s ! p)
      in if \<not> path_fits pid then Inl (Undef ''path'')
         else rbind (begin_op s) (\<lambda>s1.
              rbind (create (swap_path pid) T_FILE 0 0 s1) (\<lambda>(ipp, s2).
              rbind (iunlock ipp s2) (\<lambda>s3.
              case filealloc s3 of
                (None, s4) \<Rightarrow> Inl (Panic ''no slot for files on /store'')
              | (Some f, s4) \<Rightarrow>
                  rbind (end_op (upd_file f (\<lambda>x. x\<lparr>f_ip := the ipp, f_type := FD_INODE, f_off := 0, f_readable := True,
                                                   f_writable := True\<rparr>)
                          (upd_proc p (\<lambda>q. q\<lparr>p_swapFile := Some f\<rparr>) s4))) (\<lambda>s5.
                  Inr (0, s5))))))"

definition writeToSwapFile :: "nat \<Rightarrow> uchar list \<Rightarrow> uint \<Rightarrow> 'a xstate_scheme \<Rightarrow> (int \<times> 'a xstate_scheme) res" where
  "writeToSwapFile p buffer placeOnFile s =
     (case p_swapFile (procs s ! p) of
        None \<Rightarrow> Inl (Undef ''swapFile'')
      | Some f \<Rightarrow> filewrite f buffer (upd_file f (\<lambda>x. x\<lparr>f_off := placeOnFile\<rparr>) s))"

definition readFromSwapFile ::
  "nat \<Rightarrow> uint \<Rightarrow> uint \<Rightarrow> 'a xstate_scheme \<Rightarrow> ((int \<times> uchar list) \<times> 'a xstate_scheme) res" where
  "readFromSwapFile p placeOnFile n s =
     (case p_swapFile (procs s ! p) of
        None \<Rightarrow> Inl (Undef ''swapFile'')
      | Some f \<Rightarrow> fileread f n (upd_file f (\<lambda>x. x\<lparr>f_off := placeOnFile\<rparr>) s))"

end
