(* ===== verification/PipeFlow.thy ===== *)
theory PipeFlow
  imports File
begin

text \<open>
  The bytes that flow through a pipe: one process writing, one reading, each copying as far as
  it can and then sleeping, in any interleaving. Nothing is lost, reordered or duplicated, and
  the two never sleep at the same time.
\<close>

interpretation pipe_ring: ring PIPESIZE
  by unfold_locales simp_all

definition pipe_queue :: "pipe \<Rightarrow> uchar list" where
  "pipe_queue q = ring_bytes PIPESIZE (pp_data q) (nread q) (nwrite q)"

definition pipe_ok :: "pipe \<Rightarrow> bool" where
  "pipe_ok q \<longleftrightarrow> unat (nwrite q - nread q) \<le> PIPESIZE"

lemma length_pipe_queue: "length (pipe_queue q) = unat (nwrite q - nread q)"
  by (simp add: pipe_queue_def ring_bytes_def)

lemma pipe_full: "nwrite q = nread q + of_nat PIPESIZE \<longleftrightarrow> length (pipe_queue q) = PIPESIZE"
proof
  assume "length (pipe_queue q) = PIPESIZE"
  then have "nwrite q - nread q = of_nat PIPESIZE" by (simp add: length_pipe_queue word_unat_eq_iff)
  then show "nwrite q = nread q + of_nat PIPESIZE" by (simp add: algebra_simps)
qed (simp add: length_pipe_queue)

lemma pipe_empty: "nread q = nwrite q \<longleftrightarrow> pipe_queue q = []"
  using length_pipe_queue [of q] by (auto simp: pipe_queue_def ring_bytes_def unat_eq_zero)

lemma queue_put:
  assumes "pipe_ok q" "nwrite q \<noteq> nread q + of_nat PIPESIZE"
    and q': "q' = q\<lparr>pp_data := (pp_data q)(unat (nwrite q) mod PIPESIZE := c), nwrite := nwrite q + 1\<rparr>"
  shows "pipe_queue q' = pipe_queue q @ [c]" "pipe_ok q'"
proof -
  have lt: "unat (nwrite q - nread q) < PIPESIZE" using assms(1,2) pipe_full [of q] by (simp add: length_pipe_queue pipe_ok_def)
  show v: "pipe_queue q' = pipe_queue q @ [c]" using pipe_ring.put [OF lt] by (simp add: pipe_queue_def q')
  then show "pipe_ok q'" using lt length_pipe_queue [of q'] length_pipe_queue [of q] by (simp add: pipe_ok_def)
qed

lemma queue_get:
  assumes "nread q \<noteq> nwrite q"
  shows "pipe_queue q = pp_data q (unat (nread q) mod PIPESIZE) # pipe_queue (q\<lparr>nread := nread q + 1\<rparr>)"
    "pipe_ok q \<Longrightarrow> pipe_ok (q\<lparr>nread := nread q + 1\<rparr>)"
proof -
  show "pipe_queue q = pp_data q (unat (nread q) mod PIPESIZE) # pipe_queue (q\<lparr>nread := nread q + 1\<rparr>)"
    using pipe_ring.get [OF assms] by (simp add: pipe_queue_def)
  show "pipe_ok (q\<lparr>nread := nread q + 1\<rparr>)" if "pipe_ok q"
    using that unat_diff_Suc [OF assms] by (simp add: pipe_ok_def)
qed

lemma upd_pipe_simps [simp]: "pipes (upd_pipe p g s) p = g (pipes s p)" "procs (upd_pipe p g s) = procs s"
  by (simp_all add: upd_pipe_def)

lemma wakeup_pipes [simp]: "pipes (wakeup chn s) = pipes s" "procs (wakeup chn s) = wakeup1 chn (procs s)"
  by (simp_all add: wakeup_def)

text \<open>What each loop does to the queue.\<close>

lemma write_flow:
  assumes "pipewrite_loop p killed cs s = (rest, st, t)" "pipe_ok (pipes s p)"
  shows "\<exists>put. cs = put @ rest \<and> pipe_queue (pipes t p) = pipe_queue (pipes s p) @ put \<and> pipe_ok (pipes t p) \<and>
    readopen (pipes t p) = readopen (pipes s p) \<and> writeopen (pipes t p) = writeopen (pipes s p) \<and>
    (st = RDone \<longrightarrow> rest = [] \<and> procs t = procs s) \<and>
    (st = RSleep \<longrightarrow> rest \<noteq> [] \<and> length (pipe_queue (pipes t p)) = PIPESIZE \<and>
      procs t = wakeup1 (ChanPipeRead (unat p)) (procs s))"
  using assms
proof (induction cs arbitrary: s)
  case (Cons c cs)
  show ?case
  proof (cases "nwrite (pipes s p) = nread (pipes s p) + of_nat PIPESIZE")
    case True
    then show ?thesis using Cons.prems pipe_full [of "pipes s p"] by (auto simp: Let_def split: if_splits)
  next
    case False
    let ?s = "upd_pipe p (\<lambda>q. q\<lparr>pp_data := (pp_data q)(unat (nwrite q) mod PIPESIZE := c), nwrite := nwrite q + 1\<rparr>) s"
    note qp = queue_put [OF Cons.prems(2) False refl, of c]
    have "pipewrite_loop p killed cs ?s = (rest, st, t)" using Cons.prems(1) False by (simp add: Let_def)
    from Cons.IH [OF this] qp show ?thesis by fastforce
  qed
qed auto

lemma write_not_killed: "readopen (pipes s p) \<Longrightarrow> fst (snd (pipewrite_loop p False cs s)) \<noteq> RKilled"
  by (induction cs arbitrary: s) (auto simp: Let_def)

lemma read_flow:
  assumes "piperead_loop p n s = (cs, t)" "pipe_ok (pipes s p)"
  shows "pipe_queue (pipes s p) = cs @ pipe_queue (pipes t p) \<and> length cs = min n (length (pipe_queue (pipes s p))) \<and>
    pipe_ok (pipes t p) \<and> readopen (pipes t p) = readopen (pipes s p) \<and> writeopen (pipes t p) = writeopen (pipes s p) \<and>
    procs t = procs s"
  using assms
proof (induction n arbitrary: s cs)
  case (Suc n)
  show ?case
  proof (cases "nread (pipes s p) = nwrite (pipes s p)")
    case True
    then show ?thesis using Suc.prems pipe_empty [of "pipes s p"] by simp
  next
    case False
    let ?s = "upd_pipe p (\<lambda>q. q\<lparr>nread := nread q + 1\<rparr>) s"
    obtain cs' where l: "piperead_loop p n ?s = (cs', t)" "cs = pp_data (pipes s p) (unat (nread (pipes s p)) mod PIPESIZE) # cs'"
      using Suc.prems(1) False by (auto simp: Let_def split: prod.splits)
    have ok: "pipe_ok (pipes ?s p)" using queue_get(2) [OF False Suc.prems(2)] by simp
    have q: "pipe_queue (pipes s p) = pp_data (pipes s p) (unat (nread (pipes s p)) mod PIPESIZE) # pipe_queue (pipes ?s p)"
      using queue_get(1) [OF False] by simp
    have "readopen (pipes ?s p) = readopen (pipes s p)" "writeopen (pipes ?s p) = writeopen (pipes s p)" "procs ?s = procs s" by simp_all
    with Suc.IH [OF l(1) ok] show ?thesis unfolding l(2) q by (simp only: append_Cons list.size min_Suc_Suc simp_thms)
  qed
qed auto

section \<open>A writer and a reader\<close>

text \<open>
  The kernel state, the bytes the current \<^verbatim>\<open>pipewrite\<close> has left to store, all bytes handed to
  \<^verbatim>\<open>pipewrite\<close> so far and all bytes \<^verbatim>\<open>piperead\<close> has returned. Process \<open>w\<close> writes to the pipe \<open>p\<close>, process
  \<open>r\<close> reads from it; \<^verbatim>\<open>p->lock\<close> makes each run of a loop up to its sleep one step.
\<close>

record pflow =
  ks :: xstate
  todo :: "uchar list"
  sent :: "uchar list"
  got :: "uchar list"

definition asleep :: "nat \<Rightarrow> xstate \<Rightarrow> bool" where
  "asleep i k \<longleftrightarrow> p_state (procs k ! i) = SLEEPING"

inductive pflow_step :: "uint \<Rightarrow> nat \<Rightarrow> nat \<Rightarrow> pflow \<Rightarrow> pflow \<Rightarrow> bool" for p w r where
  write_call: "\<not> asleep w (ks S) \<Longrightarrow> todo S = [] \<Longrightarrow> pflow_step p w r S (S\<lparr>todo := src, sent := sent S @ src\<rparr>)"
| write_done: "\<not> asleep w (ks S) \<Longrightarrow> pipewrite_loop p False (todo S) (ks S) = (rest, RDone, k) \<Longrightarrow>
    pflow_step p w r S (S\<lparr>ks := wakeup (ChanPipeRead (unat p)) k, todo := rest\<rparr>)"
| write_sleep: "\<not> asleep w (ks S) \<Longrightarrow> pipewrite_loop p False (todo S) (ks S) = (rest, RSleep, k) \<Longrightarrow>
    pflow_step p w r S (S\<lparr>ks := k\<lparr>procs := sleep_enter w (ChanPipeWrite (unat p)) (procs k)\<rparr>, todo := rest\<rparr>)"
| read_some: "\<not> asleep r (ks S) \<Longrightarrow> \<not> (nread (pipes (ks S) p) = nwrite (pipes (ks S) p) \<and> writeopen (pipes (ks S) p)) \<Longrightarrow>
    piperead_loop p n (ks S) = (cs, k) \<Longrightarrow>
    pflow_step p w r S (S\<lparr>ks := wakeup (ChanPipeWrite (unat p)) k, got := got S @ cs\<rparr>)"
| read_sleep: "\<not> asleep r (ks S) \<Longrightarrow> nread (pipes (ks S) p) = nwrite (pipes (ks S) p) \<Longrightarrow> writeopen (pipes (ks S) p) \<Longrightarrow>
    pflow_step p w r S (S\<lparr>ks := (ks S)\<lparr>procs := sleep_enter r (ChanPipeRead (unat p)) (procs (ks S))\<rparr>\<rparr>)"
| resume: "i = w \<or> i = r \<Longrightarrow> \<not> asleep i (ks S) \<Longrightarrow>
    pflow_step p w r S (S\<lparr>ks := (ks S)\<lparr>procs := sleep_leave i (procs (ks S))\<rparr>\<rparr>)"
| other_wakeup: "pflow_step p w r S (S\<lparr>ks := wakeup chn (ks S)\<rparr>)"

definition pflow_inv :: "uint \<Rightarrow> nat \<Rightarrow> nat \<Rightarrow> pflow \<Rightarrow> bool" where
  "pflow_inv p w r S \<longleftrightarrow>
     (let k = ks S; q = pipe_queue (pipes k p)
      in w < length (procs k) \<and> r < length (procs k) \<and> pipe_ok (pipes k p) \<and> sent S = got S @ q @ todo S \<and>
         (asleep w k \<longrightarrow> p_chan (procs k ! w) = ChanPipeWrite (unat p) \<and> todo S \<noteq> [] \<and> length q = PIPESIZE) \<and>
         (asleep r k \<longrightarrow> p_chan (procs k ! r) = ChanPipeRead (unat p) \<and> q = []))"

lemma pflow_invD:
  assumes "pflow_inv p w r S"
  shows "w < length (procs (ks S))" "r < length (procs (ks S))" "pipe_ok (pipes (ks S) p)"
    "sent S = got S @ pipe_queue (pipes (ks S) p) @ todo S"
    "asleep w (ks S) \<Longrightarrow> p_chan (procs (ks S) ! w) = ChanPipeWrite (unat p) \<and> todo S \<noteq> [] \<and> length (pipe_queue (pipes (ks S) p)) = PIPESIZE"
    "asleep r (ks S) \<Longrightarrow> p_chan (procs (ks S) ! r) = ChanPipeRead (unat p) \<and> pipe_queue (pipes (ks S) p) = []"
  using assms by (simp_all add: pflow_inv_def Let_def)

lemma asleep_wakeup: "i < length (procs k) \<Longrightarrow> asleep i (wakeup chn k) \<longleftrightarrow> asleep i k \<and> p_chan (procs k ! i) \<noteq> chn"
  by (auto simp: asleep_def)

lemma asleep_wakeup1: "i < length ps \<Longrightarrow> p_state (wakeup1 chn ps ! i) = SLEEPING \<longleftrightarrow> p_state (ps ! i) = SLEEPING \<and> p_chan (ps ! i) \<noteq> chn"
  by auto

lemma asleep_enter:
  "i < length ps \<Longrightarrow> p_state (sleep_enter j chn ps ! i) = SLEEPING \<longleftrightarrow> i = j \<or> p_state (ps ! i) = SLEEPING"
  "i < length ps \<Longrightarrow> p_chan (sleep_enter j chn ps ! i) = (if i = j then chn else p_chan (ps ! i))"
  "length (sleep_enter j chn ps) = length ps"
  by (cases "i = j"; auto simp: sleep_enter_def)+

lemma asleep_leave:
  "i < length ps \<Longrightarrow> p_state (sleep_leave j ps ! i) = p_state (ps ! i)"
  "i < length ps \<Longrightarrow> p_chan (sleep_leave j ps ! i) = (if i = j then NoChan else p_chan (ps ! i))"
  "length (sleep_leave j ps) = length ps"
  by (cases "i = j"; auto simp: sleep_leave_def)+

lemmas asleep_simps = asleep_wakeup1 asleep_enter asleep_leave

lemma pflow_step_inv:
  assumes "pflow_step p w r S T" "pflow_inv p w r S" "w \<noteq> r"
  shows "pflow_inv p w r T"
proof -
  note i = pflow_invD [OF assms(2), unfolded asleep_def]
  from assms(1) show ?thesis
  proof cases
    case (write_call src)
    then show ?thesis using i by (simp add: pflow_inv_def Let_def asleep_def)
  next
    case (write_done rest k)
    from write_flow [OF write_done(3) i(3)] obtain put where "todo S = put @ rest"
      "pipe_queue (pipes k p) = pipe_queue (pipes (ks S) p) @ put" "pipe_ok (pipes k p)" "procs k = procs (ks S)" by blast
    with i write_done(2) show ?thesis unfolding write_done(1)
      by (auto simp: pflow_inv_def Let_def asleep_def asleep_simps simp del: wakeup1_fields(4))
  next
    case (write_sleep rest k)
    from write_flow [OF write_sleep(3) i(3)] obtain put where "todo S = put @ rest" "rest \<noteq> []"
      "pipe_queue (pipes k p) = pipe_queue (pipes (ks S) p) @ put" "pipe_ok (pipes k p)"
      "length (pipe_queue (pipes k p)) = PIPESIZE" "procs k = wakeup1 (ChanPipeRead (unat p)) (procs (ks S))" by blast
    with i assms(3) show ?thesis unfolding write_sleep(1)
      by (auto simp: pflow_inv_def Let_def asleep_def asleep_simps simp del: wakeup1_fields(4))
  next
    case (read_some n cs k)
    from read_flow [OF read_some(4) i(3)] have "pipe_queue (pipes (ks S) p) = cs @ pipe_queue (pipes k p)" "pipe_ok (pipes k p)"
      "procs k = procs (ks S)" by blast+
    with i read_some(2) show ?thesis unfolding read_some(1)
      by (auto simp: pflow_inv_def Let_def asleep_def asleep_simps simp del: wakeup1_fields(4))
  next
    case read_sleep
    then have "pipe_queue (pipes (ks S) p) = []" by (simp add: pipe_empty)
    with i assms(3) show ?thesis unfolding read_sleep(1) by (auto simp: pflow_inv_def Let_def asleep_def asleep_simps)
  next
    case (resume j)
    then show ?thesis using i assms(3) by (auto simp: pflow_inv_def Let_def asleep_def asleep_simps)
  next
    case (other_wakeup chn)
    with i show ?thesis by (auto simp: pflow_inv_def Let_def asleep_def asleep_simps simp del: wakeup1_fields(4))
  qed
qed

text \<open>The two ends start awake, with nothing in the pipe.\<close>

definition pflow_init :: "uint \<Rightarrow> nat \<Rightarrow> nat \<Rightarrow> pflow \<Rightarrow> bool" where
  "pflow_init p w r S \<longleftrightarrow> w \<noteq> r \<and> w < length (procs (ks S)) \<and> r < length (procs (ks S)) \<and> \<not> asleep w (ks S) \<and> \<not> asleep r (ks S) \<and>
     nread (pipes (ks S) p) = nwrite (pipes (ks S) p) \<and> todo S = [] \<and> sent S = [] \<and> got S = []"

interpretation pflow_sys: inv_system "pflow_init p w r" "pflow_step p w r" "\<lambda>S. w \<noteq> r \<and> pflow_inv p w r S" for p w r
proof (unfold_locales, goal_cases)
  case (1 S)
  then have "pipe_queue (pipes (ks S) p) = []" by (simp add: pflow_init_def flip: pipe_empty)
  with 1 show ?case by (simp add: pflow_init_def pflow_inv_def pipe_ok_def Let_def)
next
  case (2 S T)
  then show ?case using pflow_step_inv by blast
qed

text \<open>
  C26. A pipe is a reliable bounded byte stream: however the rounds of a writing and a reading
  process interleave, at every moment the bytes read, followed by the at most 512 bytes in the
  pipe and the bytes the current write has still to store, are the bytes written, in order.
  The counters may wrap around.
\<close>

theorem pipe_fifo:
  assumes "reach (pflow_init p w r) (pflow_step p w r) S"
  shows "sent S = got S @ pipe_queue (pipes (ks S) p) @ todo S \<and> length (pipe_queue (pipes (ks S) p)) \<le> PIPESIZE"
  using pflow_sys.reach_inv [OF assms] by (auto simp: length_pipe_queue pipe_ok_def dest: pflow_invD(3,4))

text \<open>
  C27. The two ends of a pipe do not deadlock. In every reachable state at most one of them
  sleeps. While the writer sleeps the pipe is full, and any read takes bytes and makes the
  writer runnable; while the reader sleeps the pipe is empty, and any run of a write makes the
  reader runnable.
\<close>

theorem pipe_no_deadlock:
  assumes "reach (pflow_init p w r) (pflow_step p w r) S"
  shows "\<not> (asleep w (ks S) \<and> asleep r (ks S)) \<and>
    (asleep w (ks S) \<longrightarrow> (\<exists>cs k. piperead_loop p n (ks S) = (cs, k) \<and> length cs = min n PIPESIZE \<and>
       p_state (procs (wakeup (ChanPipeWrite (unat p)) k) ! w) = RUNNABLE)) \<and>
    (asleep r (ks S) \<and> readopen (pipes (ks S) p) \<longrightarrow> (\<exists>rest st k. pipewrite_loop p False src (ks S) = (rest, st, k) \<and> st \<noteq> RKilled \<and>
       p_state (procs (if st = RDone then wakeup (ChanPipeRead (unat p)) k else k) ! r) = RUNNABLE))"
proof -
  from pflow_sys.reach_inv [OF assms] have i: "pflow_inv p w r S" by blast
  note d = pflow_invD [OF i]
  have "\<not> (asleep w (ks S) \<and> asleep r (ks S))" using d(5,6) by auto
  moreover have "\<exists>cs k. piperead_loop p n (ks S) = (cs, k) \<and> length cs = min n PIPESIZE \<and>
       p_state (procs (wakeup (ChanPipeWrite (unat p)) k) ! w) = RUNNABLE" if "asleep w (ks S)"
  proof -
    obtain cs k where l: "piperead_loop p n (ks S) = (cs, k)" by fastforce
    from read_flow [OF l d(3)] d(1) d(5) [OF that] that l show ?thesis by (simp add: asleep_def)
  qed
  moreover have "\<exists>rest st k. pipewrite_loop p False src (ks S) = (rest, st, k) \<and> st \<noteq> RKilled \<and>
       p_state (procs (if st = RDone then wakeup (ChanPipeRead (unat p)) k else k) ! r) = RUNNABLE"
    if a: "asleep r (ks S)" and o: "readopen (pipes (ks S) p)"
  proof -
    obtain rest st k where l: "pipewrite_loop p False src (ks S) = (rest, st, k)" by (metis prod.exhaust)
    have "st \<noteq> RKilled" using write_not_killed [OF o, of src] l by simp
    with write_flow [OF l d(3)] d(2) d(6) [OF a] a l show ?thesis by (cases st) (auto simp: asleep_def)
  qed
  ultimately show ?thesis by blast
qed

definition flow0 :: pflow where
  "flow0 = \<lparr>ks = cstate.extend (blank_console\<lparr>procs := [proc0\<lparr>p_state := RUNNING\<rparr>, proc0\<lparr>p_state := RUNNABLE\<rparr>]\<rparr>)
       (xstate.fields [] (\<lambda>_. \<lparr>pp_data = (\<lambda>_. 0), nread = - 1, nwrite = - 1, readopen = True, writeopen = True\<rparr>)),
     todo = [], sent = [], got = []\<rparr>"

lemmas flow0_simps = flow0_def blank_console_def cstate.defs xstate.defs asleep_def

lemma flow0_reach: "reach (pflow_init 0 0 1) (pflow_step 0 0 1) flow0"
  by (rule reach_init) (simp add: pflow_init_def flow0_simps proc0_def)

lemma flow_read_sleep: "reach (pflow_init 0 0 1) (pflow_step 0 0 1)
    (flow0\<lparr>ks := (ks flow0)\<lparr>procs := sleep_enter 1 (ChanPipeRead (unat (0 :: uint))) (procs (ks flow0))\<rparr>\<rparr>)"
  by (rule reach_step [OF flow0_reach read_sleep]) (simp_all add: flow0_simps proc0_def)

lemma flow_write_call: "reach (pflow_init 0 0 1) (pflow_step 0 0 1) (flow0\<lparr>todo := [5, 6], sent := [5, 6]\<rparr>)"
  using reach_step [OF flow0_reach write_call [of 0 flow0 0 1 "[5, 6]"]] by (simp add: flow0_simps proc0_def)

text \<open>Two bytes stored as the counter wraps around.\<close>

theorem pipe_fifo_witness:
  "\<exists>S :: pflow. todo S = [] \<and> sent S = [5, 6] \<and> got S = [] \<and> pipe_queue (pipes (ks S) 0) = [5, 6]"
proof -
  let ?S = "flow0\<lparr>todo := [5, 6], sent := [5, 6]\<rparr>"
  obtain rest st k where l: "pipewrite_loop 0 False (todo ?S) (ks ?S) = (rest, st, k)" by (metis prod.exhaust)
  then have st: "st = RDone" "rest = []" by (auto simp: flow0_simps upd_pipe_def Let_def)
  let ?T = "?S\<lparr>ks := wakeup (ChanPipeRead (unat (0 :: uint))) k, todo := []\<rparr>"
  have "pflow_step 0 0 1 ?S ?T"
    using write_done [of 0 ?S 0 "[]" k 1] l st by (simp add: flow0_simps proc0_def)
  from pipe_fifo [OF reach_step [OF flow_write_call this]] have "sent ?T = got ?T @ pipe_queue (pipes (ks ?T) 0) @ todo ?T" by blast
  moreover have "got flow0 = []" by (simp add: flow0_def)
  ultimately have "todo ?T = []" "sent ?T = [5, 6]" "got ?T = []" "pipe_queue (pipes (ks ?T) 0) = [5, 6]" by simp_all
  then show ?thesis by blast
qed

theorem pipe_no_deadlock_witness:
  "\<exists>(S :: pflow) rest st k. asleep 1 (ks S) \<and> pipewrite_loop 0 False [9] (ks S) = (rest, st, k) \<and> st \<noteq> RKilled \<and>
     p_state (procs (if st = RDone then wakeup (ChanPipeRead 0) k else k) ! 1) = RUNNABLE"
proof -
  let ?S = "flow0\<lparr>ks := (ks flow0)\<lparr>procs := sleep_enter 1 (ChanPipeRead (unat (0 :: uint))) (procs (ks flow0))\<rparr>\<rparr>"
  have a: "asleep 1 (ks ?S)" "readopen (pipes (ks ?S) 0)" by (simp_all add: flow0_simps proc0_def sleep_enter_def)
  from pipe_no_deadlock [OF flow_read_sleep, of 1 "[9]"] a have
    "\<exists>rest st k. pipewrite_loop 0 False [9] (ks ?S) = (rest, st, k) \<and> st \<noteq> RKilled \<and>
       p_state (procs (if st = RDone then wakeup (ChanPipeRead (unat (0 :: uint))) k else k) ! 1) = RUNNABLE" by blast
  with a(1) show ?thesis unfolding unsigned_0 by blast
qed

end
