(* ===== verification/Vm.thy ===== *)
theory Vm
  imports File
begin

text \<open>
  Virtual memory of \<^verbatim>\<open>vm.c\<close>: two-level page tables in physical memory, user address spaces,
  copy-on-write, and the paging of user pages to the swap file under the page-replacement
  policy the kernel is built with. A pointer into a page table is the kernel address of the
  entry; the translation buffer that \<^verbatim>\<open>lcr3\<close> flushes is not modelled beyond the value of \<^verbatim>\<open>cr3\<close>.
\<close>

section \<open>State\<close>

text \<open>The value of \<^verbatim>\<open>SELECTION\<close> in the Makefile.\<close>

datatype policy = NONE | NFUA | LAPA | SCFIFO | AQ

text \<open>
  \<open>kdata\<close> is the linker symbol \<^verbatim>\<open>data\<close>; the two page buffers are the static arrays of \<^verbatim>\<open>vm.c\<close>;
  \<open>ts_esp0\<close> is the kernel stack pointer in the task state segment.
\<close>

record vstate = xstate +
  selection :: policy
  kdata :: uint
  kpgdir :: uint
  ts_esp0 :: uint
  vm_buffer :: bytes
  vm_swapBuffer :: bytes

abbreviation KSTACKSIZE :: uint where "KSTACKSIZE \<equiv> 4096"

text \<open>A 32 bit word in kernel memory at virtual address \<open>v\<close>.\<close>

definition ld32 :: "uint \<Rightarrow> 'a kmem_scheme \<Rightarrow> uint" where
  "ld32 v s = rd32 (pmem s (PTE_ADDR (V2P v))) (unat (PTE_FLAGS (V2P v)))"

definition st32 :: "uint \<Rightarrow> uint \<Rightarrow> 'a kmem_scheme \<Rightarrow> 'a kmem_scheme" where
  "st32 v w s = put_page (PTE_ADDR (V2P v)) (wr32 (pmem s (PTE_ADDR (V2P v))) (unat (PTE_FLAGS (V2P v))) w) s"

definition lcr3 :: "uint \<Rightarrow> 'a pstate_scheme \<Rightarrow> 'a pstate_scheme" where
  "lcr3 v s = s\<lparr>cr3 := v\<rparr>"

text \<open>The current process as a value, for the routines that only change it.\<close>

definition on_cur :: "(proc \<Rightarrow> proc res) \<Rightarrow> 'a pstate_scheme \<Rightarrow> 'a pstate_scheme res" where
  "on_cur f s = rbind (myproc s) (\<lambda>i. rbind (f (procs s ! i)) (\<lambda>p. Inr (upd_proc i (\<lambda>_. p) s)))"

definition cur :: "'a pstate_scheme \<Rightarrow> proc res" where
  "cur s = rbind (myproc s) (\<lambda>i. Inr (procs s ! i))"

definition cprint :: "string \<Rightarrow> 'a cstate_scheme \<Rightarrow> 'a cstate_scheme res" where
  "cprint msg s = cprintf (Some (map of_char (msg @ [CHR 0x0A]))) [] s"

section \<open>Page tables\<close>

definition walkpgdir :: "uint \<Rightarrow> uint \<Rightarrow> bool \<Rightarrow> 'a kmem_scheme \<Rightarrow> uint option \<times> 'a kmem_scheme" where
  "walkpgdir pgdir va alloc s =
     (let pde = pgdir + 4 * PDX va
      in if ld32 pde s AND PTE_P \<noteq> 0 then (Some (P2V (PTE_ADDR (ld32 pde s)) + 4 * PTX va), s)
         else if \<not> alloc then (None, s)
         else case kalloc s of
                (pgtab, s1) \<Rightarrow>
                  if pgtab = 0 then (None, s1)
                  else (Some (pgtab + 4 * PTX va),
                        st32 pde (V2P pgtab OR PTE_P OR PTE_W OR PTE_U) (memset_page pgtab 0 s1)))"

text \<open>
  The loop of \<^verbatim>\<open>mappages\<close> runs over the pages from \<^verbatim>\<open>a\<close> to \<^verbatim>\<open>last\<close>, both multiples of the page size;
  \<open>n\<close> pages are left.
\<close>

primrec mappages_loop :: "uint \<Rightarrow> uint \<Rightarrow> nat \<Rightarrow> uint \<Rightarrow> uint \<Rightarrow> 'a kmem_scheme \<Rightarrow> (int \<times> 'a kmem_scheme) res" where
  "mappages_loop pgdir perm 0 a pa s = Inr (0, s)"
| "mappages_loop pgdir perm (Suc n) a pa s =
     (case walkpgdir pgdir a True s of
        (None, s1) \<Rightarrow> Inr (-1, s1)
      | (Some pte, s1) \<Rightarrow>
          if ld32 pte s1 AND PTE_P \<noteq> 0 then Inl (Panic ''remap'')
          else mappages_loop pgdir perm n (a + PGSIZE) (pa + PGSIZE) (st32 pte (pa OR perm OR PTE_P) s1))"

definition mappages :: "uint \<Rightarrow> uint \<Rightarrow> uint \<Rightarrow> uint \<Rightarrow> uint \<Rightarrow> 'a kmem_scheme \<Rightarrow> (int \<times> 'a kmem_scheme) res" where
  "mappages pgdir va sz pa perm s =
     (let a = PGROUNDDOWN va; last' = PGROUNDDOWN (va + sz - 1)
      in mappages_loop pgdir perm (unat ((last' - a) div PGSIZE) + 1) a pa s)"

definition switchkvm :: "'a vstate_scheme \<Rightarrow> 'a vstate_scheme" where
  "switchkvm s = lcr3 (V2P (kpgdir s)) s"

definition switchuvm :: "nat option \<Rightarrow> 'a vstate_scheme \<Rightarrow> 'a vstate_scheme res" where
  "switchuvm pp s =
     (case pp of
        None \<Rightarrow> Inl (Panic ''switchuvm: no process'')
      | Some p \<Rightarrow>
          if p_kstack (procs s ! p) = 0 then Inl (Panic ''switchuvm: no kstack'')
          else if p_pgdir (procs s ! p) = 0 then Inl (Panic ''switchuvm: no pgdir'')
          else Inr (lcr3 (V2P (p_pgdir (procs s ! p))) (s\<lparr>ts_esp0 := p_kstack (procs s ! p) + KSTACKSIZE\<rparr>)))"

definition inituvm :: "uint \<Rightarrow> uchar list \<Rightarrow> 'a kmem_scheme \<Rightarrow> 'a kmem_scheme res" where
  "inituvm pgdir init s =
     (if length init \<ge> 4096 then Inl (Panic ''inituvm: more than a page'')
      else case kalloc s of
             (mem, s1) \<Rightarrow>
               if mem = 0 then Inl (Undef ''kalloc'')
               else rbind (mappages pgdir 0 PGSIZE (V2P mem) (PTE_W OR PTE_U) (memset_page mem 0 s1)) (\<lambda>(_, s2).
                    Inr (put_page (V2P mem) (blit (pmem s2 (V2P mem)) 0 (\<lambda>k. init ! k) 0 (length init)) s2)))"

primrec loaduvm_loop :: "uint \<Rightarrow> uint \<Rightarrow> nat \<Rightarrow> uint \<Rightarrow> uint \<Rightarrow> nat list \<Rightarrow> 'a cstate_scheme \<Rightarrow> (int \<times> 'a cstate_scheme) res" where
  "loaduvm_loop pgdir addr ip offset sz [] s = Inr (0, s)"
| "loaduvm_loop pgdir addr ip offset sz (i # is) s =
     (case fst (walkpgdir pgdir (addr + of_nat i) False s) of
        None \<Rightarrow> Inl (Panic ''loaduvm: address should exist'')
      | Some pte \<Rightarrow>
          let pa = PTE_ADDR (ld32 pte s);
              n = (if sz - of_nat i < PGSIZE then sz - of_nat i else PGSIZE)
          in rbind (readi ip (offset + of_nat i) n s) (\<lambda>((r, cs), s1).
             let s2 = put_page pa (blit (pmem s1 pa) 0 (\<lambda>k. cs ! k) 0 (length cs)) s1
             in if r \<noteq> sint n then Inr (-1, s2) else loaduvm_loop pgdir addr ip offset sz is s2))"

definition loaduvm :: "uint \<Rightarrow> uint \<Rightarrow> nat \<Rightarrow> uint \<Rightarrow> uint \<Rightarrow> 'a cstate_scheme \<Rightarrow> (int \<times> 'a cstate_scheme) res" where
  "loaduvm pgdir addr ip offset sz s =
     (if addr mod PGSIZE \<noteq> 0 then Inl (Panic ''loaduvm: addr must be page aligned'')
      else loaduvm_loop pgdir addr ip offset sz (map (\<lambda>k. 4096 * k) [0..<(unat sz + 4095) div 4096]) s)"

definition clearpteu :: "uint \<Rightarrow> uint \<Rightarrow> 'a kmem_scheme \<Rightarrow> 'a kmem_scheme res" where
  "clearpteu pgdir uva s =
     (case fst (walkpgdir pgdir uva False s) of
        None \<Rightarrow> Inl (Panic ''clearpteu'')
      | Some pte \<Rightarrow> Inr (st32 pte (ld32 pte s AND NOT PTE_U) s))"

definition uva2ka :: "uint \<Rightarrow> uint \<Rightarrow> 'a kmem_scheme \<Rightarrow> uint res" where
  "uva2ka pgdir uva s =
     (case fst (walkpgdir pgdir uva False s) of
        None \<Rightarrow> Inl (Undef ''uva2ka'')
      | Some pte \<Rightarrow>
          if ld32 pte s AND PTE_P = 0 then Inr 0
          else if ld32 pte s AND PTE_U = 0 then Inr 0
          else Inr (P2V (PTE_ADDR (ld32 pte s))))"

function copyout :: "uint \<Rightarrow> uint \<Rightarrow> uchar list \<Rightarrow> 'a kmem_scheme \<Rightarrow> (int \<times> 'a kmem_scheme) res" where
  "copyout pgdir va buf s =
     (if buf = [] then Inr (0, s)
      else let va0 = PGROUNDDOWN va
           in rbind (uva2ka pgdir va0 s) (\<lambda>pa0.
              if pa0 = 0 then Inr (-1, s)
              else let n = min (length buf) (4096 - unat (va - va0));
                       s1 = put_page (V2P pa0) (blit (pmem s (V2P pa0)) (unat (va - va0)) (\<lambda>k. buf ! k) 0 n) s
                   in copyout pgdir (va0 + PGSIZE) (drop n buf) s1))"
  by auto

text \<open>The offset of an address in its page is below the page size, so every round copies something.\<close>

lemma page_offset: "unat (va - PGROUNDDOWN va) < 4096"
proof -
  have "va - PGROUNDDOWN va = take_bit 12 va"
    unfolding PGROUNDDOWN_push
    by (metis add_diff_cancel_left' bits_ident add.commute)
  moreover have "unat (take_bit 12 va :: uint) < 2 ^ 12"
    using take_bit_nat_less_exp [of 12 "unat va"] by (simp add: unsigned_take_bit_eq)
  ultimately show ?thesis by simp
qed

termination copyout
proof (relation "measure (\<lambda>(pgdir, va, buf, s). length buf)", goal_cases)
  case (2 pgdir va buf s va0 pa0 n s1)
  then show ?case using page_offset [of va] by (simp add: min_def)
qed simp

end
