(* ===== verification/Paging.thy ===== *)
theory Paging
  imports Vm
begin

text \<open>
  Paging in \<^verbatim>\<open>vm.c\<close>: the metadata of the resident and the swapped-out pages of a process, the
  priority queue of resident pages under each replacement policy, moving pages to the swap
  file and back, the page-fault handler, and the routines that create and destroy user
  address spaces. \<^verbatim>\<open>ramPmd\<close> indices are integers, -1 meaning none, as in the code.
\<close>

section \<open>Metadata lookup\<close>

abbreviation CLEAN_VA :: uint where "CLEAN_VA \<equiv> - 1"

definition index_of :: "nat option \<Rightarrow> int" where
  "index_of r = (case r of None \<Rightarrow> -1 | Some c \<Rightarrow> int c)"

definition getPageIndexDefault :: "bool \<Rightarrow> bool \<Rightarrow> uint \<Rightarrow> proc \<Rightarrow> int" where
  "getPageIndexDefault inSwapFile isOccupied va p =
     (let pg = (if inSwapFile then swapPmd p else ramPmd p)
      in index_of (find (\<lambda>c. occupied (pg ! c) = isOccupied \<and> (va = CLEAN_VA \<or> pmd_va (pg ! c) = va)) [0..<MAX_PSYC_PAGES]))"

definition getPagePgdirIndex :: "bool \<Rightarrow> uint \<Rightarrow> uint \<Rightarrow> proc \<Rightarrow> int" where
  "getPagePgdirIndex inSwapFile pgdir va p =
     (let pg = (if inSwapFile then swapPmd p else ramPmd p)
      in index_of (find (\<lambda>c. pmd_pgdir (pg ! c) = pgdir \<and> pmd_va (pg ! c) = va) [0..<MAX_PSYC_PAGES]))"

section \<open>The priority queue of resident pages\<close>

definition shiftCounter :: "uint \<Rightarrow> paging_meta_data \<Rightarrow> uint" where
  "shiftCounter b m = push_bit 31 b OR drop_bit 1 (age m)"

function countSetBits_loop :: "uint \<Rightarrow> uint \<Rightarrow> uint" where
  "countSetBits_loop n cnt = (if n \<noteq> 0 then countSetBits_loop (drop_bit 1 n) (cnt + (n AND 1)) else cnt)"
  by auto
termination
proof (relation "measure (\<lambda>(n, cnt). unat n)", goal_cases)
  case (2 n cnt)
  then have "unat n > 0" by (simp add: unat_gt_0)
  then show ?case by (simp add: drop_bit_eq_div unat_div)
qed simp

definition countSetBits :: "uint \<Rightarrow> uint" where
  "countSetBits n = countSetBits_loop n 0"

text \<open>\<^verbatim>\<open>insertHeap\<close> and \<^verbatim>\<open>deleteRoot\<close> on the queue of a process.\<close>

definition enqueue :: "heap_p \<Rightarrow> proc \<Rightarrow> proc res" where
  "enqueue h p = rbind (insertHeap (prioArr p) h (prioSize p)) (\<lambda>(a, n). Inr (p\<lparr>prioArr := a, prioSize := n\<rparr>))"

definition dequeue :: "int \<Rightarrow> proc \<Rightarrow> proc" where
  "dequeue pageNum p = (case deleteRoot (prioArr p) pageNum (prioSize p) of (_, a, n) \<Rightarrow> p\<lparr>prioArr := a, prioSize := n\<rparr>)"

definition max_prio :: "proc \<Rightarrow> uint" where
  "max_prio p = priority (prioArr p ! findMaxElementIndex (prioArr p) (prioSize p))"

definition ram_ok :: "int \<Rightarrow> proc \<Rightarrow> bool" where
  "ram_ok i p \<longleftrightarrow> 0 \<le> i \<and> i < int (length (ramPmd p))"

definition set_age :: "int \<Rightarrow> uint \<Rightarrow> proc \<Rightarrow> proc" where
  "set_age i a p = p\<lparr>ramPmd := (ramPmd p)[nat i := (ramPmd p ! nat i)\<lparr>age := a\<rparr>]\<rparr>"

definition insertPageToPrioQueue :: "policy \<Rightarrow> int \<Rightarrow> proc \<Rightarrow> proc res" where
  "insertPageToPrioQueue pol pageNum p =
     rbind (findInHeap (prioArr p) pageNum (prioSize p)) (\<lambda>(h, a, n).
     let p1 = p\<lparr>prioArr := a, prioSize := n\<rparr>;
         p2 = (if index h \<noteq> -1 then dequeue pageNum p1 else p1)
     in case pol of
          NONE \<Rightarrow> Inr p2
        | NFUA \<Rightarrow> if ram_ok pageNum p2 then enqueue \<lparr>index = pageNum, priority = 0\<rparr> (set_age pageNum 0 p2)
                  else Inl (Undef ''ramPmd'')
        | LAPA \<Rightarrow> if ram_ok pageNum p2
                  then enqueue \<lparr>index = pageNum, priority = countSetBits 0xFFFFFFFF\<rparr> (set_age pageNum 0xFFFFFFFF p2)
                  else Inl (Undef ''ramPmd'')
        | SCFIFO \<Rightarrow> enqueue \<lparr>index = pageNum, priority = max_prio p2 + 1\<rparr> p2
        | AQ \<Rightarrow> enqueue \<lparr>index = pageNum, priority = max_prio p2 + 1\<rparr> p2)"

definition getPageIndex :: "bool \<Rightarrow> bool \<Rightarrow> uint \<Rightarrow> 'a vstate_scheme \<Rightarrow> (int \<times> 'a vstate_scheme) res" where
  "getPageIndex inSwapFile isOccupied va s =
     rbind (cur s) (\<lambda>p.
     if \<not> isOccupied \<or> inSwapFile \<or> selection s = NONE then Inr (getPageIndexDefault inSwapFile isOccupied va p, s)
     else if prioSize p = 0 then Inr (-1, s)
     else rbind (if selection s = AQ then decAqValues (index (peekHeap (prioArr p))) s else Inr s) (\<lambda>s1.
          rbind (cur s1) (\<lambda>p1.
          Inr (index (peekHeap (prioArr p1)), s1))))"

text \<open>
  The search of the AQ branch of \<^verbatim>\<open>updatePageInPriorityQueue\<close>: nodes are extracted from the copy
  while \<^verbatim>\<open>a.index != pageNum\<close> and nodes are left. The test does not look at the node extracted.
\<close>

function aq_skip :: "int \<Rightarrow> int \<Rightarrow> heap_p list \<Rightarrow> nat \<Rightarrow> (heap_p \<times> heap_p list \<times> nat) res" where
  "aq_skip aIndex pageNum temp n =
     rbind (extractMin temp n) (\<lambda>(b, temp1, n1).
     if aIndex \<noteq> pageNum \<and> n1 > 0 then aq_skip aIndex pageNum temp1 n1 else Inr (b, temp1, n1))"
  by auto
termination
  by (relation "measure (\<lambda>(a, pg, temp, n). n)") (auto simp: extractMin_def Let_def split: if_splits)

definition swapPrio :: "uint \<Rightarrow> uint \<Rightarrow> uint \<times> uint" where
  "swapPrio a b = (b, a)"

definition aq_swap :: "int \<Rightarrow> proc \<Rightarrow> 'a kmem_scheme \<Rightarrow> proc res" where
  "aq_swap pageNum p s =
     (if int (findMaxElementIndex (prioArr p) (prioSize p)) = pageNum then Inr p
      else rbind (findInHeap (prioArr p) pageNum (prioSize p)) (\<lambda>(a, arr, n).
           let p1 = p\<lparr>prioArr := arr, prioSize := n\<rparr>
           in if index a = -1 then Inr p1
              else rbind (aq_skip (index a) pageNum (prioArr p1) (prioSize p1)) (\<lambda>(b0, temp1, n1).
                   if \<not> (n1 > 0 \<and> index a = pageNum) then Inr p1
                   else rbind (extractMin temp1 n1) (\<lambda>(b, temp2, n2).
                        if index b = 0 then Inr p1
                        else if \<not> ram_ok (index b) p1 then Inl (Undef ''ramPmd'')
                        else case fst (walkpgdir (p_pgdir p1) (pmd_va (ramPmd p1 ! nat (index b))) False s) of
                               None \<Rightarrow> Inr p1
                             | Some nextPte \<Rightarrow>
                                 if ld32 nextPte s AND PTE_A = 0 then Inr p1
                                 else let p2 = dequeue (index b) (dequeue (index a) p1)
                                      in case swapPrio (priority a) (priority b) of (pa, pb) \<Rightarrow>
                                         rbind (enqueue (a\<lparr>priority := pa\<rparr>) p2) (\<lambda>p3.
                                         enqueue (b\<lparr>priority := pb\<rparr>) p3)))))"

definition requeue_aged :: "(uint \<Rightarrow> uint) \<Rightarrow> int \<Rightarrow> bool \<Rightarrow> proc \<Rightarrow> proc res" where
  "requeue_aged prio pageNum accessed p =
     (let p1 = (if occupied (ramPmd p ! nat pageNum) then dequeue pageNum p else p);
          a = shiftCounter (if accessed then 1 else 0) (ramPmd p1 ! nat pageNum)
      in enqueue \<lparr>index = pageNum, priority = prio a\<rparr> (set_age pageNum a p1))"

definition requeue_last :: "int \<Rightarrow> proc \<Rightarrow> proc res" where
  "requeue_last pageNum p =
     (let p1 = (if occupied (ramPmd p ! nat pageNum) then dequeue pageNum p else p)
      in enqueue \<lparr>index = pageNum, priority = max_prio p1 + 1\<rparr> p1)"

definition updatePageInPriorityQueue :: "int \<Rightarrow> 'a vstate_scheme \<Rightarrow> 'a vstate_scheme res" where
  "updatePageInPriorityQueue pageNum s =
     rbind (myproc s) (\<lambda>i.
     let p = procs s ! i
     in if \<not> ram_ok pageNum p then Inl (Undef ''ramPmd'')
        else case fst (walkpgdir (p_pgdir p) (pmd_va (ramPmd p ! nat pageNum)) False s) of
               None \<Rightarrow> Inl (Undef ''pte'')
             | Some pte \<Rightarrow>
                 let accessed = (ld32 pte s AND PTE_A \<noteq> 0)
                 in rbind (case selection s of
                             NONE \<Rightarrow> Inr p
                           | NFUA \<Rightarrow> requeue_aged id pageNum accessed p
                           | LAPA \<Rightarrow> requeue_aged countSetBits pageNum accessed p
                           | SCFIFO \<Rightarrow>
                               if accessed then requeue_last pageNum p else Inr p
                           | AQ \<Rightarrow> if accessed then aq_swap pageNum p s else Inr p) (\<lambda>p'.
                    let s1 = upd_proc i (\<lambda>_. p') s;
                        s2 = (if accessed \<and> selection s \<noteq> NONE then st32 pte (ld32 pte s1 AND NOT PTE_A) s1 else s1)
                    in Inr (lcr3 (V2P (p_pgdir p)) s2)))"

text \<open>The draining loop of \<^verbatim>\<open>updatePagesInPriorityQueue\<close> for SCFIFO and AQ, over a copy of the queue.\<close>

function update_drain :: "heap_p list \<Rightarrow> nat \<Rightarrow> 'a vstate_scheme \<Rightarrow> 'a vstate_scheme res" where
  "update_drain temp n s =
     (if n = 0 then Inr s
      else rbind (extractMin temp n) (\<lambda>(h, temp1, n1).
           rbind (updatePageInPriorityQueue (index h) s) (\<lambda>s1. update_drain temp1 n1 s1)))"
  by auto
termination
  by (relation "measure (\<lambda>(temp, n, s). n)") (auto simp: extractMin_def Let_def split: if_splits)

definition update_resident :: "nat \<Rightarrow> 'a vstate_scheme \<Rightarrow> 'a vstate_scheme res" where
  "update_resident i s =
     rbind (cur s) (\<lambda>p. if occupied (ramPmd p ! i) then updatePageInPriorityQueue (int i) s else Inr s)"

definition updatePagesInPriorityQueue :: "'a vstate_scheme \<Rightarrow> 'a vstate_scheme res" where
  "updatePagesInPriorityQueue s =
     rbind (cur s) (\<lambda>p.
     if p_pid p \<le> 2 then Inr s
     else if selection s = NFUA \<or> selection s = LAPA then rfold update_resident [0..<MAX_PSYC_PAGES] s
     else if selection s = SCFIFO \<or> selection s = AQ then update_drain (take (prioSize p) (prioArr p)) (prioSize p) s
     else Inr s)"

section \<open>To the swap file and back\<close>

definition page_bytes :: "uint \<Rightarrow> 'a kmem_scheme \<Rightarrow> uchar list" where
  "page_bytes pa s = map (pmem s pa) [0..<4096]"

text \<open>The metadata part of \<^verbatim>\<open>pageToSwapFile\<close>.\<close>

definition move_pmd_out :: "nat \<Rightarrow> nat \<Rightarrow> proc \<Rightarrow> proc" where
  "move_pmd_out memIndex swapIndex p =
     (let m = ramPmd p ! memIndex;
          p1 = p\<lparr>swapPmd := (swapPmd p)[swapIndex := (swapPmd p ! swapIndex)\<lparr>pmd_pgdir := pmd_pgdir m,
                     pmd_offset := int (swapIndex * 4096), occupied := True, pmd_va := pmd_va m\<rparr>],
                 pagesInSwapfile := pagesInSwapfile p + 1\<rparr>;
          p2 = dequeue (int memIndex) p1
      in p2\<lparr>ramPmd := (ramPmd p2)[memIndex := initPmd (ramPmd p2 ! memIndex)], pagesInMemory := pagesInMemory p2 - 1\<rparr>)"

definition pageToSwapFile :: "int \<Rightarrow> int \<Rightarrow> uint \<Rightarrow> 'a vstate_scheme \<Rightarrow> 'a vstate_scheme res" where
  "pageToSwapFile memIndex swapIndex pgdir s =
     rbind (myproc s) (\<lambda>i.
     let p = procs s ! i
     in if memIndex = -1 then Inl (Panic ''no valid memIndex'')
        else if swapIndex = -1 then Inl (Panic ''no space left in swapFile'')
        else if \<not> ram_ok memIndex p \<or> swapIndex < 0 \<or> int (length (swapPmd p)) \<le> swapIndex then Inl (Undef ''pmd'')
        else let va = pmd_va (ramPmd p ! nat memIndex);
                 s1 = upd_proc i (\<lambda>p. move_pmd_out (nat memIndex) (nat swapIndex) (p\<lparr>pagedout := pagedout p + 1\<rparr>)) s
             in case fst (walkpgdir pgdir va False s1) of
                  None \<Rightarrow> Inl (Undef ''pte'')
                | Some pte \<Rightarrow>
                    let pa = PTE_ADDR (ld32 pte s1);
                        s2 = s1\<lparr>vm_buffer := pmem s1 pa\<rparr>
                    in rbind (writeToSwapFile i (page_bytes pa s1) (of_int (swapIndex * 4096)) s2) (\<lambda>(_, s3).
                       rbind (drop_page (P2V pa) s3) (\<lambda>s4.
                       let s5 = st32 pte (ld32 pte s4 AND NOT PTE_P) s4;
                           s6 = st32 pte (ld32 pte s5 OR PTE_PG) s5
                       in Inr (lcr3 (V2P (p_pgdir p)) s6))))"

text \<open>A frame of zeros mapped at \<open>va\<close> of the current process, as \<^verbatim>\<open>swapPages\<close> and \<^verbatim>\<open>onPageFaultPG\<close> do it.\<close>

definition map_fresh :: "string \<Rightarrow> uint \<Rightarrow> uint \<Rightarrow> uint \<Rightarrow> 'a kmem_scheme \<Rightarrow> 'a kmem_scheme res" where
  "map_fresh msg pgdir va mem s =
     rbind (mappages pgdir va PGSIZE (V2P mem) (PTE_W OR PTE_U) (memset_page mem 0 s)) (\<lambda>(r, s1).
     if r < 0 then Inl (Panic msg) else Inr s1)"

definition swapPages :: "int \<Rightarrow> int \<Rightarrow> uint \<Rightarrow> 'a vstate_scheme \<Rightarrow> 'a vstate_scheme res" where
  "swapPages memIndex swapIndex pgdir s =
     rbind (myproc s) (\<lambda>i.
     let p = procs s ! i
     in if swapIndex = -1 then Inl (Panic ''swapPages: page not found in swapFile'')
        else if memIndex = -1 then Inl (Panic ''swapPages: page not found in memory'')
        else if swapIndex < 0 \<or> int (length (swapPmd p)) \<le> swapIndex then Inl (Undef ''swapPmd'')
        else let tmp = swapPmd p ! nat swapIndex
             in rbind (readFromSwapFile i (of_int (pmd_offset tmp)) PGSIZE s) (\<lambda>((_, cs), s1).
                let s2 = s1\<lparr>vm_swapBuffer := blit (vm_swapBuffer s1) 0 (\<lambda>k. cs ! k) 0 (length cs)\<rparr>
                in rbind (pageToSwapFile memIndex swapIndex pgdir s2) (\<lambda>s3.
                   rbind (increaseProcAge (upd_proc i (\<lambda>p. p\<lparr>pagesInSwapfile := pagesInSwapfile p - 1,
                                                            pagesInMemory := pagesInMemory p + 1\<rparr>) s3)) (\<lambda>s4.
                   rbind (on_cur (insertPageToPrioQueue (selection s4) memIndex)
                            (upd_proc i (\<lambda>p. p\<lparr>ramPmd := (ramPmd p)[nat memIndex := tmp]\<rparr>) s4)) (\<lambda>s5.
                   case kalloc s5 of
                     (mem, s6) \<Rightarrow>
                       if mem = 0 then cprint ''swapPages:kalloc out of memory'' s6
                       else rbind (map_fresh ''swapPages: failed to mappages'' (p_pgdir (procs s6 ! i)) (pmd_va tmp) mem s6) (\<lambda>s7.
                            Inr (lcr3 (V2P (p_pgdir (procs s7 ! i))) (put_page (V2P mem) (vm_swapBuffer s7) s7))))))))"

section \<open>Page faults\<close>

definition onPageFaultCow :: "uint \<Rightarrow> 'a vstate_scheme \<Rightarrow> 'a vstate_scheme res" where
  "onPageFaultCow va1 s =
     rbind (myproc s) (\<lambda>i.
     let pgdir = p_pgdir (procs s ! i)
     in case fst (walkpgdir pgdir va1 False s) of
          None \<Rightarrow> Inl (Undef ''pte'')
        | Some pte \<Rightarrow>
            let pa = PTE_ADDR (ld32 pte s); flags = PTE_FLAGS (ld32 pte s)
            in rbind (decrementReferencesAndGetPrevVal (P2V pa) s) (\<lambda>(prev, s1).
               if prev > 1
               then case kalloc s1 of
                      (mem, s2) \<Rightarrow>
                        if mem = 0
                        then rbind (cprint ''onpagefault: cow: mem failed'' s2) (\<lambda>s3.
                             Inr (upd_proc i (\<lambda>p. p\<lparr>p_killed := True\<rparr>) s3))
                        else let s3 = put_page (V2P mem) (pmem s2 pa) s2;
                                 s4 = st32 pte (V2P mem OR flags OR PTE_P OR PTE_W) s3;
                                 s5 = st32 pte (ld32 pte s4 AND NOT PTE_COW) s4
                             in Inr (lcr3 (V2P pgdir) s5)
               else let s2 = st32 pte (ld32 pte s1 OR PTE_W) s1;
                        s3 = st32 pte (ld32 pte s2 AND NOT PTE_COW) s2
                    in Inr (lcr3 (V2P pgdir) s3)))"

text \<open>The second half of \<^verbatim>\<open>onPageFaultPG\<close>: bring in the page at \<open>swapIndx\<close> when there is room for it.\<close>

definition page_in :: "uint \<Rightarrow> nat \<Rightarrow> 'a vstate_scheme \<Rightarrow> 'a vstate_scheme res" where
  "page_in va1 i s =
     rbind (getPageIndex True True va1 s) (\<lambda>(swapIndx, s1).
     if swapIndx = -1 then Inl (Panic ''onPageFaultPG: page not found in swapFile'')
     else let k = nat swapIndx
          in rbind (increaseProcAge (upd_proc i (\<lambda>p. p\<lparr>swapPmd := (swapPmd p)[k := (swapPmd p ! k)\<lparr>occupied := False\<rparr>],
                                                     pagesInSwapfile := pagesInSwapfile p - 1\<rparr>) s1)) (\<lambda>s2.
             rbind (getPageIndex False False CLEAN_VA s2) (\<lambda>(ramIndex, s3).
             if ramIndex = -1 then Inl (Panic ''onpagefault: no free space in memory'')
             else let j = nat ramIndex
                  in rbind (on_cur (insertPageToPrioQueue (selection s3) ramIndex)
                              (upd_proc i (\<lambda>p. p\<lparr>ramPmd := (ramPmd p)[j := (ramPmd p ! j)\<lparr>pmd_va := va1,
                                                   pmd_pgdir := p_pgdir p, occupied := True\<rparr>]\<rparr>) s3)) (\<lambda>s4.
                     case kalloc s4 of
                       (mem, s5) \<Rightarrow>
                         if mem = 0 then cprint ''onPageFault:kalloc out of memory'' s5
                         else rbind (map_fresh ''onPageFaultPG: failed to mappages'' (p_pgdir (procs s5 ! i)) va1 mem s5) (\<lambda>s6.
                              rbind (readFromSwapFile i (of_int (pmd_offset (swapPmd (procs s6 ! i) ! k))) PGSIZE s6) (\<lambda>((_, cs), s7).
                              let s8 = s7\<lparr>vm_buffer := blit (vm_buffer s7) 0 (\<lambda>k. cs ! k) 0 (length cs)\<rparr>;
                                  s9 = put_page (V2P mem) (vm_buffer s8) s8
                              in Inr (upd_proc i (\<lambda>p. p\<lparr>pagesInMemory := pagesInMemory p + 1\<rparr>) s9)))))))"

definition onPageFaultPG :: "uint \<Rightarrow> 'a vstate_scheme \<Rightarrow> 'a vstate_scheme res" where
  "onPageFaultPG va1 s =
     rbind (myproc s) (\<lambda>i.
     let p = procs s ! i
     in if pagesInMemory p + pagesInSwapfile p > int MAX_TOTAL_PAGES
        then Inl (Panic ''onPageFaultPG: No free sapce either in ram and disc'')
        else if pagesInMemory p = int MAX_PSYC_PAGES
        then if pagesInSwapfile p = int (MAX_TOTAL_PAGES - MAX_PSYC_PAGES)
             then rbind (getPageIndex False True CLEAN_VA s) (\<lambda>(m, s1).
                  rbind (getPageIndex True True va1 s1) (\<lambda>(k, s2).
                  swapPages m k (p_pgdir p) s2))
             else rbind (getPageIndex False True CLEAN_VA s) (\<lambda>(m, s1).
                  rbind (getPageIndex True False CLEAN_VA s1) (\<lambda>(k, s2).
                  rbind (pageToSwapFile m k (p_pgdir p) s2) (\<lambda>s3.
                  page_in va1 i s3)))
        else page_in va1 i s)"

text \<open>
  The message for an invalid access prints \<^verbatim>\<open>pte\<close>, which is null when the page table is missing and
  not initialised when the address is a kernel address; the model prints 0 in both cases.
\<close>

definition bad_access :: "uint \<Rightarrow> proc \<Rightarrow> 'a cstate_scheme \<Rightarrow> 'a cstate_scheme res" where
  "bad_access va1 p s =
     cprintf (Some (map of_char (''pid %d %s: Page fault: access to invalid address.va1:%p,pte:%p'' @ [CHR 0x0A])))
       [PInt (of_int (p_pid p)), PStr (Some (takeWhile (\<lambda>c. c \<noteq> 0) (p_name p))), PInt va1, PInt 0] s"

definition onPageFault :: "uint \<Rightarrow> 'a vstate_scheme \<Rightarrow> 'a vstate_scheme res" where
  "onPageFault va s =
     rbind (myproc s) (\<lambda>i.
     let s0 = upd_proc i (\<lambda>p. p\<lparr>pagefaults := pagefaults p + 1\<rparr>) s
     in rbind (if p_pid (procs s ! i) > 2 then updatePagesInPriorityQueue s0 else Inr s0) (\<lambda>s1.
        let va1 = PGROUNDDOWN va; p = procs s1 ! i
        in case (if va \<ge> KERNBASE then None else fst (walkpgdir (p_pgdir p) va1 False s1)) of
             None \<Rightarrow>
               rbind (bad_access va1 p s1) (\<lambda>s2.
               Inr (upd_proc i (\<lambda>p. p\<lparr>p_killed := True\<rparr>) s2))
           | Some pte \<Rightarrow>
               if ld32 pte s1 AND PTE_COW \<noteq> 0 then onPageFaultCow va1 s1
               else if ld32 pte s1 AND PTE_PG \<noteq> 0 then onPageFaultPG va1 s1
               else Inr (upd_proc i (\<lambda>p. p\<lparr>p_killed := True\<rparr>) s1)))"

section \<open>User address spaces\<close>

text \<open>Forgetting a page of the process whose address space shrinks.\<close>

definition forget_ram :: "uint \<Rightarrow> uint \<Rightarrow> proc \<Rightarrow> proc" where
  "forget_ram pgdir a p =
     (let idex = getPagePgdirIndex False pgdir a p
      in if idex \<noteq> -1 \<and> occupied (ramPmd p ! nat idex)
         then let p1 = dequeue idex (p\<lparr>pagesInMemory := pagesInMemory p - 1\<rparr>)
              in p1\<lparr>ramPmd := (ramPmd p1)[nat idex := initPmd (ramPmd p1 ! nat idex)]\<rparr>
         else p)"

definition forget_swap :: "uint \<Rightarrow> uint \<Rightarrow> proc \<Rightarrow> proc" where
  "forget_swap pgdir a p =
     (let idex = getPagePgdirIndex True pgdir a p
      in if idex \<noteq> -1 \<and> occupied (swapPmd p ! nat idex)
         then p\<lparr>pagesInSwapfile := pagesInSwapfile p - 1,
                swapPmd := (swapPmd p)[nat idex := initPmd (swapPmd p ! nat idex)]\<rparr>
         else p)"

definition dealloc_page :: "uint \<Rightarrow> uint \<Rightarrow> uint \<Rightarrow> 'a pstate_scheme \<Rightarrow> 'a pstate_scheme res" where
  "dealloc_page pgdir a pte s =
     (if ld32 pte s AND PTE_P \<noteq> 0 \<or> ld32 pte s AND PTE_PG \<noteq> 0
      then let pa = PTE_ADDR (ld32 pte s)
           in if pa = 0 then Inl (Panic ''kfree'')
              else rbind (drop_page (P2V pa) s) (\<lambda>s1.
                   rbind (on_cur (\<lambda>p. Inr (if p_pid p > 2 then forget_swap pgdir a (forget_ram pgdir a p) else p)) s1) (\<lambda>s2.
                   Inr (st32 pte 0 s2)))
      else Inr s)"

text \<open>
  The loop of \<^verbatim>\<open>deallocuvm\<close>. The counter wraps around, and the loop does not end, only when \<^verbatim>\<open>oldsz\<close>
  is above \<^verbatim>\<open>0xFFC00000\<close>; every caller stays below \<^verbatim>\<open>KERNBASE\<close>.
\<close>

function deallocuvm_loop :: "uint \<Rightarrow> uint \<Rightarrow> uint \<Rightarrow> 'a pstate_scheme \<Rightarrow> 'a pstate_scheme res" where
  "deallocuvm_loop pgdir oldsz a s =
     (if a < oldsz
      then case fst (walkpgdir pgdir a False s) of
             None \<Rightarrow>
               let a' = PGADDR (PDX a + 1) 0 0
               in if a' \<le> a then Inl (Undef ''deallocuvm'') else deallocuvm_loop pgdir oldsz a' s
           | Some pte \<Rightarrow>
               rbind (dealloc_page pgdir a pte s) (\<lambda>s1.
               if a + PGSIZE \<le> a then Inl (Undef ''deallocuvm'') else deallocuvm_loop pgdir oldsz (a + PGSIZE) s1)
      else Inr s)"
  by auto
termination
proof (relation "measure (\<lambda>(pgdir, oldsz, a, s). 2 ^ 32 - unat a)", goal_cases)
  case (2 pgdir oldsz a s a')
  then have "unat a < unat a'" by (simp add: word_less_nat_alt not_le)
  moreover have "unat a' < 2 ^ LENGTH(32)" by (rule unsigned_less)
  ultimately show ?case by simp
next
  case (3 pgdir oldsz a s pte s1)
  then have "unat a < unat (a + PGSIZE)" by (simp add: word_less_nat_alt not_le)
  moreover have "unat (a + PGSIZE) < 2 ^ LENGTH(32)" by (rule unsigned_less)
  ultimately show ?case by simp
qed simp

definition deallocuvm :: "uint \<Rightarrow> uint \<Rightarrow> uint \<Rightarrow> 'a pstate_scheme \<Rightarrow> (uint \<times> 'a pstate_scheme) res" where
  "deallocuvm pgdir oldsz newsz s =
     (if newsz \<ge> oldsz then Inr (oldsz, s)
      else rbind (deallocuvm_loop pgdir oldsz (PGROUNDUP newsz) s) (\<lambda>s1. Inr (newsz, s1)))"

definition free_table :: "uint \<Rightarrow> nat \<Rightarrow> 'a pstate_scheme \<Rightarrow> 'a pstate_scheme res" where
  "free_table pgdir i s =
     (let pde = ld32 (pgdir + 4 * of_nat i) s
      in if pde AND PTE_P \<noteq> 0 then drop_page (P2V (PTE_ADDR pde)) s else Inr s)"

definition freevm :: "uint \<Rightarrow> 'a pstate_scheme \<Rightarrow> 'a pstate_scheme res" where
  "freevm pgdir s =
     (if pgdir = 0 then Inl (Panic ''freevm: no pgdir'')
      else rbind (deallocuvm pgdir KERNBASE 0 s) (\<lambda>(_, s1).
           rbind (rfold (free_table pgdir) [0..<NPDENTRIES] s1) (\<lambda>s2.
           kfree pgdir s2)))"

text \<open>The table \<^verbatim>\<open>kmap\<close> of the kernel's mappings: virtual start, physical start and end, permissions.\<close>

definition kmap :: "uint \<Rightarrow> (uint \<times> uint \<times> uint \<times> uint) list" where
  "kmap data =
     [(KERNBASE, 0, EXTMEM, PTE_W),
      (KERNLINK, V2P KERNLINK, V2P data, 0),
      (data, V2P data, PHYSTOP, PTE_W),
      (DEVSPACE, DEVSPACE, 0, PTE_W)]"

primrec setupkvm_loop :: "uint \<Rightarrow> (uint \<times> uint \<times> uint \<times> uint) list \<Rightarrow> 'a pstate_scheme \<Rightarrow> (uint \<times> 'a pstate_scheme) res" where
  "setupkvm_loop pgdir [] s = Inr (pgdir, s)"
| "setupkvm_loop pgdir (k # ks) s =
     (case k of (virt, phys_start, phys_end, perm) \<Rightarrow>
        rbind (mappages pgdir virt (phys_end - phys_start) phys_start perm s) (\<lambda>(r, s1).
        if r < 0 then rbind (freevm pgdir s1) (\<lambda>s2. Inr (0, s2)) else setupkvm_loop pgdir ks s1))"

definition setupkvm :: "'a vstate_scheme \<Rightarrow> (uint \<times> 'a vstate_scheme) res" where
  "setupkvm s =
     (case kalloc s of
        (pgdir, s1) \<Rightarrow>
          if pgdir = 0 then Inr (0, s1)
          else if P2V PHYSTOP > DEVSPACE then Inl (Panic ''PHYSTOP too high'')
          else setupkvm_loop pgdir (kmap (kdata s1)) (memset_page pgdir 0 s1))"

definition kvmalloc :: "'a vstate_scheme \<Rightarrow> 'a vstate_scheme res" where
  "kvmalloc s = rbind (setupkvm s) (\<lambda>(pgdir, s1). Inr (switchkvm (s1\<lparr>kpgdir := pgdir\<rparr>)))"

text \<open>The part of a round of \<^verbatim>\<open>allocuvm\<close> that makes room for another resident page.\<close>

definition make_room :: "uint \<Rightarrow> 'a vstate_scheme \<Rightarrow> 'a vstate_scheme res" where
  "make_room pgdir s =
     rbind (cur s) (\<lambda>p.
     if pagesInMemory p \<ge> int MAX_PSYC_PAGES
     then if pagesInSwapfile p = int (MAX_TOTAL_PAGES - MAX_PSYC_PAGES)
          then Inl (Panic ''allocuvm: No free sapce either in ram and disc'')
          else rbind (if p_pid p > 2 then updatePagesInPriorityQueue s else Inr s) (\<lambda>s1.
               rbind (getPageIndex False True CLEAN_VA s1) (\<lambda>(m, s2).
               rbind (getPageIndex True False CLEAN_VA s2) (\<lambda>(k, s3).
               pageToSwapFile m k pgdir s3)))
     else Inr s)"

text \<open>The bookkeeping of a new resident page.\<close>

definition note_page :: "uint \<Rightarrow> uint \<Rightarrow> 'a vstate_scheme \<Rightarrow> 'a vstate_scheme res" where
  "note_page pgdir a s =
     rbind (getPageIndex False False CLEAN_VA s) (\<lambda>(indx, s1).
     if indx = -1 then Inl (Undef ''ramPmd'')
     else let j = nat indx
          in on_cur (\<lambda>p. insertPageToPrioQueue (selection s1) indx
               (p\<lparr>ramPmd := (ramPmd p)[j := (ramPmd p ! j)\<lparr>pmd_va := a, pmd_pgdir := pgdir, occupied := True\<rparr>],
                  pagesInMemory := pagesInMemory p + 1\<rparr>)) s1)"

primrec allocuvm_loop :: "uint \<Rightarrow> uint \<Rightarrow> uint \<Rightarrow> nat list \<Rightarrow> 'a vstate_scheme \<Rightarrow> (uint \<times> 'a vstate_scheme) res" where
  "allocuvm_loop pgdir oldsz newsz [] s = Inr (newsz, s)"
| "allocuvm_loop pgdir oldsz newsz (k # ks) s =
     (let a = PGROUNDUP oldsz + of_nat k * PGSIZE
      in rbind (if selection s = NONE then Inr s else make_room pgdir s) (\<lambda>s1.
         case kalloc s1 of
           (mem, s2) \<Rightarrow>
             if mem = 0
             then rbind (cprint ''allocuvm out of memory'' s2) (\<lambda>s3.
                  rbind (deallocuvm pgdir newsz oldsz s3) (\<lambda>(_, s4). Inr (0, s4)))
             else rbind (mappages pgdir a PGSIZE (V2P mem) (PTE_W OR PTE_U) (memset_page mem 0 s2)) (\<lambda>(r, s3).
                  if r < 0
                  then rbind (cprint ''allocuvm out of memory (2)'' s3) (\<lambda>s4.
                       rbind (deallocuvm pgdir newsz oldsz s4) (\<lambda>(_, s5).
                       rbind (kfree mem s5) (\<lambda>s6. Inr (0, s6))))
                  else rbind (if selection s3 = NONE then Inr s3 else note_page pgdir a s3) (\<lambda>s4.
                       allocuvm_loop pgdir oldsz newsz ks s4))))"

definition allocuvm :: "uint \<Rightarrow> uint \<Rightarrow> uint \<Rightarrow> 'a vstate_scheme \<Rightarrow> (uint \<times> 'a vstate_scheme) res" where
  "allocuvm pgdir oldsz newsz s =
     (if newsz \<ge> KERNBASE then Inr (0, s)
      else if newsz < oldsz then Inr (oldsz, s)
      else allocuvm_loop pgdir oldsz newsz [0..<(unat newsz - unat (PGROUNDUP oldsz) + 4095) div 4096] s)"

primrec copyuvm_loop :: "uint \<Rightarrow> uint \<Rightarrow> nat list \<Rightarrow> 'a vstate_scheme \<Rightarrow> (uint \<times> 'a vstate_scheme) res" where
  "copyuvm_loop pgdir d [] s = Inr (d, s)"
| "copyuvm_loop pgdir d (k # ks) s =
     (let i = of_nat k * PGSIZE
      in case fst (walkpgdir pgdir i False s) of
           None \<Rightarrow> Inl (Panic ''copyuvm: pte should exist'')
         | Some pte \<Rightarrow>
             if ld32 pte s AND PTE_P = 0 then Inl (Panic ''copyuvm: page not present'')
             else let pa = PTE_ADDR (ld32 pte s); flags = PTE_FLAGS (ld32 pte s)
                  in case kalloc s of
                       (mem, s1) \<Rightarrow>
                         if mem = 0 then rbind (freevm d s1) (\<lambda>s2. Inr (0, s2))
                         else rbind (mappages d i PGSIZE (V2P mem) flags (put_page (V2P mem) (pmem s1 pa) s1)) (\<lambda>(r, s2).
                              if r < 0
                              then rbind (kfree mem s2) (\<lambda>s3. rbind (freevm d s3) (\<lambda>s4. Inr (0, s4)))
                              else copyuvm_loop pgdir d ks s2))"

definition user_pages :: "uint \<Rightarrow> nat list" where
  "user_pages sz = [0..<(unat sz + 4095) div 4096]"

definition copyuvm :: "uint \<Rightarrow> uint \<Rightarrow> 'a vstate_scheme \<Rightarrow> (uint \<times> 'a vstate_scheme) res" where
  "copyuvm pgdir sz s =
     rbind (setupkvm s) (\<lambda>(d, s1).
     if d = 0 then Inr (0, s1) else copyuvm_loop pgdir d (user_pages sz) s1)"

primrec cowuvm_loop :: "uint \<Rightarrow> uint \<Rightarrow> nat list \<Rightarrow> 'a vstate_scheme \<Rightarrow> (uint \<times> 'a vstate_scheme) res" where
  "cowuvm_loop pgdir d [] s = Inr (d, s)"
| "cowuvm_loop pgdir d (k # ks) s =
     (let i = of_nat k * PGSIZE
      in case fst (walkpgdir pgdir i False s) of
           None \<Rightarrow> Inl (Panic ''copyuvm: pte should exist'')
         | Some pte \<Rightarrow>
             if ld32 pte s AND PTE_P = 0 \<and> ld32 pte s AND PTE_PG = 0 then Inl (Panic ''copyuvm: page not present'')
             else let s1 = (if ld32 pte s AND PTE_P \<noteq> 0
                            then st32 pte ((ld32 pte s AND NOT PTE_W) OR PTE_COW) s else s);
                      pa = PTE_ADDR (ld32 pte s1); flags = PTE_FLAGS (ld32 pte s1)
                  in rbind (mappages d i PGSIZE pa flags s1) (\<lambda>(r, s2).
                     if r < 0 then rbind (freevm d s2) (\<lambda>s3. Inr (0, s3))
                     else rbind (if ld32 pte s2 AND PTE_P \<noteq> 0 then incrementReferences (P2V pa) s2
                                 else if ld32 pte s2 AND PTE_PG \<noteq> 0
                                 then case fst (walkpgdir d i False s2) of
                                        None \<Rightarrow> Inl (Undef ''pte'')
                                      | Some d_pte \<Rightarrow> Inr (st32 d_pte (ld32 d_pte s2 AND NOT PTE_P) s2)
                                 else Inr s2) (\<lambda>s3.
                          cowuvm_loop pgdir d ks (lcr3 (V2P pgdir) s3))))"

definition cowuvm :: "uint \<Rightarrow> uint \<Rightarrow> 'a vstate_scheme \<Rightarrow> (uint \<times> 'a vstate_scheme) res" where
  "cowuvm pgdir sz s =
     rbind (setupkvm s) (\<lambda>(d, s1).
     if d = 0 then Inr (0, s1) else cowuvm_loop pgdir d (user_pages sz) s1)"

end
