(* ===== verification/PageTable.thy ===== *)
theory PageTable
  imports Vm
begin

text \<open>
  Two-level page tables as functions from user addresses to page table entries. A page
  directory that is well formed (its tables are distinct frames in use) represents such a
  function; \<^verbatim>\<open>walkpgdir\<close> never changes it, \<^verbatim>\<open>mappages\<close> updates it on a range of pages, and writes to
  frames outside the tables leave it alone.
\<close>

section \<open>Entries in memory\<close>

lemma aligned_or:
  assumes "page_aligned f" "i < 1024"
  shows "f + 4 * of_nat i = f OR (4 * of_nat i :: uint)" "unat (4 * of_nat i :: uint) = 4 * i"
    "\<And>n. 12 \<le> n \<Longrightarrow> \<not> bit (4 * of_nat i :: uint) n"
proof -
  show u: "unat (4 * of_nat i :: uint) = 4 * i" using assms(2) by (simp add: unat_word_ariths unat_of_nat)
  show b: "\<not> bit (4 * of_nat i :: uint) n" if "12 \<le> n" for n
  proof -
    have "4 * i < 2 ^ n" using assms(2) power_increasing [OF that, of "2 :: nat"] by simp
    then have "\<not> bit (4 * i) n" by (simp add: bit_iff_odd)
    moreover have "bit (unat (4 * of_nat i :: uint)) n = bit (4 * of_nat i :: uint) n" by (simp only: bit_unsigned_iff) simp
    ultimately show ?thesis unfolding u by simp
  qed
  show "f + 4 * of_nat i = f OR (4 * of_nat i :: uint)"
    by (rule disjunctive_add) (use assms(1) b in \<open>meson page_aligned_bit not_le\<close>)
qed

lemma entry_addr:
  assumes "page_aligned f" "i < 1024"
  shows "PTE_ADDR (f + 4 * of_nat i) = f" "unat (PTE_FLAGS (f + 4 * of_nat i)) = 4 * i"
  unfolding aligned_or(1) [OF assms] using PTE_ADDR_or [OF assms(1) aligned_or(3) [OF assms]] PTE_FLAGS_or [OF assms(1) aligned_or(3) [OF assms]]
    aligned_or(2) [OF assms] by simp_all

lemma V2P_entry: "V2P (P2V f + 4 * x) = f + 4 * x"
  by (simp add: V2P_def P2V_def)

lemma ld32_entry: "page_aligned f \<Longrightarrow> i < 1024 \<Longrightarrow> ld32 (P2V f + 4 * of_nat i) s = rd32 (pmem s f) (4 * i)"
  by (simp add: ld32_def V2P_entry entry_addr)

lemma st32_entry: "page_aligned f \<Longrightarrow> i < 1024 \<Longrightarrow> st32 (P2V f + 4 * of_nat i) w s = put_page f (wr32 (pmem s f) (4 * i) w) s"
  by (simp add: st32_def V2P_entry entry_addr)

lemma put_page_simps [simp]: "pmem (put_page f g s) = (pmem s)(f := g)" "live_pages (put_page f g s) = live_pages s"
    "kmem_inv (put_page f g s) xs = kmem_inv s xs" "kmem_ok (put_page f g s) = kmem_ok s" "runArr (put_page f g s) = runArr s"
    "in_use (put_page f g s) = in_use s"
  by (simp_all add: put_page_def live_pages_def in_use_def kmem_inv_def kmem_ok_def allocatable_def)

lemma pmem_kalloc [simp]: "pmem (snd (kalloc s)) = pmem s"
  by (simp add: kalloc_def split: option.splits)

section \<open>The function a page directory represents\<close>

definition pde_at :: "uint \<Rightarrow> nat \<Rightarrow> 'a kmem_scheme \<Rightarrow> uint" where
  "pde_at pgdir i s = rd32 (pmem s (V2P pgdir)) (4 * i)"

definition has_table :: "uint \<Rightarrow> nat \<Rightarrow> 'a kmem_scheme \<Rightarrow> bool" where
  "has_table pgdir i s \<longleftrightarrow> pde_at pgdir i s AND PTE_P \<noteq> 0"

definition table :: "uint \<Rightarrow> nat \<Rightarrow> 'a kmem_scheme \<Rightarrow> uint" where
  "table pgdir i s = PTE_ADDR (pde_at pgdir i s)"

text \<open>The entry for an address; 0 where there is no table.\<close>

definition pte :: "uint \<Rightarrow> uint \<Rightarrow> 'a kmem_scheme \<Rightarrow> uint" where
  "pte pgdir va s =
     (if has_table pgdir (unat (PDX va)) s then rd32 (pmem s (table pgdir (unat (PDX va)) s)) (4 * unat (PTX va)) else 0)"

definition pt_frames :: "uint \<Rightarrow> 'a kmem_scheme \<Rightarrow> uint set" where
  "pt_frames pgdir s = insert (V2P pgdir) ((\<lambda>i. table pgdir i s) ` {i. i < NPDENTRIES \<and> has_table pgdir i s})"

definition wf_pt :: "uint \<Rightarrow> 'a kmem_scheme \<Rightarrow> bool" where
  "wf_pt pgdir s \<longleftrightarrow> page_aligned pgdir \<and> pgdir \<in> live_pages s \<and>
     (\<forall>i<NPDENTRIES. has_table pgdir i s \<longrightarrow> P2V (table pgdir i s) \<in> live_pages s \<and> table pgdir i s \<noteq> V2P pgdir) \<and>
     inj_on (\<lambda>i. table pgdir i s) {i. i < NPDENTRIES \<and> has_table pgdir i s}"

lemma pte_cong_va: "PGROUNDDOWN a = PGROUNDDOWN b \<Longrightarrow> pte pgdir a s = pte pgdir b s"
  unfolding same_entry_iff [symmetric] by (simp add: pte_def)

text \<open>A change of memory outside the tables.\<close>

lemma pt_frame:
  assumes "\<And>f. f \<in> pt_frames pgdir s \<Longrightarrow> pmem t f = pmem s f"
  shows "pte pgdir va t = pte pgdir va s" "pt_frames pgdir t = pt_frames pgdir s"
    "live_pages s \<subseteq> live_pages t \<Longrightarrow> wf_pt pgdir s \<Longrightarrow> wf_pt pgdir t"
    "table pgdir i t = table pgdir i s" "has_table pgdir i t = has_table pgdir i s"
proof -
  have d: "pmem t (V2P pgdir) = pmem s (V2P pgdir)" by (rule assms) (simp add: pt_frames_def)
  then have e [simp]: "pde_at pgdir i t = pde_at pgdir i s" for i by (simp add: pde_at_def)
  have h [simp]: "has_table pgdir i t = has_table pgdir i s" "table pgdir i t = table pgdir i s" for i
    by (simp_all add: has_table_def table_def)
  show "table pgdir i t = table pgdir i s" "has_table pgdir i t = has_table pgdir i s" by simp_all
  have "pmem t (table pgdir (unat (PDX va)) s) = pmem s (table pgdir (unat (PDX va)) s)" if "has_table pgdir (unat (PDX va)) s"
    by (rule assms) (use that unat_PDX [of va] in \<open>auto simp: pt_frames_def\<close>)
  then show "pte pgdir va t = pte pgdir va s" by (simp add: pte_def)
  show "pt_frames pgdir t = pt_frames pgdir s" by (simp add: pt_frames_def)
  show "wf_pt pgdir t" if "live_pages s \<subseteq> live_pages t" "wf_pt pgdir s"
    using that by (auto simp: wf_pt_def)
qed

lemma frames_live: "wf_pt pgdir s \<Longrightarrow> f \<in> pt_frames pgdir s \<Longrightarrow> P2V f \<in> live_pages s"
  by (auto simp: wf_pt_def pt_frames_def)

lemma frames_aligned: "wf_pt pgdir s \<Longrightarrow> f \<in> pt_frames pgdir s \<Longrightarrow> page_aligned f"
  by (auto simp: wf_pt_def pt_frames_def table_def)

section \<open>walkpgdir\<close>

lemma pde_addr: "page_aligned pgdir \<Longrightarrow> ld32 (pgdir + 4 * PDX va) s = pde_at pgdir (unat (PDX va)) s"
  using ld32_entry [of "V2P pgdir" "unat (PDX va)" s] unat_PDX [of va] by (simp add: pde_at_def)

lemma st32_pde: "page_aligned pgdir \<Longrightarrow> st32 (pgdir + 4 * PDX va) w s = put_page (V2P pgdir) (wr32 (pmem s (V2P pgdir)) (4 * unat (PDX va)) w) s"
  using st32_entry [of "V2P pgdir" "unat (PDX va)" w s] unat_PDX [of va] by simp

lemma walk_found:
  assumes "wf_pt pgdir s" "has_table pgdir (unat (PDX va)) s"
  shows "walkpgdir pgdir va alloc s = (Some (P2V (table pgdir (unat (PDX va)) s) + 4 * PTX va), s)"
  using assms by (simp add: walkpgdir_def Let_def pde_addr wf_pt_def has_table_def table_def)

lemma walk_missing:
  assumes "wf_pt pgdir s" "\<not> has_table pgdir (unat (PDX va)) s"
  shows "walkpgdir pgdir va False s = (None, s)"
  using assms by (simp add: walkpgdir_def Let_def pde_addr wf_pt_def has_table_def)

text \<open>What a found entry holds, and what a store into it does.\<close>

lemma entry_pte:
  assumes "has_table pgdir (unat (PDX va)) s"
  shows "ld32 (P2V (table pgdir (unat (PDX va)) s) + 4 * PTX va) s = pte pgdir va s"
  using ld32_entry [of "table pgdir (unat (PDX va)) s" "unat (PTX va)" s] unat_PTX [of va] assms by (simp add: pte_def table_def)

lemma store_pte:
  assumes wf: "wf_pt pgdir s" and h: "has_table pgdir (unat (PDX va)) s"
    and td: "t = st32 (P2V (table pgdir (unat (PDX va)) s) + 4 * PTX va) w s"
  shows "pte pgdir va' t = (if PGROUNDDOWN va' = PGROUNDDOWN va then w else pte pgdir va' s)"
    "wf_pt pgdir t" "pt_frames pgdir t = pt_frames pgdir s" "has_table pgdir i t = has_table pgdir i s" "table pgdir i t = table pgdir i s"
    "f \<noteq> table pgdir (unat (PDX va)) s \<Longrightarrow> pmem t f = pmem s f"
proof -
  let ?f = "table pgdir (unat (PDX va)) s"
  have t: "t = put_page ?f (wr32 (pmem s ?f) (4 * unat (PTX va)) w) s"
    using st32_entry [of ?f "unat (PTX va)" w s] unat_PTX [of va] by (simp add: td table_def)
  have ne: "?f \<noteq> V2P pgdir" using wf h unat_PDX [of va] by (auto simp: wf_pt_def)
  then have e [simp]: "pde_at pgdir i t = pde_at pgdir i s" for i by (simp add: pde_at_def t)
  show hs [simp]: "has_table pgdir i t = has_table pgdir i s" "table pgdir i t = table pgdir i s" for i
    by (simp_all add: has_table_def table_def)
  show "pt_frames pgdir t = pt_frames pgdir s" by (simp add: pt_frames_def)
  have "live_pages t = live_pages s" by (simp add: t)
  then show "wf_pt pgdir t" using wf by (auto simp: wf_pt_def)
  show "pmem t f = pmem s f" if "f \<noteq> ?f" using that by (simp add: t)
  have inj: "table pgdir (unat (PDX va')) s = ?f \<longleftrightarrow> PDX va' = PDX va" if "has_table pgdir (unat (PDX va')) s"
  proof
    assume eq: "table pgdir (unat (PDX va')) s = ?f"
    have "unat (PDX va') = unat (PDX va)"
      by (rule inj_onD [where f = "\<lambda>i. table pgdir i s" and A = "{i. i < NPDENTRIES \<and> has_table pgdir i s}"])
        (use wf h that eq unat_PDX [of va] unat_PDX [of va'] in \<open>auto simp: wf_pt_def\<close>)
    then show "PDX va' = PDX va" by (simp add: word_unat_eq_iff)
  qed simp
  have pm: "pmem t = (pmem s)(?f := wr32 (pmem s ?f) (4 * unat (PTX va)) w)" by (simp add: t)
  show "pte pgdir va' t = (if PGROUNDDOWN va' = PGROUNDDOWN va then w else pte pgdir va' s)"
    unfolding same_entry_iff [symmetric] pte_def hs pm using inj h by (auto simp: word_unat_eq_iff)
qed

lemma kalloc_aligned [simp]: "page_aligned (fst (kalloc s))"
  by (auto simp: kalloc_def page_aligned_bit [of 0] split: option.splits)

lemma small_flags: "\<And>n. 12 \<le> n \<Longrightarrow> \<not> bit (PTE_P OR PTE_W OR PTE_U :: uint) n"
proof -
  fix n :: nat assume "12 \<le> n"
  have "take_bit 12 (7 :: uint) = 7" by (simp add: take_bit_eq_mod)
  then have "bit (7 :: uint) n = (n < 12 \<and> bit (7 :: uint) n)" by (metis bit_take_bit_iff)
  then show "\<not> bit (PTE_P OR PTE_W OR PTE_U :: uint) n" using \<open>12 \<le> n\<close> by simp
qed

text \<open>A new table is a fresh frame of zeros: the represented function stays as it is.\<close>

lemma add_table:
  assumes wf: "wf_pt pgdir s" and no: "\<not> has_table pgdir k s" and k: "k < NPDENTRIES"
    and f: "page_aligned f" "P2V f \<notin> live_pages s" and live: "live_pages s1 = insert (P2V f) (live_pages s)" "pmem s1 = pmem s"
    and t: "t = put_page (V2P pgdir) (wr32 (pmem s (V2P pgdir)) (4 * k) (f OR (PTE_P OR PTE_W OR PTE_U))) (put_page f (\<lambda>_. 0) s1)"
  shows "wf_pt pgdir t" "has_table pgdir k t" "table pgdir k t = f" "pte pgdir va t = pte pgdir va s"
    "pt_frames pgdir t = insert f (pt_frames pgdir s)"
proof -
  let ?e = "f OR (PTE_P OR PTE_W OR PTE_U)"
  have ne: "f \<noteq> V2P pgdir" using wf f(2) by (auto simp: wf_pt_def)
  have d: "pde_at pgdir i t = (if i = k then ?e else pde_at pgdir i s)" for i by (auto simp: pde_at_def t)
  have P: "?e AND PTE_P \<noteq> 0" by (simp add: word_ao_dist)
  have h: "has_table pgdir i t \<longleftrightarrow> i = k \<or> has_table pgdir i s" for i using P by (simp add: has_table_def d)
  have tb: "table pgdir i t = (if i = k then f else table pgdir i s)" for i
    using PTE_ADDR_or [OF f(1) small_flags] by (simp add: table_def d)
  show "has_table pgdir k t" "table pgdir k t = f" by (simp_all add: h tb)
  have old: "table pgdir i s \<noteq> f" "table pgdir i s \<noteq> V2P pgdir" if "has_table pgdir i s" "i < NPDENTRIES" for i
    using wf f(2) that by (auto simp: wf_pt_def)
  have pm: "pmem t f = (\<lambda>_. 0)" using ne by (simp add: t)
  have pm': "g \<noteq> f \<Longrightarrow> g \<noteq> V2P pgdir \<Longrightarrow> pmem t g = pmem s g" for g by (simp add: t live)
  have lt: "live_pages t = insert (P2V f) (live_pages s)" by (simp add: t live)
  show "wf_pt pgdir t" unfolding wf_pt_def inj_on_def
    using wf ne old no by (auto simp: lt h tb wf_pt_def inj_on_def split: if_splits)
  have "{i. i < NPDENTRIES \<and> has_table pgdir i t} = insert k {i. i < NPDENTRIES \<and> has_table pgdir i s}" using k h by auto
  then show "pt_frames pgdir t = insert f (pt_frames pgdir s)" using no by (auto simp: pt_frames_def tb)
  show "pte pgdir va t = pte pgdir va s"
  proof (cases "unat (PDX va) = k")
    case True
    then show ?thesis using no by (simp add: pte_def h tb pm)
  next
    case False
    then show ?thesis using old [OF _ unat_PDX] by (simp add: pte_def h tb pm')
  qed
qed

lemma walk_alloc:
  assumes wf: "wf_pt pgdir s" and ok: "kmem_ok s" and w: "walkpgdir pgdir va True s = (Some p, t)"
  shows "wf_pt pgdir t \<and> kmem_ok t \<and> has_table pgdir (unat (PDX va)) t \<and> p = P2V (table pgdir (unat (PDX va)) t) + 4 * PTX va \<and>
    (\<forall>va'. pte pgdir va' t = pte pgdir va' s) \<and> live_pages s \<subseteq> live_pages t \<and>
    pt_frames pgdir s \<subseteq> pt_frames pgdir t \<and> (\<forall>f\<in>pt_frames pgdir t. f \<in> pt_frames pgdir s \<or> P2V f \<notin> live_pages s) \<and>
    (\<forall>f. P2V f \<in> live_pages s \<longrightarrow> f \<notin> pt_frames pgdir s \<longrightarrow> pmem t f = pmem s f)"
proof (cases "has_table pgdir (unat (PDX va)) s")
  case True
  then show ?thesis using walk_found [OF wf True] w wf ok by auto
next
  case False
  have al: "page_aligned pgdir" using wf by (simp add: wf_pt_def)
  obtain pg s1 where ka: "kalloc s = (pg, s1)" by fastforce
  have nz: "pg \<noteq> 0" "p = pg + 4 * PTX va"
    "t = st32 (pgdir + 4 * PDX va) (V2P pg OR PTE_P OR PTE_W OR PTE_U) (memset_page pg 0 s1)"
    using w False ka al by (auto simp: walkpgdir_def Let_def pde_addr has_table_def split: if_splits)
  have fr: "P2V (V2P pg) \<notin> live_pages s" "live_pages s1 = insert (P2V (V2P pg)) (live_pages s)" "kmem_ok s1" "pmem s1 = pmem s"
      "page_aligned (V2P pg)"
    using kalloc_not_live [OF ok] kalloc_live [OF ok] kalloc_ok [OF ok] pmem_kalloc [of s] kalloc_aligned [of s] ka nz(1) by simp_all
  have ne: "V2P pgdir \<noteq> V2P pg" using fr(1) wf by (metis P2V_V2P wf_pt_def)
  have t: "t = put_page (V2P pgdir) (wr32 (pmem s (V2P pgdir)) (4 * unat (PDX va)) (V2P pg OR (PTE_P OR PTE_W OR PTE_U)))
      (put_page (V2P pg) (\<lambda>_. 0) s1)"
    using al ne fr(4) by (simp add: nz(3) memset_page_def st32_pde)
  note a = add_table [OF wf False unat_PDX fr(5,1,2,4) t]
  have "kmem_ok t" using fr(3) by (simp add: t)
  moreover have "pmem t f = pmem s f" if "P2V f \<in> live_pages s" "f \<notin> pt_frames pgdir s" for f
    using that fr(1,4) by (auto simp: t pt_frames_def)
  moreover have "live_pages t = insert pg (live_pages s)" using fr(2) by (simp add: t)
  ultimately show ?thesis using a nz(2) fr(1) by auto
qed

section \<open>mappages\<close>

text \<open>The relation between the states before and after a call that only adds to one page directory.\<close>

definition pt_grows :: "uint \<Rightarrow> 'a kmem_scheme \<Rightarrow> 'a kmem_scheme \<Rightarrow> bool" where
  "pt_grows pgdir s t \<longleftrightarrow> wf_pt pgdir t \<and> kmem_ok t \<and> live_pages s \<subseteq> live_pages t \<and>
     (\<forall>f\<in>pt_frames pgdir t. f \<in> pt_frames pgdir s \<or> P2V f \<notin> live_pages s) \<and> pt_frames pgdir s \<subseteq> pt_frames pgdir t \<and>
     (\<forall>f. P2V f \<in> live_pages s \<longrightarrow> f \<notin> pt_frames pgdir s \<longrightarrow> pmem t f = pmem s f)"

lemma pt_grows_refl: "wf_pt pgdir s \<Longrightarrow> kmem_ok s \<Longrightarrow> pt_grows pgdir s s"
  by (simp add: pt_grows_def)

lemma pt_grows_trans: "pt_grows pgdir s t \<Longrightarrow> pt_grows pgdir t u \<Longrightarrow> pt_grows pgdir s u"
proof -
  assume st: "pt_grows pgdir s t" and tu: "pt_grows pgdir t u"
  have "pmem u f = pmem s f" if "P2V f \<in> live_pages s" "f \<notin> pt_frames pgdir s" for f
  proof -
    have "f \<notin> pt_frames pgdir t" "P2V f \<in> live_pages t" "pmem t f = pmem s f" using st that by (auto simp: pt_grows_def)
    then show ?thesis using tu by (simp add: pt_grows_def)
  qed
  with st tu show ?thesis unfolding pt_grows_def by blast
qed

lemma walk_fail: "kmem_ok s \<Longrightarrow> walkpgdir pgdir va True s = (None, t) \<Longrightarrow> t = s \<and> fst (kalloc s) = 0"
  using kalloc_fail [of s] by (auto simp: walkpgdir_def Let_def split: if_splits prod.splits)

lemma walk_grows:
  assumes "wf_pt pgdir s" "kmem_ok s" "walkpgdir pgdir va True s = (Some p, t)"
  shows "pt_grows pgdir s t"
  using walk_alloc [OF assms] unfolding pt_grows_def by blast

lemma store_grows:
  assumes "wf_pt pgdir s" "kmem_ok s" "has_table pgdir (unat (PDX va)) s"
  shows "pt_grows pgdir s (st32 (P2V (table pgdir (unat (PDX va)) s) + 4 * PTX va) w s)"
proof -
  let ?t = "st32 (P2V (table pgdir (unat (PDX va)) s) + 4 * PTX va) w s"
  note sp = store_pte [OF assms(1,3) refl, where w = w]
  have "live_pages ?t = live_pages s" "kmem_ok ?t" using assms(2) by (simp_all add: st32_def)
  moreover have "pmem ?t f = pmem s f" if "f \<notin> pt_frames pgdir s" for f
    by (rule sp(6)) (use that assms(3) unat_PDX [of va] in \<open>auto simp: pt_frames_def\<close>)
  ultimately show ?thesis using sp(2,3) by (simp add: pt_grows_def)
qed

text \<open>One page mapped.\<close>

lemma map_one:
  assumes "wf_pt pgdir s" "kmem_ok s" "walkpgdir pgdir a True s = (Some p, s1)"
  shows "pt_grows pgdir s (st32 p w s1)" "ld32 p s1 = pte pgdir a s"
    "pte pgdir va (st32 p w s1) = (if PGROUNDDOWN va = PGROUNDDOWN a then w else pte pgdir va s)"
proof -
  from walk_alloc [OF assms] have h: "wf_pt pgdir s1" "kmem_ok s1" "has_table pgdir (unat (PDX a)) s1"
    "p = P2V (table pgdir (unat (PDX a)) s1) + 4 * PTX a" "\<forall>va. pte pgdir va s1 = pte pgdir va s" by blast+
  show "pt_grows pgdir s (st32 p w s1)"
    unfolding h(4) by (rule pt_grows_trans [OF walk_grows [OF assms] store_grows [OF h(1-3)]])
  show "ld32 p s1 = pte pgdir a s" unfolding h(4) using entry_pte [OF h(3)] h(5) by simp
  show "pte pgdir va (st32 p w s1) = (if PGROUNDDOWN va = PGROUNDDOWN a then w else pte pgdir va s)"
    unfolding h(4) using store_pte(1) [OF h(1,3) refl] h(5) by simp
qed

lemma page_aligned_diff: "page_aligned v \<Longrightarrow> page_aligned a \<Longrightarrow> page_aligned (v - a)"
proof -
  assume "page_aligned v" "page_aligned a"
  then have "v = push_bit 12 (drop_bit 12 v)" "a = push_bit 12 (drop_bit 12 a)"
    by (simp_all add: PGROUNDDOWN_aligned flip: PGROUNDDOWN_push)
  then have "v - a = push_bit 12 (drop_bit 12 v - drop_bit 12 a)" by (simp add: push_bit_eq_mult left_diff_distrib)
  then show ?thesis by (simp add: page_aligned_bit bit_simps)
qed

lemma page_distance:
  assumes "page_aligned v" "page_aligned a" "v \<noteq> a"
  shows "unat (v - (a + PGSIZE)) + 4096 = unat (v - a)"
proof -
  note al = page_aligned_diff [OF assms(1,2)]
  have "unat (v - a) \<noteq> 0" using assms(3) by (simp add: unat_eq_zero)
  moreover have "4096 dvd unat (v - a)"
  proof (rule dvdI)
    show "unat (v - a) = 4096 * (unat (v - a) div 4096)"
      using unat_PGROUNDDOWN [of "v - a"] unfolding PGROUNDDOWN_aligned [OF al] by linarith
  qed
  ultimately have ge: "4096 \<le> unat (v - a)" by (simp add: dvd_imp_le)
  have "unat (v - a - PGSIZE) = unat (v - a) - unat PGSIZE" by (rule unat_sub) (use ge in \<open>simp add: word_le_nat_alt\<close>)
  then have "unat (v - (a + PGSIZE)) = unat (v - a) - 4096" by (simp add: diff_diff_eq)
  with ge show ?thesis by linarith
qed

lemma range_step:
  assumes "page_aligned v" "page_aligned a" "Suc n \<le> 2 ^ 20"
  shows "(if unat (v - (a + PGSIZE)) < n * 4096 then (pa + PGSIZE + (v - (a + PGSIZE))) OR w else if v = a then pa OR w else e) =
    (if unat (v - a) < Suc n * 4096 then (pa + (v - a)) OR w else (e :: uint))"
proof (cases "v = a")
  case True
  then have "unat (v - (a + PGSIZE)) = 4294963200" by simp
  moreover have "n < 1048576" using assms(3) by simp
  ultimately have "\<not> unat (v - (a + PGSIZE)) < n * 4096" by linarith
  then show ?thesis using True by simp
next
  case False
  have "unat (v - (a + PGSIZE)) < n * 4096 \<longleftrightarrow> unat (v - a) < Suc n * 4096" 
    unfolding page_distance [OF assms(1,2) False, symmetric] by simp
  moreover have "pa + PGSIZE + (v - (a + PGSIZE)) = pa + (v - a)" by simp
  ultimately show ?thesis using False by presburger
qed

text \<open>The range of pages is given by the distance from its first page, so that it may wrap around.\<close>

lemma mappages_loop_spec:
  assumes "mappages_loop pgdir perm n a pa s = Inr (r, t)" "wf_pt pgdir s" "kmem_ok s" "page_aligned a" "n \<le> 2 ^ 20"
  shows "pt_grows pgdir s t \<and> (r = 0 \<or> r = - 1 \<and> fst (kalloc t) = 0) \<and>
    (r = 0 \<longrightarrow> (\<forall>va. pte pgdir va t = (if unat (PGROUNDDOWN va - a) < n * 4096
       then (pa + (PGROUNDDOWN va - a)) OR perm OR PTE_P else pte pgdir va s)))"
  using assms
proof (induction n arbitrary: a pa s)
  case 0
  then show ?case by (simp add: pt_grows_refl)
next
  case (Suc n)
  show ?case
  proof (cases "walkpgdir pgdir a True s")
    case (Pair po s1)
    show ?thesis
    proof (cases po)
      case None
      then have "t = s" "r = - 1" "fst (kalloc s) = 0" using Suc.prems(1) Pair walk_fail [OF Suc.prems(3), of pgdir a s1] by simp_all
      then show ?thesis using pt_grows_refl [OF Suc.prems(2,3)] by simp
    next
      case (Some p)
      let ?s = "st32 p (pa OR perm OR PTE_P) s1"
      note m = map_one [OF Suc.prems(2,3) Pair [unfolded Some]]
      have run: "mappages_loop pgdir perm n (a + PGSIZE) (pa + PGSIZE) ?s = Inr (r, t)"
        using Suc.prems(1) Pair Some by (simp split: if_splits)
      have al: "page_aligned (a + PGSIZE)" using page_aligned_add [OF Suc.prems(4), of PGSIZE] by (simp add: page_aligned_def)
      have wf: "wf_pt pgdir ?s" "kmem_ok ?s" using m(1) [of "pa OR perm OR PTE_P"] by (simp_all add: pt_grows_def)
      note ih = Suc.IH [OF run wf al]
      have "pte pgdir va t = (if unat (PGROUNDDOWN va - a) < Suc n * 4096
         then (pa + (PGROUNDDOWN va - a)) OR perm OR PTE_P else pte pgdir va s)" if "r = 0" for va
      proof -
        have "pte pgdir va ?s = (if PGROUNDDOWN va = a then pa OR perm OR PTE_P else pte pgdir va s)"
          using m(3) PGROUNDDOWN_aligned [OF Suc.prems(4)] by (simp only:)
        with ih that show ?thesis
          by (simp only: simp_thms Suc_leD [OF Suc.prems(5)] range_step [OF page_aligned_PGROUNDDOWN Suc.prems(4,5)])
      qed
      then show ?thesis using ih [OF Suc_leD [OF Suc.prems(5)]] pt_grows_trans [OF m(1)] by blast
    qed
  qed
qed

lemma mappages_loop_panic:
  assumes "mappages_loop pgdir perm n a pa s = Inl e" "wf_pt pgdir s" "kmem_ok s" "page_aligned a" "n \<le> 2 ^ 20"
  shows "e = Panic ''remap'' \<and> (\<exists>va. unat (PGROUNDDOWN va - a) < n * 4096 \<and> pte pgdir va s AND PTE_P \<noteq> 0)"
  using assms
proof (induction n arbitrary: a pa s)
  case (Suc n)
  obtain p s1 where w: "walkpgdir pgdir a True s = (Some p, s1)"
    using Suc.prems(1) by (cases "walkpgdir pgdir a True s"; cases "fst (walkpgdir pgdir a True s)") auto
  let ?s = "st32 p (pa OR perm OR PTE_P) s1"
  note m = map_one [OF Suc.prems(2,3) w]
  show ?case
  proof (cases "ld32 p s1 AND PTE_P = 0")
    case True
    have al: "page_aligned (a + PGSIZE)" using page_aligned_add [OF Suc.prems(4), of PGSIZE] by (simp add: page_aligned_def)
    have wf: "wf_pt pgdir ?s" "kmem_ok ?s" using m(1) [of "pa OR perm OR PTE_P"] by (simp_all add: pt_grows_def)
    have run: "mappages_loop pgdir perm n (a + PGSIZE) (pa + PGSIZE) ?s = Inl e" using Suc.prems(1) w True by simp
    from Suc.IH [OF run wf al] Suc.prems(5) obtain va where
      va: "e = Panic ''remap''" "unat (PGROUNDDOWN va - (a + PGSIZE)) < n * 4096" "pte pgdir va ?s AND PTE_P \<noteq> 0" by auto
    have "\<not> unat (PGROUNDDOWN va - a) < 4096" if "PGROUNDDOWN va \<noteq> a"
      using page_distance [OF page_aligned_PGROUNDDOWN Suc.prems(4) that] by linarith
    moreover have "PGROUNDDOWN va \<noteq> a"
    proof
      assume "PGROUNDDOWN va = a"
      then have "unat (PGROUNDDOWN va - (a + PGSIZE)) = 4294963200" by simp
      moreover have "n < 1048576" using Suc.prems(5) by simp
      ultimately show False using va(2) by linarith
    qed
    moreover have "unat (PGROUNDDOWN va - a) < Suc n * 4096"
      using page_distance [OF page_aligned_PGROUNDDOWN Suc.prems(4) calculation(2)] va(2) by simp
    moreover have "pte pgdir va ?s = pte pgdir va s" using m(3) calculation(2) PGROUNDDOWN_aligned [OF Suc.prems(4)] by simp
    ultimately show ?thesis using va by auto
  next
    case False
    then show ?thesis using Suc.prems(1,4) w m(2) PGROUNDDOWN_aligned [of a] by (auto intro!: exI [of _ a])
  qed
qed simp

lemma mappages_count:
  assumes "page_aligned d"
  shows "(unat (d div PGSIZE) + 1) * 4096 = unat d + 4096" "unat (d div PGSIZE) + 1 \<le> 2 ^ 20"
proof -
  have "unat d = unat d div 4096 * 4096" using unat_PGROUNDDOWN [of d] unfolding PGROUNDDOWN_aligned [OF assms] .
  moreover have "unat (d div PGSIZE) = unat d div 4096" by (simp add: unat_div)
  ultimately show "(unat (d div PGSIZE) + 1) * 4096 = unat d + 4096" by (simp add: add_mult_distrib)
  have "unat d < 2 ^ LENGTH(32)" by (rule unsigned_less)
  then show "unat (d div PGSIZE) + 1 \<le> 2 ^ 20" by (simp add: unat_div)
qed

lemma page_below:
  assumes "page_aligned d" "page_aligned x"
  shows "unat x < unat d + 4096 \<longleftrightarrow> x \<le> d"
proof -
  define k l where "k = unat d div 4096" and "l = unat x div 4096"
  have eq: "unat d = k * 4096" "unat x = l * 4096"
    using unat_PGROUNDDOWN [of d] unat_PGROUNDDOWN [of x]
    unfolding PGROUNDDOWN_aligned [OF assms(1)] PGROUNDDOWN_aligned [OF assms(2)] k_def l_def .
  have "l * 4096 < Suc k * 4096 \<longleftrightarrow> l < Suc k" by (simp only: mult_less_cancel2) simp
  then show ?thesis unfolding word_le_nat_alt eq by (auto simp: add.commute)
qed

text \<open>The pages of a range of addresses that does not wrap around.\<close>

definition in_pages :: "uint \<Rightarrow> uint \<Rightarrow> uint \<Rightarrow> bool" where
  "in_pages va sz a \<longleftrightarrow> PGROUNDDOWN va \<le> PGROUNDDOWN a \<and> PGROUNDDOWN a \<le> PGROUNDDOWN (va + sz - 1)"

lemma in_pages_distance:
  assumes "va \<le> va + sz - 1"
  shows "unat (PGROUNDDOWN a - PGROUNDDOWN va) <
      (unat ((PGROUNDDOWN (va + sz - 1) - PGROUNDDOWN va) div PGSIZE) + 1) * 4096 \<longleftrightarrow> in_pages va sz a"
proof -
  let ?l = "PGROUNDDOWN (va + sz - 1)" and ?v = "PGROUNDDOWN va" and ?a = "PGROUNDDOWN a"
  have al: "page_aligned (?l - ?v)" "page_aligned (?a - ?v)" by (simp_all add: page_aligned_diff)
  have "unat va div 4096 \<le> unat (va + sz - 1) div 4096" using assms by (simp add: word_le_nat_alt div_le_mono)
  then have le: "?v \<le> ?l" by (simp add: word_le_nat_alt unat_PGROUNDDOWN)
  have "?a - ?v \<le> ?l - ?v \<longleftrightarrow> ?v \<le> ?a \<and> ?a \<le> ?l"
  proof (cases "?v \<le> ?a")
    case True
    then have "unat (?a - ?v) = unat ?a - unat ?v" "unat (?l - ?v) = unat ?l - unat ?v" "unat ?v \<le> unat ?a" "unat ?v \<le> unat ?l"
      using le by (simp_all add: unat_sub word_le_nat_alt)
    then have "unat (?a - ?v) \<le> unat (?l - ?v) \<longleftrightarrow> unat ?a \<le> unat ?l" by linarith
    then show ?thesis using True by (simp add: word_le_nat_alt)
  next
    case False
    then have lt: "unat ?a < unat ?v" by (simp add: word_le_nat_alt)
    have "unat (?a - ?v) = 4294967296 + unat ?a - unat ?v"
      using lt unat_sub_if' [of ?a ?v] by (simp add: word_le_nat_alt)
    moreover have "unat (?l - ?v) = unat ?l - unat ?v" using le by (simp add: unat_sub)
    moreover have "unat ?l < 4294967296" using unsigned_less [of ?l, where 'a = nat] by simp
    ultimately have "unat (?l - ?v) < unat (?a - ?v)" using lt le unfolding word_le_nat_alt by linarith
    then show ?thesis using False by (simp add: word_le_nat_alt)
  qed
  then show ?thesis unfolding mappages_count(1) [OF al(1)] page_below [OF al] in_pages_def .
qed

text \<open>
  C28. What \<^verbatim>\<open>mappages\<close> does, on every branch. On a well-formed page directory, for a range that does
  not wrap around, it either maps exactly the pages of the range, to consecutive frames with
  the given permissions, and leaves every other entry of the address space alone; or it
  returns -1, when no frame is left for a page table; or it panics, when a page of the range
  is mapped already. The directory stays well formed and no frame in use other than its own
  tables changes.
\<close>

theorem mappages_spec:
  assumes "wf_pt pgdir s" "kmem_ok s" "va \<le> va + sz - 1"
  shows "case mappages pgdir va sz pa perm s of
      Inl e \<Rightarrow> e = Panic ''remap'' \<and> (\<exists>a. in_pages va sz a \<and> pte pgdir a s AND PTE_P \<noteq> 0)
    | Inr (r, t) \<Rightarrow> wf_pt pgdir t \<and> kmem_ok t \<and>
        (\<forall>f. P2V f \<in> live_pages s \<and> f \<notin> pt_frames pgdir s \<longrightarrow> pmem t f = pmem s f) \<and>
        (r = - 1 \<and> fst (kalloc t) = 0 \<or>
         r = 0 \<and> (\<forall>a. pte pgdir a t = (if in_pages va sz a then (pa + (PGROUNDDOWN a - PGROUNDDOWN va)) OR perm OR PTE_P
                                      else pte pgdir a s)))"
proof -
  let ?v = "PGROUNDDOWN va" and ?n = "unat ((PGROUNDDOWN (va + sz - 1) - PGROUNDDOWN va) div PGSIZE) + 1"
  have n: "?n \<le> 2 ^ 20" by (rule mappages_count) (simp add: page_aligned_diff)
  have m: "mappages pgdir va sz pa perm s = mappages_loop pgdir perm ?n ?v pa s" by (simp add: mappages_def Let_def)
  show ?thesis
  proof (cases "mappages_loop pgdir perm ?n ?v pa s")
    case (Inl e)
    show ?thesis unfolding m Inl sum.case
      using mappages_loop_panic [OF Inl assms(1,2) page_aligned_PGROUNDDOWN n] unfolding in_pages_distance [OF assms(3)] .
  next
    case (Inr rt)
    obtain r t where rt: "rt = (r, t)" by fastforce
    from mappages_loop_spec [OF Inr [unfolded rt] assms(1,2) page_aligned_PGROUNDDOWN n]
    have "pt_grows pgdir s t" "r = 0 \<or> r = - 1 \<and> fst (kalloc t) = 0"
      "r = 0 \<longrightarrow> (\<forall>a. pte pgdir a t = (if in_pages va sz a then (pa + (PGROUNDDOWN a - PGROUNDDOWN va)) OR perm OR PTE_P
                                      else pte pgdir a s))"
      unfolding in_pages_distance [OF assms(3)] by blast+
    then show ?thesis unfolding m Inr rt pt_grows_def sum.case prod.case by blast
  qed
qed

lemma walk_ok: "fst (kalloc s) \<noteq> 0 \<Longrightarrow> \<exists>p t. walkpgdir pgdir va True s = (Some p, t)"
  by (auto simp: walkpgdir_def Let_def split: prod.splits)

text \<open>A page directory in frame 400, with no tables yet and two frames left.\<close>

abbreviation sample_pgdir :: uint where "sample_pgdir \<equiv> 0x80190000"

lemma sample_pt: "wf_pt sample_pgdir sample_shared" "kmem_ok sample_shared" "pte sample_pgdir va sample_shared = 0"
    "fst (kalloc sample_shared) \<noteq> 0"
proof -
  have use: "in_use sample_shared = {400}" by (auto simp: sample_shared_def sample_kmem_def in_use_def)
  have none: "\<not> has_table sample_pgdir i sample_shared" for i
    by (simp add: has_table_def pde_at_def sample_shared_def sample_kmem_def)
  show "wf_pt sample_pgdir sample_shared"
    by (simp add: wf_pt_def none live_pages_def use P2V_def page_aligned_def take_bit_eq_mod)
  show "kmem_ok sample_shared" using sample_shared_inv unfolding kmem_ok_def by blast
  show "pte sample_pgdir va sample_shared = 0" by (simp add: pte_def none)
  show "fst (kalloc sample_shared) \<noteq> 0" by (simp add: kalloc_def sample_shared_def sample_kmem_def P2V_def)
qed

theorem mappages_spec_witness:
  "\<exists>t. mappages sample_pgdir 0x3000 0x1000 0x200000 (PTE_W OR PTE_U) sample_shared = Inr (0, t) \<and> wf_pt sample_pgdir t \<and>
     pte sample_pgdir 0x3ABC t = 0x200007 \<and> pte sample_pgdir 0x4000 t = 0"
proof -
  obtain p s1 where w: "walkpgdir sample_pgdir 0x3000 True sample_shared = (Some p, s1)" using walk_ok [OF sample_pt(4)] by blast
  note m = map_one [OF sample_pt(1,2) w]
  have run: "\<exists>t. mappages sample_pgdir 0x3000 0x1000 0x200000 (PTE_W OR PTE_U) sample_shared = Inr (0, t)"
    using m(2) by (simp add: mappages_def Let_def PGROUNDDOWN_def w sample_pt(3))
  then obtain t where t: "mappages sample_pgdir 0x3000 0x1000 0x200000 (PTE_W OR PTE_U) sample_shared = Inr (0, t)" by blast
  have r: "in_pages 0x3000 0x1000 0x3ABC" "\<not> in_pages 0x3000 0x1000 0x4000"
    "PGROUNDDOWN 0x3ABC = 0x3000" "PGROUNDDOWN 0x3000 = 0x3000" by (simp_all add: in_pages_def PGROUNDDOWN_def)
  from mappages_spec [OF sample_pt(1,2), where va = "0x3000" and sz = "0x1000" and pa = "0x200000" and perm = "PTE_W OR PTE_U"]
  have "wf_pt sample_pgdir t" "pte sample_pgdir 0x3ABC t = 0x200007" "pte sample_pgdir 0x4000 t = 0"
    unfolding t by (simp_all add: r sample_pt(3))
  with t show ?thesis by blast
qed

end
