(* ===== verification/CopyOnWrite.thy ===== *)
theory CopyOnWrite
  imports Paging PageTable
begin

text \<open>
  Sharing of user pages between address spaces. The invariant says that the page tables of all
  address spaces are disjoint, that user addresses never map a page table, and that no frame
  is mapped more often than its reference count says. A copy-on-write fault keeps it and
  makes the faulting process the only owner of the page.
\<close>

section \<open>All address spaces\<close>

definition present :: "uint \<Rightarrow> uint \<Rightarrow> 'a kmem_scheme \<Rightarrow> bool" where
  "present d v s \<longleftrightarrow> pte d v s AND PTE_P \<noteq> 0"

definition frame_at :: "uint \<Rightarrow> uint \<Rightarrow> 'a kmem_scheme \<Rightarrow> uint" where
  "frame_at d v s = PTE_ADDR (pte d v s)"

text \<open>The byte a user process reads at an address.\<close>

definition uread :: "uint \<Rightarrow> uint \<Rightarrow> 'a kmem_scheme \<Rightarrow> uchar" where
  "uread d v s = pmem s (frame_at d v s) (unat (PTE_FLAGS v))"

text \<open>The user pages, of all address spaces in \<open>P\<close>, that are mapped to the frame \<open>f\<close>.\<close>

definition maps :: "uint set \<Rightarrow> uint \<Rightarrow> 'a kmem_scheme \<Rightarrow> (uint \<times> uint) set" where
  "maps P f s = {(d, v). d \<in> P \<and> v < KERNBASE \<and> page_aligned v \<and> present d v s \<and> frame_at d v s = f}"

definition frefs :: "uint \<Rightarrow> 'a kmem_scheme \<Rightarrow> int" where
  "frefs f s = run_ref (runArr s (run_idx (P2V f)))"

definition wf_spaces :: "uint set \<Rightarrow> 'a kmem_scheme \<Rightarrow> bool" where
  "wf_spaces P s \<longleftrightarrow> (\<forall>d\<in>P. wf_pt d s) \<and> (\<forall>d\<in>P. \<forall>d'\<in>P. d \<noteq> d' \<longrightarrow> pt_frames d s \<inter> pt_frames d' s = {})"

definition user_frames_ok :: "uint set \<Rightarrow> 'a kmem_scheme \<Rightarrow> bool" where
  "user_frames_ok P s \<longleftrightarrow> (\<forall>d\<in>P. \<forall>v<KERNBASE. present d v s \<longrightarrow>
     P2V (frame_at d v s) \<in> live_pages s \<and> (\<forall>d'\<in>P. frame_at d v s \<notin> pt_frames d' s))"

definition refs_ok :: "uint set \<Rightarrow> 'a kmem_scheme \<Rightarrow> bool" where
  "refs_ok P s \<longleftrightarrow> (\<forall>f. maps P f s \<noteq> {} \<longrightarrow> int (card (maps P f s)) \<le> frefs f s)"

definition mem_ok :: "uint set \<Rightarrow> 'a kmem_scheme \<Rightarrow> bool" where
  "mem_ok P s \<longleftrightarrow> finite P \<and> kmem_ok s \<and> wf_spaces P s \<and> user_frames_ok P s \<and> refs_ok P s"

lemma finite_maps: "finite P \<Longrightarrow> finite (maps P f s)"
  by (rule finite_subset [of _ "P \<times> UNIV"]) (auto simp: maps_def)

lemma present_page: "PGROUNDDOWN v = PGROUNDDOWN w \<Longrightarrow> present d v s = present d w s \<and> frame_at d v s = frame_at d w s"
  using pte_cong_va [of v w d s] by (simp add: present_def frame_at_def)

lemma ld32_st32 [simp]: "ld32 q (st32 q a s) = a"
  by (simp add: ld32_def st32_def)

lemma st32_st32 [simp]: "st32 q b (st32 q a s) = st32 q b s"
  by (simp add: st32_def put_page_def)

text \<open>What the invariant depends on.\<close>

lemma pt_cong:
  assumes "pmem t = pmem s"
  shows "pte d v t = pte d v s" "pt_frames d t = pt_frames d s" "present d v t = present d v s" "frame_at d v t = frame_at d v s"
    "uread d v t = uread d v s" "maps P f t = maps P f s" "has_table d k t = has_table d k s" "table d k t = table d k s"
proof -
  note f = pt_frame [of d s t for d]
  show "pte d v t = pte d v s" "pt_frames d t = pt_frames d s" for d v by (rule f; simp add: assms)+
  then show "present d v t = present d v s" "frame_at d v t = frame_at d v s" for d v by (simp_all add: present_def frame_at_def)
  then show "uread d v t = uread d v s" "maps P f t = maps P f s" by (simp_all add: uread_def maps_def assms)
  show "has_table d k t = has_table d k s" "table d k t = table d k s" by (rule f; simp add: assms)+
qed

text \<open>Storing an entry for a user page of \<open>d\<close>.\<close>

lemma store_entry:
  assumes wf: "wf_spaces P s" and d: "d \<in> P" and h: "has_table d (unat (PDX va)) s"
    and t: "t = st32 (P2V (table d (unat (PDX va)) s) + 4 * PTX va) w s"
  shows "d' \<in> P \<Longrightarrow> pte d' v t = (if d' = d \<and> PGROUNDDOWN v = PGROUNDDOWN va then w else pte d' v s)"
    "wf_spaces P t" "d' \<in> P \<Longrightarrow> pt_frames d' t = pt_frames d' s" "f \<notin> pt_frames d s \<Longrightarrow> pmem t f = pmem s f"
    "live_pages t = live_pages s" "kmem_ok t = kmem_ok s" "frefs f t = frefs f s"
proof -
  have wd: "wf_pt d s" using wf d by (simp add: wf_spaces_def)
  note sp = store_pte [OF wd h t]
  have tb: "table d (unat (PDX va)) s \<in> pt_frames d s" using h unat_PDX [of va] by (auto simp: pt_frames_def)
  show pm: "pmem t f = pmem s f" if "f \<notin> pt_frames d s" for f by (rule sp(6)) (use that tb in auto)
  show lv: "live_pages t = live_pages s" "kmem_ok t = kmem_ok s" "frefs f t = frefs f s" by (simp_all add: t st32_def frefs_def)
  have other: "\<And>f. f \<in> pt_frames d' s \<Longrightarrow> pmem t f = pmem s f" if "d' \<in> P" "d' \<noteq> d" for d'
    by (rule pm) (use that wf d in \<open>auto simp: wf_spaces_def disjoint_iff\<close>)
  show fr: "pt_frames d' t = pt_frames d' s" if "d' \<in> P" for d'
    using sp(3) pt_frame(2) [OF other [OF that]] by (cases "d' = d") auto
  show "pte d' v t = (if d' = d \<and> PGROUNDDOWN v = PGROUNDDOWN va then w else pte d' v s)" if "d' \<in> P"
    using sp(1) pt_frame(1) [OF other [OF that]] by (cases "d' = d") auto
  have "wf_pt d' t" if "d' \<in> P" for d'
    using sp(2) pt_frame(3) [OF other [OF that]] that wf lv(1) by (cases "d' = d") (auto simp: wf_spaces_def)
  then show "wf_spaces P t" using wf fr unfolding wf_spaces_def by simp
qed

text \<open>A fresh frame filled with any contents.\<close>

lemma put_fresh:
  assumes wf: "wf_spaces P s" and f: "P2V f \<notin> live_pages s" and live: "live_pages s \<subseteq> live_pages t"
    and pm: "pmem t = (pmem s)(f := g)"
  shows "d \<in> P \<Longrightarrow> pte d v t = pte d v s" "d \<in> P \<Longrightarrow> pt_frames d t = pt_frames d s" "wf_spaces P t" "d \<in> P \<Longrightarrow> f \<notin> pt_frames d t"
    "d \<in> P \<Longrightarrow> has_table d k t = has_table d k s" "d \<in> P \<Longrightarrow> table d k t = table d k s"
proof -
  have nf: "f \<notin> pt_frames d s" if "d \<in> P" for d using frames_live [of d s f] wf f that by (auto simp: wf_spaces_def)
  have same: "\<And>h. h \<in> pt_frames d s \<Longrightarrow> pmem t h = pmem s h" if "d \<in> P" for d using nf [OF that] by (auto simp: pm)
  show "pte d v t = pte d v s" "has_table d k t = has_table d k s" "table d k t = table d k s" if "d \<in> P"
    by (rule pt_frame; rule same [OF that]; assumption)+
  show fr: "pt_frames d t = pt_frames d s" if "d \<in> P" for d by (rule pt_frame; rule same [OF that]; assumption)
  show "f \<notin> pt_frames d t" if "d \<in> P" using fr nf that by simp
  have "wf_pt d t" if "d \<in> P" for d
    by (rule pt_frame(3) [OF same [OF that] live]) (use wf that in \<open>simp_all add: wf_spaces_def\<close>)
  then show "wf_spaces P t" using wf fr by (simp add: wf_spaces_def)
qed

text \<open>The frame of a live page.\<close>

lemma live_frame:
  assumes "P2V f \<in> live_pages s"
  shows "run_idx (P2V f) < MAXPAGES" "of_nat (run_idx (P2V f)) * PGSIZE = f" "run_idx (P2V f) \<in> in_use s"
proof -
  obtain i where i: "i \<in> in_use s" "P2V f = P2V (of_nat i * PGSIZE)" using assms by (auto simp: live_pages_def)
  then have "i < MAXPAGES" by (simp add: in_use_def)
  with i show "run_idx (P2V f) < MAXPAGES" "of_nat (run_idx (P2V f)) * PGSIZE = f" "run_idx (P2V f) \<in> in_use s"
    by (simp_all add: run_idx_frame)
qed

lemma live_frame_inj: "P2V f \<in> live_pages s \<Longrightarrow> P2V g \<in> live_pages t \<Longrightarrow> run_idx (P2V f) = run_idx (P2V g) \<Longrightarrow> f = g"
  using live_frame(2) by metis

text \<open>Dropping one of several references.\<close>

lemma decrement_shared:
  assumes ok: "kmem_ok s" and f: "P2V f \<in> live_pages s" and r: "1 < frefs f s"
  shows "\<exists>t. decrementReferencesAndGetPrevVal (P2V f) s = Inr (frefs f s, t) \<and> kmem_ok t \<and> live_pages t = live_pages s \<and>
    t = s\<lparr>runArr := (runArr s)(run_idx (P2V f) := (runArr s (run_idx (P2V f)))\<lparr>run_ref := frefs f s - 1\<rparr>)\<rparr>"
proof -
  let ?i = "run_idx (P2V f)"
  note l = live_frame [OF f]
  obtain xs where inv: "kmem_inv s xs" using ok by (auto simp: kmem_ok_def)
  have "\<exists>t. update_ref (P2V (of_nat ?i * PGSIZE)) (\<lambda>r. if r > 1 then r - 1 else r) s = Inr t \<and> kmem_inv t xs \<and> in_use t = in_use s"
    by (rule refs_inv [OF inv l(1)]) (use r in \<open>simp_all add: frefs_def\<close>)
  then obtain t where t: "update_ref (P2V f) (\<lambda>r. if r > 1 then r - 1 else r) s = Inr t" "kmem_inv t xs" "in_use t = in_use s"
    unfolding l(2) by blast
  have "t = s\<lparr>runArr := (runArr s)(?i := (runArr s ?i)\<lparr>run_ref := frefs f s - 1\<rparr>)\<rparr>"
    using t(1) l(1) r by (simp add: update_ref_def Let_def frefs_def)
  moreover have "live_pages t = live_pages s" using t(3) by (simp add: live_pages_def)
  moreover have "kmem_ok t" using t(2) by (auto simp: kmem_ok_def)
  ultimately show ?thesis
    using l(1) t(1) by (simp add: decrementReferencesAndGetPrevVal_def getNumberReferences_def frefs_def)
qed

lemma decrement_last:
  assumes f: "P2V f \<in> live_pages s" and r: "frefs f s = 1"
  shows "decrementReferencesAndGetPrevVal (P2V f) s = Inr (1, s)"
proof -
  let ?i = "run_idx (P2V f)"
  have "(runArr s)(?i := (runArr s ?i)\<lparr>run_ref := 1\<rparr>) = runArr s" using r by (auto simp: fun_eq_iff frefs_def)
  then show ?thesis using live_frame(1) [OF f] r
    by (simp add: decrementReferencesAndGetPrevVal_def getNumberReferences_def update_ref_def frefs_def)
qed

section \<open>Remapping one page\<close>

lemma maps_live: "user_frames_ok P s \<Longrightarrow> maps P f s \<noteq> {} \<Longrightarrow> P2V f \<in> live_pages s"
  by (auto simp: maps_def user_frames_ok_def)

lemma maps_remap:
  assumes "\<And>d' v. d' \<in> P \<Longrightarrow> pte d' v t = (if d' = d \<and> PGROUNDDOWN v = va then w else pte d' v s)"
    and "d \<in> P" "va < KERNBASE" "page_aligned va" "w AND PTE_P \<noteq> 0" "PTE_ADDR w = g"
  shows "maps P f t = maps P f s - {(d, va)} \<union> (if f = g then {(d, va)} else {})"
proof -
  have e: "present d' v t = (if d' = d \<and> v = va then True else present d' v s)"
    "frame_at d' v t = (if d' = d \<and> v = va then g else frame_at d' v s)" if "d' \<in> P" "page_aligned v" for d' v
    using assms(1) [OF that(1), of v] assms(5,6) PGROUNDDOWN_aligned [OF that(2)] by (simp_all add: present_def frame_at_def)
  have "(d', v) \<in> maps P f t \<longleftrightarrow> (d', v) \<in> maps P f s - {(d, va)} \<union> (if f = g then {(d, va)} else {})" for d' v
    by (cases "d' \<in> P \<and> page_aligned v") (use assms(2-4) e in \<open>auto simp: maps_def\<close>)
  then show ?thesis by auto
qed

text \<open>
  The page \<open>va\<close> of \<open>d\<close> moves from the frame \<open>f\<close> to \<open>g\<close>, which has the same contents: either \<open>f\<close> itself, when
  there was one reference to it, or a fresh frame, and the reference to \<open>f\<close> is dropped.
\<close>

definition remapped :: "uint set \<Rightarrow> uint \<Rightarrow> uint \<Rightarrow> uint \<Rightarrow> uint \<Rightarrow> uint \<Rightarrow> 'a kmem_scheme \<Rightarrow> 'a kmem_scheme \<Rightarrow> bool" where
  "remapped P d va w f g s t \<longleftrightarrow>
     mem_ok P s \<and> d \<in> P \<and> va < KERNBASE \<and> page_aligned va \<and> present d va s \<and> frame_at d va s = f \<and> w AND PTE_P \<noteq> 0 \<and> PTE_ADDR w = g \<and>
     (\<forall>d'\<in>P. \<forall>v. pte d' v t = (if d' = d \<and> PGROUNDDOWN v = va then w else pte d' v s)) \<and>
     wf_spaces P t \<and> (\<forall>d'\<in>P. pt_frames d' t = pt_frames d' s \<and> g \<notin> pt_frames d' s) \<and>
     kmem_ok t \<and> live_pages s \<subseteq> live_pages t \<and> P2V g \<in> live_pages t \<and>
     (\<forall>h. h \<notin> pt_frames d s \<longrightarrow> P2V h \<in> live_pages s \<longrightarrow> pmem t h = pmem s h) \<and> pmem t g = pmem s f \<and>
     (\<forall>h. P2V h \<in> live_pages s \<longrightarrow> h \<noteq> f \<longrightarrow> frefs h t = frefs h s) \<and>
     (g = f \<and> frefs f t = 1 \<and> frefs f s = 1 \<or> P2V g \<notin> live_pages s \<and> frefs f t = frefs f s - 1 \<and> frefs g t = 1)"

lemma remappedD:
  assumes "remapped P d va w f g s t"
  shows "mem_ok P s" "d \<in> P" "va < KERNBASE" "page_aligned va" "present d va s" "frame_at d va s = f" "w AND PTE_P \<noteq> 0" "PTE_ADDR w = g"
    "\<And>d' v. d' \<in> P \<Longrightarrow> pte d' v t = (if d' = d \<and> PGROUNDDOWN v = va then w else pte d' v s)"
    "g = f \<and> frefs f t = 1 \<and> frefs f s = 1 \<or> P2V g \<notin> live_pages s \<and> frefs f t = frefs f s - 1 \<and> frefs g t = 1"
    "\<And>h. P2V h \<in> live_pages s \<Longrightarrow> h \<noteq> f \<Longrightarrow> frefs h t = frefs h s"
    "wf_spaces P t" "kmem_ok t" "live_pages s \<subseteq> live_pages t" "P2V g \<in> live_pages t"
    "\<And>d'. d' \<in> P \<Longrightarrow> pt_frames d' t = pt_frames d' s" "\<And>d'. d' \<in> P \<Longrightarrow> g \<notin> pt_frames d' s"
    "\<And>h. h \<notin> pt_frames d s \<Longrightarrow> P2V h \<in> live_pages s \<Longrightarrow> pmem t h = pmem s h" "pmem t g = pmem s f"
  using assms by (simp_all add: remapped_def)

lemma remapped_maps:
  assumes "remapped P d va w f g s t"
  shows "(d, va) \<in> maps P f s" "maps P h t = maps P h s - {(d, va)} \<union> (if h = g then {(d, va)} else {})"
proof -
  note r = remappedD [OF assms]
  show "(d, va) \<in> maps P f s" using r(2-6) by (simp add: maps_def)
  show "maps P h t = maps P h s - {(d, va)} \<union> (if h = g then {(d, va)} else {})" by (rule maps_remap [OF r(9,2-4,7,8)])
qed

lemma remapped_sole_owner:
  assumes "remapped P d va w f g s t"
  shows "maps P g t = {(d, va)}"
proof -
  note r = remappedD [OF assms] and m = remapped_maps [OF assms]
  show ?thesis
  proof (cases "P2V g \<in> live_pages s")
    case True
    then have g: "g = f" "frefs f s = 1" using r(10) by auto
    moreover have "int (card (maps P f s)) \<le> frefs f s" using r(1) m(1) by (auto simp: mem_ok_def refs_ok_def)
    ultimately have "card (maps P f s) \<le> 1" by simp
    then have "maps P f s = {(d, va)}" using m(1) finite_maps [of P f s] r(1) by (auto simp: mem_ok_def card_le_Suc0_iff_eq)
    with g show ?thesis by (simp add: m(2))
  next
    case False
    then have "maps P g s = {}" using maps_live r(1) by (auto simp: mem_ok_def)
    then show ?thesis by (simp add: m(2))
  qed
qed

lemma remapped_refs:
  assumes "remapped P d va w f g s t"
  shows "refs_ok P t"
  unfolding refs_ok_def
proof (intro allI impI)
  note r = remappedD [OF assms] and m = remapped_maps [OF assms]
  fix h assume ne: "maps P h t \<noteq> {}"
  have old: "int (card (maps P h s)) \<le> frefs h s" "P2V h \<in> live_pages s" if "maps P h s \<noteq> {}"
    using that r(1) maps_live by (auto simp: mem_ok_def refs_ok_def)
  have fin: "finite (maps P h s)" using finite_maps r(1) by (auto simp: mem_ok_def)
  consider "h = g" | "h = f" "h \<noteq> g" | "h \<noteq> f" "h \<noteq> g" by blast
  then show "int (card (maps P h t)) \<le> frefs h t"
  proof cases
    case 1
    then show ?thesis using remapped_sole_owner [OF assms] r(10) by auto
  next
    case 2
    then have "card (maps P h t) = card (maps P h s) - 1" using m fin by simp
    moreover have "card (maps P h s) \<noteq> 0" "maps P h s \<noteq> {}" using m(1) fin 2 by auto
    moreover have "frefs h t = frefs h s - 1" using r(10) 2 by auto
    ultimately show ?thesis using old(1) by linarith
  next
    case 3
    then have "(d, va) \<notin> maps P h s" using r(6) by (simp add: maps_def)
    then have eq: "maps P h t = maps P h s" using 3 by (simp add: m(2))
    then show ?thesis using ne old r(11) [of h] 3 by simp
  qed
qed

lemma remapped_entry:
  assumes "remapped P d va w f g s t" "d' \<in> P"
  shows "present d' v t \<longleftrightarrow> (if d' = d \<and> PGROUNDDOWN v = va then True else present d' v s)"
    "frame_at d' v t = (if d' = d \<and> PGROUNDDOWN v = va then g else frame_at d' v s)"
  using remappedD(7-9) [OF assms(1)] assms(2) by (simp_all add: present_def frame_at_def)

lemma remapped_mem_ok:
  assumes "remapped P d va w f g s t"
  shows "mem_ok P t"
proof -
  note r = remappedD [OF assms]
  have "user_frames_ok P t"
    unfolding user_frames_ok_def
  proof (intro ballI allI impI)
    fix d' v assume h: "d' \<in> P" "v < KERNBASE" "present d' v t"
    show "P2V (frame_at d' v t) \<in> live_pages t \<and> (\<forall>d''\<in>P. frame_at d' v t \<notin> pt_frames d'' t)"
    proof (cases "d' = d \<and> PGROUNDDOWN v = va")
      case True
      then show ?thesis using r(15-17) h(1) by (auto simp: remapped_entry [OF assms])
    next
      case False
      then have "frame_at d' v t = frame_at d' v s" "present d' v s" using h by (auto simp: remapped_entry [OF assms] split: if_splits)
      then show ?thesis using r(1,14,16) h(1,2) by (auto simp: mem_ok_def user_frames_ok_def)
    qed
  qed
  with r(1,12,13) remapped_refs [OF assms] show ?thesis by (simp add: mem_ok_def)
qed

lemma remapped_contents:
  assumes "remapped P d va w f g s t" "d' \<in> P" "v < KERNBASE" "present d' v s"
  shows "present d' v t \<and> uread d' v t = uread d' v s"
proof -
  note r = remappedD [OF assms(1)] and e = remapped_entry [OF assms(1,2), of v]
  have u: "P2V (frame_at d' v s) \<in> live_pages s" "frame_at d' v s \<notin> pt_frames d s"
    using r(1,2) assms(2-4) by (auto simp: mem_ok_def user_frames_ok_def)
  show ?thesis
  proof (cases "d' = d \<and> PGROUNDDOWN v = va")
    case True
    then have "frame_at d v s = f" using present_page [of v va d s] r(6) PGROUNDDOWN_aligned [OF r(4)] by simp
    with True show ?thesis using r(19) e by (simp add: uread_def)
  next
    case False
    then have "frame_at d' v t = frame_at d' v s" "present d' v t" using assms(4) e by (auto split: if_splits)
    then show ?thesis using r(18) [OF u(2,1)] by (simp add: uread_def)
  qed
qed

section \<open>The page-fault handler for shared pages\<close>

lemma pte_bits:
  fixes e :: uint
  shows "e AND PTE_P = 0 \<longleftrightarrow> \<not> bit e 0" "e AND PTE_W = 0 \<longleftrightarrow> \<not> bit e 1" "e AND PTE_U = 0 \<longleftrightarrow> \<not> bit e 2"
    "e AND PTE_A = 0 \<longleftrightarrow> \<not> bit e 5" "e AND PTE_PG = 0 \<longleftrightarrow> \<not> bit e 9" "e AND PTE_COW = 0 \<longleftrightarrow> \<not> bit e 11"
  using and_exp_eq_0_iff_not_bit [of e 0] and_exp_eq_0_iff_not_bit [of e 1] and_exp_eq_0_iff_not_bit [of e 2]
    and_exp_eq_0_iff_not_bit [of e 5] and_exp_eq_0_iff_not_bit [of e 9] and_exp_eq_0_iff_not_bit [of e 11] by simp_all

lemma bit_PTE:
  "bit PTE_P n \<longleftrightarrow> n = 0" "bit PTE_W n \<longleftrightarrow> n = 1" "bit PTE_U n \<longleftrightarrow> n = 2" "bit PTE_PG n \<longleftrightarrow> n = 9" "bit PTE_COW n \<longleftrightarrow> n = 11"
proof -
  have e: "bit ((2 :: uint) ^ k) n \<longleftrightarrow> n = k" if "k < 32" for k using that by (auto simp: bit_exp_iff)
  show "bit PTE_P n \<longleftrightarrow> n = 0" "bit PTE_W n \<longleftrightarrow> n = 1" "bit PTE_U n \<longleftrightarrow> n = 2" "bit PTE_PG n \<longleftrightarrow> n = 9" "bit PTE_COW n \<longleftrightarrow> n = 11"
    using e [of 0] e [of 1] e [of 2] e [of 9] e [of 11] by simp_all
qed

lemma present_table: "present d va s \<Longrightarrow> has_table d (unat (PDX va)) s"
  by (auto simp: present_def pte_def split: if_splits)

text \<open>The entry for a private copy in the frame \<open>g\<close> of the page with the entry \<open>e\<close>.\<close>

definition copied_entry :: "uint \<Rightarrow> uint \<Rightarrow> uint" where
  "copied_entry g e = (g OR PTE_FLAGS e OR PTE_P OR PTE_W) AND NOT PTE_COW"

lemma copied_entry:
  assumes "page_aligned g"
  shows "PTE_ADDR (copied_entry g e) = g" "copied_entry g e AND PTE_P \<noteq> 0" "copied_entry g e AND PTE_W \<noteq> 0"
    "copied_entry g e AND PTE_COW = 0"
proof -
  have b: "bit (copied_entry g e) n \<longleftrightarrow> (bit g n \<or> n < 12 \<and> bit e n \<or> n = 0 \<or> n = 1) \<and> n \<noteq> 11" if "n < 32" for n
    using that unfolding copied_entry_def bit_and_iff bit_or_iff bit_not_iff bit_PTE_FLAGS bit_PTE by auto
  show "copied_entry g e AND PTE_P \<noteq> 0" "copied_entry g e AND PTE_W \<noteq> 0" "copied_entry g e AND PTE_COW = 0"
    by (simp_all add: pte_bits b)
  show "PTE_ADDR (copied_entry g e) = g"
  proof (rule bit_word_eqI)
    fix n assume "n < LENGTH(32)"
    then show "bit (PTE_ADDR (copied_entry g e)) n = bit g n"
      using assms b [of n] by (cases "n < 12") (auto simp: bit_PTE_ADDR page_aligned_bit)
  qed
qed

text \<open>The entry of a page with a single owner, made writable.\<close>

definition owned_entry :: "uint \<Rightarrow> uint" where
  "owned_entry e = (e OR PTE_W) AND NOT PTE_COW"

lemma owned_entry:
  shows "PTE_ADDR (owned_entry e) = PTE_ADDR e" "e AND PTE_P \<noteq> 0 \<Longrightarrow> owned_entry e AND PTE_P \<noteq> 0"
    "owned_entry e AND PTE_W \<noteq> 0" "owned_entry e AND PTE_COW = 0"
proof -
  have b: "bit (owned_entry e) n \<longleftrightarrow> (bit e n \<or> n = 1) \<and> n \<noteq> 11" if "n < 32" for n
    using that unfolding owned_entry_def bit_and_iff bit_or_iff bit_not_iff bit_PTE by auto
  show "PTE_ADDR (owned_entry e) = PTE_ADDR e"
    by (rule bit_word_eqI) (use b in \<open>auto simp: bit_PTE_ADDR\<close>)
  show "owned_entry e AND PTE_P \<noteq> 0" if "e AND PTE_P \<noteq> 0" using that b [of 0] by (simp add: pte_bits)
  show "owned_entry e AND PTE_W \<noteq> 0" "owned_entry e AND PTE_COW = 0" by (simp_all add: pte_bits b)
qed

text \<open>A successful allocation.\<close>

lemma kalloc_success:
  assumes "kmem_ok s" "fst (kalloc s) \<noteq> 0"
  shows "frefs (V2P (fst (kalloc s))) (snd (kalloc s)) = 1"
    "P2V h \<in> live_pages s \<Longrightarrow> frefs h (snd (kalloc s)) = frefs h s"
proof -
  obtain xs where "kmem_inv s xs" using assms(1) by (auto simp: kmem_ok_def)
  then show "frefs (V2P (fst (kalloc s))) (snd (kalloc s)) = 1"
    "P2V h \<in> live_pages s \<Longrightarrow> frefs h (snd (kalloc s)) = frefs h s"
  proof (induct rule: kalloc_live_cases)
    case (ok i ys)
    have k: "snd (kalloc s) = s\<lparr>freelist := run_next (runArr s i), runArr := (runArr s)(i := (runArr s i)\<lparr>run_ref := 1\<rparr>),
             occupiedPages := occupiedPages s + 1\<rparr>"
      using \<open>kmem_inv s xs\<close> ok(1) by (simp add: kalloc_Cons)
    show "frefs (V2P (fst (kalloc s))) (snd (kalloc s)) = 1" using ok(2,4) by (simp add: frefs_def k)
    show "P2V h \<in> live_pages s \<Longrightarrow> frefs h (snd (kalloc s)) = frefs h s"
      using live_frame(3) [of h s] ok(3) by (auto simp: frefs_def k)
  qed (use assms(2) in simp_all)
qed

lemma cow_walk:
  assumes "mem_ok P s" "d \<in> P" "present d va s"
  shows "fst (walkpgdir d va False s) = Some (P2V (table d (unat (PDX va)) s) + 4 * PTX va)"
    "ld32 (P2V (table d (unat (PDX va)) s) + 4 * PTX va) s = pte d va s"
  using walk_found [OF _ present_table [OF assms(3)]] entry_pte [OF present_table [OF assms(3)]] assms(1,2)
  by (simp_all add: mem_ok_def wf_spaces_def)

lemma lcr3_simps [simp]:
  "pte d v (lcr3 x s) = pte d v s" "pt_frames d (lcr3 x s) = pt_frames d s" "wf_spaces P (lcr3 x s) = wf_spaces P s"
  "live_pages (lcr3 x s) = live_pages s" "kmem_ok (lcr3 x s) = kmem_ok s" "frefs f (lcr3 x s) = frefs f s" "pmem (lcr3 x s) = pmem s"
  by (simp_all add: lcr3_def pte_def pt_frames_def wf_spaces_def wf_pt_def has_table_def table_def pde_at_def live_pages_def in_use_def
      kmem_ok_def kmem_inv_def allocatable_def frefs_def)

lemma cow_shared:
  assumes ok: "mem_ok P s" and i: "curp s = Some i" "p_pgdir (procs s ! i) = d" and d: "d \<in> P" and va: "va < KERNBASE" "page_aligned va"
    and here: "present d va s" and f: "f = frame_at d va s" and r: "1 < frefs f s" and mem: "g = V2P (fst (kalloc s))" "fst (kalloc s) \<noteq> 0"
  shows "\<exists>t. onPageFaultCow va s = Inr t \<and> remapped P d va (copied_entry g (pte d va s)) f g s t"
proof -
  let ?e = "pte d va s" and ?q = "P2V (table d (unat (PDX va)) s) + 4 * PTX va"
  have km: "kmem_ok s" and wf: "wf_spaces P s" using ok by (simp_all add: mem_ok_def)
  have u: "P2V f \<in> live_pages s" "\<And>d'. d' \<in> P \<Longrightarrow> f \<notin> pt_frames d' s"
    using ok d va here f by (auto simp: mem_ok_def user_frames_ok_def)
  obtain s1 where s1: "decrementReferencesAndGetPrevVal (P2V f) s = Inr (frefs f s, s1)" "kmem_ok s1" "live_pages s1 = live_pages s"
    "s1 = s\<lparr>runArr := (runArr s)(run_idx (P2V f) := (runArr s (run_idx (P2V f)))\<lparr>run_ref := frefs f s - 1\<rparr>)\<rparr>"
    using decrement_shared [OF km u(1) r] by blast
  have k1: "fst (kalloc s1) = P2V g" "P2V g \<noteq> 0" using mem by (simp_all add: s1(4) kalloc_def split: option.splits)
  define s2 where "s2 = snd (kalloc s1)"
  have kk: "kalloc s1 = (P2V g, s2)" using k1 by (simp add: s2_def prod_eq_iff)
  define s3 where "s3 = put_page g (pmem s2 f) s2"
  have pm2: "pmem s2 = pmem s" by (simp add: s2_def s1(4))
  have fresh: "P2V g \<notin> live_pages s" "live_pages s3 = insert (P2V g) (live_pages s)" "kmem_ok s3"
    using kalloc_not_live [OF s1(2)] kalloc_live [OF s1(2)] kalloc_ok [OF s1(2)] k1 s1(3) by (simp_all add: s3_def s2_def)
  have pm3: "pmem s3 = (pmem s)(g := pmem s f)" by (simp add: s3_def pm2)
  have sub: "live_pages s \<subseteq> live_pages s3" using fresh(2) by blast
  note pf = put_fresh [OF wf fresh(1) sub pm3]
  define t where "t = st32 ?q (copied_entry g ?e) s3"
  have q3: "?q = P2V (table d (unat (PDX va)) s3) + 4 * PTX va" "has_table d (unat (PDX va)) s3"
    using pf(5,6) d present_table [OF here] by simp_all
  note se = store_entry [OF pf(3) d q3(2) t_def [unfolded q3(1)]]
  have run: "onPageFaultCow va s = Inr (lcr3 (V2P d) t)"
    using cow_walk [OF ok d here] s1(1) r k1 f i
    by (simp add: onPageFaultCow_def myproc_def Let_def kk frame_at_def t_def copied_entry_def s3_def or.assoc)
  have al: "page_aligned g" using kalloc_aligned [of s] mem(1) by simp
  have refs: "frefs f t = frefs f s - 1" "frefs g t = 1" "\<And>h. P2V h \<in> live_pages s \<Longrightarrow> h \<noteq> f \<Longrightarrow> frefs h t = frefs h s"
  proof -
    have "frefs h s3 = frefs h s2" for h by (simp add: frefs_def s3_def)
    then have eq: "frefs h t = frefs h s2" for h by (simp add: se(7))
    have s1f: "frefs f s1 = frefs f s - 1" "\<And>h. P2V h \<in> live_pages s \<Longrightarrow> h \<noteq> f \<Longrightarrow> frefs h s1 = frefs h s"
      using live_frame_inj [OF _ u(1)] by (auto simp: frefs_def s1(4))
    note ks = kalloc_success [OF s1(2), unfolded k1(1), OF k1(2)]
    show "frefs g t = 1" using ks(1) by (simp add: eq s2_def)
    show "frefs f t = frefs f s - 1" using ks(2) [of f] u(1) s1f(1) by (simp add: eq s2_def s1(3))
    show "frefs h t = frefs h s" if "P2V h \<in> live_pages s" "h \<noteq> f" for h
      using ks(2) [of h] s1f(2) [OF that] that(1) by (simp add: eq s2_def s1(3))
  qed
  have nf: "g \<notin> pt_frames d' s" if "d' \<in> P" for d' using pf(2,4) [OF that] by simp
  have "remapped P d va (copied_entry g ?e) f g s t"
    unfolding remapped_def
  proof (intro conjI ballI allI impI)
    show "pte d' v t = (if d' = d \<and> PGROUNDDOWN v = va then copied_entry g ?e else pte d' v s)" if "d' \<in> P" for d' v
      using se(1) [OF that] pf(1) [OF that] PGROUNDDOWN_aligned [OF va(2)] by simp
    show "pt_frames d' t = pt_frames d' s" if "d' \<in> P" for d' using se(3) pf(2) that by simp
    show "pmem t h = pmem s h" if "h \<notin> pt_frames d s" "P2V h \<in> live_pages s" for h
      using se(4) [of h] pf(2) [OF d] that fresh(1) pm3 by auto
    show "pmem t g = pmem s f" using se(4) [of g] pf(4) [OF d] pm3 by simp
    show "live_pages s \<subseteq> live_pages t" "P2V g \<in> live_pages t" "kmem_ok t" "wf_spaces P t"
      using se(2,5,6) fresh(2,3) by auto
  qed (use ok d va here f refs nf fresh(1) copied_entry [OF al, of ?e] in simp_all)
  then have "remapped P d va (copied_entry g ?e) f g s (lcr3 (V2P d) t)" by (simp add: remapped_def)
  with run show ?thesis by blast
qed

lemma cow_single:
  assumes ok: "mem_ok P s" and i: "curp s = Some i" "p_pgdir (procs s ! i) = d" and d: "d \<in> P" and va: "va < KERNBASE" "page_aligned va"
    and here: "present d va s" and f: "f = frame_at d va s" and r: "frefs f s = 1"
  shows "\<exists>t. onPageFaultCow va s = Inr t \<and> remapped P d va (owned_entry (pte d va s)) f f s t"
proof -
  let ?e = "pte d va s" and ?q = "P2V (table d (unat (PDX va)) s) + 4 * PTX va"
  have wf: "wf_spaces P s" using ok by (simp add: mem_ok_def)
  have u: "P2V f \<in> live_pages s" "\<And>d'. d' \<in> P \<Longrightarrow> f \<notin> pt_frames d' s"
    using ok d va here f by (auto simp: mem_ok_def user_frames_ok_def)
  define t where "t = st32 ?q (owned_entry ?e) s"
  note se = store_entry [OF wf d present_table [OF here] t_def]
  have run: "onPageFaultCow va s = Inr (lcr3 (V2P d) t)"
    using cow_walk [OF ok d here] decrement_last [OF u(1) r] f i
    by (simp add: onPageFaultCow_def myproc_def Let_def frame_at_def t_def owned_entry_def)
  have "remapped P d va (owned_entry ?e) f f s t"
    unfolding remapped_def
  proof (intro conjI ballI allI impI)
    show "pte d' v t = (if d' = d \<and> PGROUNDDOWN v = va then owned_entry ?e else pte d' v s)" if "d' \<in> P" for d' v
      using se(1) [OF that] PGROUNDDOWN_aligned [OF va(2)] by simp
    show "owned_entry ?e AND PTE_P \<noteq> 0" using owned_entry(2) here by (simp add: present_def)
    show "PTE_ADDR (owned_entry ?e) = f" using owned_entry(1) f by (simp add: frame_at_def)
  qed (use ok d va here f r u se in \<open>simp_all add: mem_ok_def\<close>)
  then have "remapped P d va (owned_entry ?e) f f s (lcr3 (V2P d) t)" by (simp add: remapped_def)
  with run show ?thesis by blast
qed


text \<open>
  One address space with its directory in frame 400, a page table in frame 401 and page 0 in
  frame 402, shared with somebody else; frames 300 and 301 are free.
\<close>

definition cow_sample :: vstate where
  "cow_sample = (xstate.extend (cstate.extend blank_console
       (xstate.fields [] (\<lambda>_. \<lparr>pp_data = (\<lambda>_. 0), nread = 0, nwrite = 0, readopen = True, writeopen = True\<rparr>)))
     (vstate.fields NONE 0 0 0 (\<lambda>_. 0) (\<lambda>_. 0)))
     \<lparr>freelist := Some 300, occupiedPages := 3,
      runArr := (\<lambda>i. if i = 300 then \<lparr>run_next = Some 301, run_ref = 0\<rparr>
                    else \<lparr>run_next = None, run_ref = (if i = 400 \<or> i = 401 then 1 else if i = 402 then 2 else 0)\<rparr>),
      pmem := (\<lambda>_ _. 0)(0x190000 := wr32 (\<lambda>_. 0) 0 0x191007, 0x191000 := wr32 (\<lambda>_. 0) 0 0x192805, 0x192000 := (\<lambda>_. 65)),
      procs := [proc0\<lparr>p_pgdir := sample_pgdir\<rparr>], curp := Some 0\<rparr>"

lemma cow_sample_fields:
  "freelist cow_sample = Some 300" "occupiedPages cow_sample = 3" "kend cow_sample = 0x80100000"
  "runArr cow_sample = (\<lambda>i. if i = 300 then \<lparr>run_next = Some 301, run_ref = 0\<rparr>
      else \<lparr>run_next = None, run_ref = (if i = 400 \<or> i = 401 then 1 else if i = 402 then 2 else 0)\<rparr>)"
  "pmem cow_sample = (\<lambda>_ _. 0)(0x190000 := wr32 (\<lambda>_. 0) 0 0x191007, 0x191000 := wr32 (\<lambda>_. 0) 0 0x192805, 0x192000 := (\<lambda>_. 65))"
  "procs cow_sample = [proc0\<lparr>p_pgdir := sample_pgdir\<rparr>]" "curp cow_sample = Some 0"
  by (simp_all add: cow_sample_def blank_console_def cstate.defs xstate.defs vstate.defs)

lemma cow_sample_use: "in_use cow_sample = {400, 401, 402}" "kmem_ok cow_sample"
  "live_pages cow_sample = {0x80190000, 0x80191000, 0x80192000}"
proof -
  show use: "in_use cow_sample = {400, 401, 402}" by (auto simp: in_use_def cow_sample_fields split: if_splits)
  have "kmem_inv cow_sample [300, 301]"
    unfolding kmem_inv_def use by (simp add: allocatable_def cow_sample_fields P2V_def)
  then show "kmem_ok cow_sample" unfolding kmem_ok_def by blast
  show "live_pages cow_sample = {0x80190000, 0x80191000, 0x80192000}" by (simp add: live_pages_def use P2V_def)
qed

lemma rd32_first: "rd32 (wr32 (\<lambda>_. 0) 0 w) (4 * i) = (if i = 0 then w else 0)"
  using rd32_wr32_index [of "\<lambda>_. 0" 0 w i] by simp

lemma cow_sample_pt: "has_table sample_pgdir i cow_sample \<longleftrightarrow> i = 0" "table sample_pgdir 0 cow_sample = 0x191000"
    "pte sample_pgdir v cow_sample = (if PGROUNDDOWN v = 0 then 0x192805 else 0)"
proof -
  have p: "pde_at sample_pgdir i cow_sample = (if i = 0 then 0x191007 else 0)" for i
    by (simp add: pde_at_def cow_sample_fields V2P_def rd32_first)
  show h: "has_table sample_pgdir i cow_sample \<longleftrightarrow> i = 0" for i by (simp add: has_table_def p)
  show t: "table sample_pgdir 0 cow_sample = 0x191000" by (simp add: table_def p PTE_ADDR_def)
  have "PGROUNDDOWN v = 0 \<longleftrightarrow> PDX v = 0 \<and> PTX v = 0"
    using same_entry_iff [of v 0] by (auto simp: PGROUNDDOWN_def PDX_def PTX_def)
  then show "pte sample_pgdir v cow_sample = (if PGROUNDDOWN v = 0 then 0x192805 else 0)"
    by (simp add: pte_def h t cow_sample_fields rd32_first unat_eq_zero)
qed

lemma cow_sample_ok: "mem_ok {sample_pgdir} cow_sample" "present sample_pgdir 0 cow_sample" "fst (kalloc cow_sample) \<noteq> 0"
proof -
  have pr: "present sample_pgdir v cow_sample \<longleftrightarrow> PGROUNDDOWN v = 0"
    "PGROUNDDOWN v = 0 \<Longrightarrow> frame_at sample_pgdir v cow_sample = 0x192000" for v
    by (auto simp: present_def frame_at_def cow_sample_pt PTE_ADDR_def)
  have z: "PGROUNDDOWN 0 = 0" by (simp add: PGROUNDDOWN_def)
  then show "present sample_pgdir 0 cow_sample" by (simp add: pr)
  show "fst (kalloc cow_sample) \<noteq> 0" by (simp add: kalloc_def cow_sample_fields P2V_def)
  have fr: "pt_frames sample_pgdir cow_sample = {0x190000, 0x191000}"
    by (auto simp: pt_frames_def cow_sample_pt V2P_def)
  have "wf_pt sample_pgdir cow_sample"
    by (auto simp: wf_pt_def cow_sample_pt cow_sample_use P2V_def V2P_def inj_on_def page_aligned_def take_bit_eq_mod)
  moreover have "user_frames_ok {sample_pgdir} cow_sample"
    by (auto simp: user_frames_ok_def pr fr cow_sample_use P2V_def)
  moreover have "maps {sample_pgdir} f cow_sample = (if f = 0x192000 then {(sample_pgdir, 0)} else {})" for f
    using pr z by (auto simp: maps_def PGROUNDDOWN_aligned page_aligned_def)
  then have "refs_ok {sample_pgdir} cow_sample"
    by (auto simp: refs_ok_def frefs_def run_idx_def P2V_def V2P_def cow_sample_fields unat_div split: if_splits)
  ultimately show "mem_ok {sample_pgdir} cow_sample" by (simp add: mem_ok_def wf_spaces_def cow_sample_use)
qed


end
