(* ===== verification/Teardown.thy ===== *)
theory Teardown
  imports CopyOnWrite
begin

text \<open>
  Shrinking an address space. The loop of \<^verbatim>\<open>deallocuvm\<close> ends, unmaps the pages it is asked to unmap
  and nothing else, and gives a frame back to the allocator exactly when its last mapping goes.
\<close>

section \<open>Dropping a frame\<close>

text \<open>Reference counts that count the mappings.\<close>

definition refs_exact :: "uint set \<Rightarrow> 'a kmem_scheme \<Rightarrow> bool" where
  "refs_exact P s \<longleftrightarrow> (\<forall>f. maps P f s \<noteq> {} \<longrightarrow> frefs f s = int (card (maps P f s)))"

lemma kfree_frame:
  assumes "kfree v k = Inr k'"
  shows "kend k' = kend k" "run_ref (runArr k' j) = (if j = run_idx v then 0 else run_ref (runArr k j))"
  using assms by (auto simp: kfree_def Let_def memset_page_def put_page_def split: if_splits)

lemma more_fields: "kmem.more k' = kmem.more k \<Longrightarrow> curp k' = curp k \<and> procs k' = procs k"
  by (cases k; cases k') simp

lemma drop_frame:
  fixes s :: "'a pstate_scheme"
  assumes ok: "kmem_ok s" and f: "P2V f \<in> live_pages s"
  shows "\<exists>t. drop_page (P2V f) s = Inr t \<and> kmem_ok t \<and> kend t = kend s \<and> curp t = curp s \<and> procs t = procs s \<and>
    live_pages t = (if frefs f s = 1 then live_pages s - {P2V f} else live_pages s) \<and>
    pmem t = (if frefs f s = 1 then (pmem s)(f := (\<lambda>_. 1)) else pmem s) \<and>
    (\<forall>h. P2V h \<in> live_pages s \<longrightarrow> frefs h t = (if h = f then frefs f s - 1 else frefs h s))"
proof -
  note l = live_frame [OF f]
  obtain xs where inv: "kmem_inv s xs" using ok by (auto simp: kmem_ok_def)
  have pos: "0 < frefs f s" using l(1,3) inv unfolding kmem_inv_def in_use_def frefs_def by fastforce
  have inj: "run_idx (P2V h) \<noteq> run_idx (P2V f)" if "P2V h \<in> live_pages s" "h \<noteq> f" for h using live_frame_inj [OF that(1) f] that(2) by blast
  show ?thesis
  proof (cases "frefs f s = 1")
    case True
    obtain t where t: "kfree (P2V f) s = Inr t" "kmem_inv t (run_idx (P2V f) # xs)" "in_use t = in_use s - {run_idx (P2V f)}"
      "kmem.more t = kmem.more s" "pmem t = (pmem s)(f := (\<lambda>_. 1))"
      using kfree_allocated [OF inv l(1)] True unfolding l(2) frefs_def by blast
    have "drop_page (P2V f) s = Inr t" using drop_page_last [of "run_idx (P2V f)" s] l(1) True t(1) unfolding l(2) frefs_def by simp
    moreover have "live_pages t = live_pages s - {P2V f}"
    proof -
      have "inj_on (\<lambda>i. P2V (of_nat i * PGSIZE)) (in_use s)" by (rule inj_onI) (metis (no_types, lifting) frame_inj in_use_def mem_Collect_eq)
      then show ?thesis using l(2,3) unfolding live_pages_def t(3) by (simp add: inj_on_image_set_diff)
    qed
    moreover have "kmem_ok t" using t(2) by (auto simp: kmem_ok_def)
    moreover have "frefs h t = (if h = f then frefs f s - 1 else frefs h s)" if "P2V h \<in> live_pages s" for h
      using kfree_frame(2) [OF t(1)] inj [OF that] True by (auto simp: frefs_def)
    ultimately show ?thesis using True t(5) kfree_frame(1) [OF t(1)] more_fields [OF t(4)] by auto
  next
    case False
    then have r: "1 < frefs f s" using pos by simp
    let ?t = "s\<lparr>runArr := (runArr s)(run_idx (P2V f) := (runArr s (run_idx (P2V f)))\<lparr>run_ref := frefs f s - 1\<rparr>)\<rparr>"
    have "drop_page (P2V f) s = Inr ?t" using drop_page_shared [of "run_idx (P2V f)" s] l(1) r unfolding l(2) frefs_def by simp
    moreover have "kmem_ok ?t" "live_pages ?t = live_pages s" using decrement_shared [OF ok f r] by blast+
    moreover have "frefs h ?t = (if h = f then frefs f s - 1 else frefs h s)" if "P2V h \<in> live_pages s" for h
      using inj [OF that] by (auto simp: frefs_def)
    ultimately show ?thesis using False by simp
  qed
qed

section \<open>Unmapping one page\<close>

lemma PGROUNDDOWN_le: "PGROUNDDOWN v \<le> v"
  by (simp add: word_le_nat_alt unat_PGROUNDDOWN)

lemma maps_unmap:
  assumes "\<And>d' v. d' \<in> P \<Longrightarrow> pte d' v t = (if d' = d \<and> PGROUNDDOWN v = va then 0 else pte d' v s)"
  shows "maps P h t = maps P h s - {(d, va)}"
proof -
  have "present d' v t = (\<not> (d' = d \<and> v = va) \<and> present d' v s)"
    "\<not> (d' = d \<and> v = va) \<Longrightarrow> frame_at d' v t = frame_at d' v s" if "d' \<in> P" "page_aligned v" for d' v
    using assms [OF that(1), of v] PGROUNDDOWN_aligned [OF that(2)] by (auto simp: present_def frame_at_def)
  then have "(d', v) \<in> maps P h t \<longleftrightarrow> (d', v) \<in> maps P h s - {(d, va)}" for d' v by (auto simp: maps_def)
  then show ?thesis by auto
qed

text \<open>
  What a stretch of unmapping in \<open>d\<close> leaves: the pages of \<open>d\<close> for which \<open>R\<close> holds are gone, nothing else
  changed, and the frames without a mapping left are free.
\<close>

definition unmapped :: "uint set \<Rightarrow> uint \<Rightarrow> (uint \<Rightarrow> bool) \<Rightarrow> 'a pstate_scheme \<Rightarrow> 'a pstate_scheme \<Rightarrow> bool" where
  "unmapped P d R s t \<longleftrightarrow>
     mem_ok P t \<and> refs_exact P t \<and> kend t = kend s \<and> curp t = curp s \<and> live_pages t \<subseteq> live_pages s \<and>
     (\<forall>d'\<in>P. \<forall>v. \<not> (d' = d \<and> R (PGROUNDDOWN v)) \<longrightarrow> pte d' v t = pte d' v s) \<and>
     (\<forall>v. R (PGROUNDDOWN v) \<longrightarrow> \<not> present d v t) \<and>
     (\<forall>d'\<in>P. \<forall>v<KERNBASE. present d' v t \<longrightarrow> uread d' v t = uread d' v s) \<and>
     (\<forall>f. maps P f s \<noteq> {} \<and> maps P f t = {} \<longrightarrow> P2V f \<notin> live_pages t)"

lemma unmapped_present:
  assumes "unmapped P d R s t" "d' \<in> P" "present d' v t"
  shows "present d' v s"
  using assms unfolding unmapped_def present_def by metis

lemma unmapped_refl: "mem_ok P s \<Longrightarrow> refs_exact P s \<Longrightarrow> (\<And>v. R (PGROUNDDOWN v) \<Longrightarrow> \<not> present d v s) \<Longrightarrow> unmapped P d R s s"
  by (auto simp: unmapped_def)

lemma unmapped_trans:
  assumes st: "unmapped P d R s t" and tu: "unmapped P d R' t u" and R: "\<And>v. page_aligned v \<Longrightarrow> Q v \<longleftrightarrow> R v \<or> R' v" and d: "d \<in> P"
  shows "unmapped P d Q s u"
proof -
  have "\<not> present d v u" if "Q (PGROUNDDOWN v)" for v
  proof (cases "R' (PGROUNDDOWN v)")
    case False
    then have "\<not> present d v t" using that st R by (auto simp: unmapped_def)
    then show ?thesis using unmapped_present [OF tu d] by blast
  qed (use tu in \<open>auto simp: unmapped_def\<close>)
  moreover have "uread d' v u = uread d' v s" if "d' \<in> P" "v < KERNBASE" "present d' v u" for d' v
    using st tu that unmapped_present [OF tu that(1,3)] by (simp add: unmapped_def)
  moreover have "P2V f \<notin> live_pages u" if "maps P f s \<noteq> {}" "maps P f u = {}" for f
    using st tu that unfolding unmapped_def by blast
  moreover have "pte d' v u = pte d' v s" if "d' \<in> P" "\<not> (d' = d \<and> Q (PGROUNDDOWN v))" for d' v
    using st tu that R [of "PGROUNDDOWN v"] by (auto simp: unmapped_def)
  ultimately show ?thesis using st tu unfolding unmapped_def by auto
qed

text \<open>A user frame changes hands.\<close>

lemma drop_spaces:
  assumes wf: "wf_spaces P s" and f: "\<forall>d\<in>P. f \<notin> pt_frames d s" and live: "live_pages s - {P2V f} \<subseteq> live_pages t"
    and pm: "\<forall>h. h \<noteq> f \<longrightarrow> pmem t h = pmem s h"
  shows "d \<in> P \<Longrightarrow> pte d v t = pte d v s" "d \<in> P \<Longrightarrow> pt_frames d t = pt_frames d s" "wf_spaces P t"
    "d \<in> P \<Longrightarrow> has_table d k t = has_table d k s" "d \<in> P \<Longrightarrow> table d k t = table d k s"
proof -
  have same: "\<And>h. h \<in> pt_frames d s \<Longrightarrow> pmem t h = pmem s h" if "d \<in> P" for d using f that pm by metis
  show eq: "pte d v t = pte d v s" "has_table d k t = has_table d k s" "table d k t = table d k s" "pt_frames d t = pt_frames d s"
    if "d \<in> P" for d v k by (rule pt_frame; rule same [OF that]; assumption)+
  have "wf_pt d t" if "d \<in> P" for d
  proof -
    have "P2V h \<in> live_pages t" if "h \<in> pt_frames d s" for h
      using frames_live [of d s h] that wf \<open>d \<in> P\<close> f live by (auto simp: wf_spaces_def)
    from this [of "V2P d"] this show ?thesis using wf that eq(2,3) [OF that] by (auto simp: wf_spaces_def wf_pt_def pt_frames_def)
  qed
  then show "wf_spaces P t" using wf eq(4) by (simp add: wf_spaces_def)
qed

lemma unmap_page:
  assumes ok: "mem_ok P s" and ex: "refs_exact P s" and d: "d \<in> P" and va: "va < KERNBASE" "page_aligned va" and here: "present d va s"
    and f: "f = frame_at d va s" and km: "kmem_ok t" and wf: "wf_spaces P t"
    and pt: "\<And>d' v. d' \<in> P \<Longrightarrow> pte d' v t = (if d' = d \<and> PGROUNDDOWN v = va then 0 else pte d' v s)"
    and fr: "\<And>d'. d' \<in> P \<Longrightarrow> pt_frames d' t = pt_frames d' s"
    and live: "live_pages t = (if frefs f s = 1 then live_pages s - {P2V f} else live_pages s)"
    and pm: "\<And>h. h \<notin> pt_frames d s \<Longrightarrow> frefs f s \<noteq> 1 \<or> h \<noteq> f \<Longrightarrow> pmem t h = pmem s h"
    and refs: "\<And>h. P2V h \<in> live_pages s \<Longrightarrow> frefs h t = (if h = f then frefs f s - 1 else frefs h s)"
    and same: "kend t = kend s" "curp t = curp s"
  shows "unmapped P d (\<lambda>v. v = va) s t"
proof -
  have uf: "user_frames_ok P s" and fin: "finite (maps P h s)" for h using ok finite_maps by (auto simp: mem_ok_def)
  have m: "maps P h t = maps P h s - {(d, va)}" for h by (rule maps_unmap) (rule pt)
  have mf: "(d, va) \<in> maps P f s" using d va here f by (simp add: maps_def)
  have mh: "(d, va) \<notin> maps P h s" if "h \<noteq> f" for h using that f by (simp add: maps_def)
  have cf: "frefs f s = int (card (maps P f t)) + 1"
    using ex mf card_Diff_singleton [OF mf] fin card_gt_0_iff [of "maps P f s"] by (auto simp: refs_exact_def m of_nat_diff)
  have gone: "maps P f t = {}" if "frefs f s = 1" using that cf fin by (simp add: m)
  have old: "present d' v s \<and> frame_at d' v t = frame_at d' v s" if "d' \<in> P" "present d' v t" for d' v
    using that pt [OF that(1), of v] by (auto simp: present_def frame_at_def split: if_splits)
  have at: "(d', PGROUNDDOWN v) \<in> maps P (frame_at d' v t) t" if "d' \<in> P" "v < KERNBASE" "present d' v t" for d' v
    using that present_page [of v "PGROUNDDOWN v" d' t] PGROUNDDOWN_le [of v] by (auto simp: maps_def PGROUNDDOWN_aligned)
  have nf: "frefs f s \<noteq> 1 \<or> frame_at d' v t \<noteq> f" if "d' \<in> P" "v < KERNBASE" "present d' v t" for d' v
    using at [OF that] gone by auto
  have "user_frames_ok P t"
    using old nf uf live fr unfolding user_frames_ok_def by auto
  moreover have ex': "refs_exact P t"
    unfolding refs_exact_def
  proof (intro allI impI)
    fix h assume ne: "maps P h t \<noteq> {}"
    then have l: "P2V h \<in> live_pages s" using maps_live [OF uf, of h] m by blast
    show "frefs h t = int (card (maps P h t))"
      using refs [OF l] cf mh [of h] ex ne by (cases "h = f") (auto simp: m refs_exact_def)
  qed
  moreover have "refs_ok P t" using ex' by (simp add: refs_ok_def refs_exact_def)
  ultimately have "mem_ok P t" using ok km wf by (simp add: mem_ok_def)
  moreover have "uread d' v t = uread d' v s" if "d' \<in> P" "v < KERNBASE" "present d' v t" for d' v
  proof -
    have "frame_at d' v s \<notin> pt_frames d s" using old [OF that(1,3)] that uf d by (auto simp: user_frames_ok_def)
    then show ?thesis using pm nf [OF that] old [OF that(1,3)] by (simp add: uread_def)
  qed
  moreover have "P2V h \<notin> live_pages t" if "maps P h s \<noteq> {}" "maps P h t = {}" for h
  proof -
    have "h = f" using that mh [of h] by (cases "h = f") (auto simp: m)
    then show ?thesis using that(2) cf live by simp
  qed
  moreover have "\<not> present d v t" if "PGROUNDDOWN v = va" for v using that pt [OF d] by (simp add: present_def)
  ultimately show ?thesis using ex' same live pt by (auto simp: unmapped_def)
qed

lemma dealloc_present:
  assumes ok: "mem_ok P s" and ex: "refs_exact P s" and i: "curp s = Some i" and d: "d \<in> P" and va: "va < KERNBASE" "page_aligned va"
    and here: "present d va s" and kend: "KERNBASE < kend s" and q: "fst (walkpgdir d va False s) = Some q"
  shows "\<exists>t. dealloc_page d va q s = Inr t \<and> unmapped P d (\<lambda>v. v = va) s t"
proof -
  let ?q = "P2V (table d (unat (PDX va)) s) + 4 * PTX va"
  define f where "f = frame_at d va s"
  have km: "kmem_ok s" and wf: "wf_spaces P s" and uf: "user_frames_ok P s" using ok by (simp_all add: mem_ok_def)
  have u: "P2V f \<in> live_pages s" "\<forall>d'\<in>P. f \<notin> pt_frames d' s"
    using uf d va here f_def by (auto simp: user_frames_ok_def)
  have q: "q = ?q" "ld32 ?q s = pte d va s" using cow_walk [OF ok d here] q by simp_all
  obtain s1 where s1: "drop_page (P2V f) s = Inr s1" "kmem_ok s1" "kend s1 = kend s" "curp s1 = curp s" "procs s1 = procs s"
    "live_pages s1 = (if frefs f s = 1 then live_pages s - {P2V f} else live_pages s)"
    "pmem s1 = (if frefs f s = 1 then (pmem s)(f := (\<lambda>_. 1)) else pmem s)"
    "\<And>h. P2V h \<in> live_pages s \<Longrightarrow> frefs h s1 = (if h = f then frefs f s - 1 else frefs h s)"
    using drop_frame [OF km u(1)] by blast
  define p where "p = (let p = procs s ! i in if p_pid p > 2 then forget_swap d va (forget_ram d va p) else p)"
  define s2 where "s2 = upd_proc i (\<lambda>_. p) s1"
  define t where "t = st32 ?q 0 s2"
  have s2: "pmem s2 = pmem s1" "live_pages s2 = live_pages s1" "kmem_ok s2 = kmem_ok s1" "frefs h s2 = frefs h s1" "kend s2 = kend s1" "curp s2 = curp s1" for h
    by (simp_all add: s2_def upd_proc_def live_pages_def in_use_def kmem_ok_def kmem_inv_def allocatable_def frefs_def)
  have f0: "f \<noteq> 0"
  proof
    assume "f = 0"
    moreover have "allocatable s (run_idx (P2V f))" using live_frame(3) [OF u(1)] km by (auto simp: kmem_ok_def kmem_inv_def)
    ultimately show False using kend live_frame(2) [OF u(1)] by (auto simp: allocatable_def P2V_def not_le [symmetric])
  qed
  have run: "dealloc_page d va q s = Inr t"
    using q here f0 s1(1,4,5) i
    by (simp add: dealloc_page_def Let_def f_def frame_at_def present_def on_cur_def myproc_def p_def s2_def t_def)
  have sub: "live_pages s - {P2V f} \<subseteq> live_pages s2" using s1(6) s2(2) by auto
  have off: "\<forall>h. h \<noteq> f \<longrightarrow> pmem s2 h = pmem s h" by (simp add: s2(1) s1(7))
  note ds = drop_spaces [OF wf u(2) sub off]
  have q3: "?q = P2V (table d (unat (PDX va)) s2) + 4 * PTX va" "has_table d (unat (PDX va)) s2"
    using ds(4,5) [OF d] present_table [OF here] by simp_all
  note se = store_entry [OF ds(3) d q3(2) t_def [unfolded q3(1)]]
  have "unmapped P d (\<lambda>v. v = va) s t"
  proof (rule unmap_page [OF ok ex d va here f_def])
    show "pte d' v t = (if d' = d \<and> PGROUNDDOWN v = va then 0 else pte d' v s)" if "d' \<in> P" for d' v
      using se(1) [OF that] ds(1) [OF that] PGROUNDDOWN_aligned [OF va(2)] by simp
    show "pmem t h = pmem s h" if "h \<notin> pt_frames d s" "frefs f s \<noteq> 1 \<or> h \<noteq> f" for h
      using se(4) [of h] ds(2) [OF d] that by (auto simp: s2(1) s1(7))
    show "kend t = kend s" "curp t = curp s" by (simp_all add: t_def st32_def put_page_def s2(5,6) s1(3,4))
  qed (use se(2,3,5,6,7) ds(2) s1(2,6,8) s2(2,3,4) in simp_all)
  with run show ?thesis by blast
qed

section \<open>The loop\<close>

lemma unat_PDX_div: "unat (PDX a) = unat a div 4194304"
proof -
  have "drop_bit 22 a = PDX a" by (rule bit_word_eqI) (auto simp: bit_PDX bit_simps dest: bit_imp_le_length)
  then show ?thesis by (simp add: drop_bit_eq_div unat_div flip: \<open>drop_bit 22 a = PDX a\<close>)
qed

lemma next_table:
  assumes "a < KERNBASE"
  shows "a < PGADDR (PDX a + 1) 0 0" "page_aligned (PGADDR (PDX a + 1) 0 0)"
    "a \<le> v \<Longrightarrow> v < PGADDR (PDX a + 1) 0 0 \<Longrightarrow> PDX v = PDX a"
proof -
  have lt: "unat a < 0x80000000" using assms by (simp add: word_less_nat_alt)
  have p: "unat (PDX a + 1) = unat a div 4194304 + 1" using lt unat_PDX_div [of a] by (simp add: unat_word_ariths)
  have "PGADDR (PDX a + 1) 0 0 = (PDX a + 1) * 4194304" by (simp add: PGADDR_def push_bit_eq_mult)
  moreover have "unat (x * 4194304) = unat x * 4194304 mod 4294967296" for x :: uint by (simp add: unat_word_ariths)
  moreover have "(unat a div 4194304 + 1) * 4194304 < 4294967296" using lt by simp
  ultimately have u: "unat (PGADDR (PDX a + 1) 0 0) = (unat a div 4194304 + 1) * 4194304"
    using p by (metis mod_less)
  then show "a < PGADDR (PDX a + 1) 0 0" by (simp add: word_less_nat_alt)
  show "page_aligned (PGADDR (PDX a + 1) 0 0)" by (simp add: page_aligned_bit bit_PGADDR)
  show "PDX v = PDX a" if "a \<le> v" "v < PGADDR (PDX a + 1) 0 0"
  proof -
    have v: "unat a \<le> unat v" "unat v < (unat a div 4194304 + 1) * 4194304" using that u by (simp_all add: word_le_nat_alt word_less_nat_alt)
    then have "unat v div 4194304 < unat a div 4194304 + 1" by (simp only: less_mult_imp_div_less)
    moreover have "unat a div 4194304 \<le> unat v div 4194304" using v(1) by (rule div_le_mono)
    ultimately show ?thesis using unat_PDX_div [of v] unat_PDX_div [of a] by (metis le_antisym less_Suc_eq_le Suc_eq_plus1 unsigned_word_eqI)
  qed
qed

lemma next_page:
  assumes "a < KERNBASE" "page_aligned a" "page_aligned v"
  shows "a < a + PGSIZE" "page_aligned (a + PGSIZE)" "a \<le> v \<longleftrightarrow> v = a \<or> a + PGSIZE \<le> v" "a + PGSIZE \<le> w \<Longrightarrow> PGROUNDDOWN w \<noteq> a"
proof -
  have lt: "unat a < 0x80000000" using assms(1) by (simp add: word_less_nat_alt)
  have u: "unat (a + PGSIZE) = unat a + 4096" using lt by (simp add: unat_word_ariths)
  then show "a < a + PGSIZE" by (simp add: word_less_nat_alt)
  show "page_aligned (a + PGSIZE)" by (rule page_aligned_add [OF assms(2)]) (simp add: page_aligned_def)
  have "unat v < unat a + 4096 \<longleftrightarrow> v \<le> a" by (rule page_below [OF assms(2,3)])
  then show "a \<le> v \<longleftrightarrow> v = a \<or> a + PGSIZE \<le> v" using u by (auto simp: word_le_nat_alt word_less_nat_alt word_unat_eq_iff)
  show "PGROUNDDOWN w \<noteq> a" if "a + PGSIZE \<le> w"
  proof
    assume "PGROUNDDOWN w = a"
    then have "unat a = unat w div 4096 * 4096" using unat_PGROUNDDOWN [of w] by simp
    moreover have "unat a + 4096 \<le> unat w" using that u by (simp add: word_le_nat_alt)
    moreover have "unat w = unat w div 4096 * 4096 + unat w mod 4096" "unat w mod 4096 < 4096" by simp_all
    ultimately show False by linarith
  qed
qed

declare deallocuvm_loop.simps [simp del]

text \<open>No page of the range is in the swap file.\<close>

definition none_swapped :: "uint \<Rightarrow> uint \<Rightarrow> uint \<Rightarrow> 'a kmem_scheme \<Rightarrow> bool" where
  "none_swapped d lo hi s \<longleftrightarrow> (\<forall>v. lo \<le> v \<and> v < hi \<longrightarrow> pte d v s AND PTE_PG = 0)"

lemma dealloc_absent:
  "ld32 q s = e \<Longrightarrow> e AND PTE_P = 0 \<Longrightarrow> e AND PTE_PG = 0 \<Longrightarrow> dealloc_page d a q s = Inr s"
  by (simp add: dealloc_page_def)

lemma skip_table:
  assumes "mem_ok P s" "refs_exact P s" "a < KERNBASE" "\<not> has_table d (unat (PDX a)) s"
  shows "unmapped P d (\<lambda>v. a \<le> v \<and> v < PGADDR (PDX a + 1) 0 0) s s"
proof (rule unmapped_refl [OF assms(1,2)])
  fix v assume "a \<le> PGROUNDDOWN v \<and> PGROUNDDOWN v < PGADDR (PDX a + 1) 0 0"
  then have "PDX (PGROUNDDOWN v) = PDX a" using next_table(3) [OF assms(3)] by blast
  then have "\<not> present d (PGROUNDDOWN v) s" using assms(4) present_table [of d "PGROUNDDOWN v" s] by auto
  then show "\<not> present d v s" using present_page [of v "PGROUNDDOWN v" d s] by (simp add: PGROUNDDOWN_aligned)
qed

lemma dealloc_step:
  assumes ok: "mem_ok P s" "refs_exact P s" "curp s = Some i" "d \<in> P" "a < KERNBASE" "page_aligned a" "KERNBASE < kend s"
    and sw: "none_swapped d a hi s" "a < hi" and w: "fst (walkpgdir d a False s) = Some q" and q: "ld32 q s = pte d a s"
  shows "\<exists>t. dealloc_page d a q s = Inr t \<and> unmapped P d (\<lambda>v. v = a) s t \<and> none_swapped d (a + PGSIZE) hi t"
proof -
  have "\<exists>t. dealloc_page d a q s = Inr t \<and> unmapped P d (\<lambda>v. v = a) s t"
  proof (cases "present d a s")
    case True
    show ?thesis by (rule dealloc_present [OF ok(1-6) True ok(7) w])
  next
    case False
    then have "\<not> present d v s" if "PGROUNDDOWN v = a" for v
      using that present_page [of v a d s] PGROUNDDOWN_aligned [OF ok(6)] by simp
    then have "unmapped P d (\<lambda>v. v = a) s s" by (rule unmapped_refl [OF ok(1,2)])
    moreover have "dealloc_page d a q s = Inr s" using False sw dealloc_absent [OF q] by (simp add: present_def none_swapped_def)
    ultimately show ?thesis by blast
  qed
  then obtain t where t: "dealloc_page d a q s = Inr t" "unmapped P d (\<lambda>v. v = a) s t" by blast
  note np = next_page [OF ok(5,6,6)]
  have "pte d v t AND PTE_PG = 0" if v: "a + PGSIZE \<le> v" "v < hi" for v
  proof -
    have "PGROUNDDOWN v \<noteq> a" using np(4) v(1) by blast
    then have "pte d v t = pte d v s" using t(2) ok(4) by (simp add: unmapped_def)
    moreover have "a \<le> v" using v np(1) by (meson less_imp_le order_trans)
    ultimately show ?thesis using sw(1) v(2) by (simp add: none_swapped_def)
  qed
  with t show ?thesis by (auto simp: none_swapped_def)
qed

lemma deallocuvm_loop_spec:
  assumes "mem_ok P s" "refs_exact P s" "curp s = Some i" "d \<in> P" "KERNBASE < kend s" "oldsz \<le> KERNBASE" "page_aligned a" "none_swapped d a oldsz s"
  shows "\<exists>t. deallocuvm_loop d oldsz a s = Inr t \<and> unmapped P d (\<lambda>v. a \<le> v \<and> v < oldsz) s t"
  using assms
proof (induction d oldsz a s rule: deallocuvm_loop.induct)
  case (1 d oldsz a s)
  note pr = "1.prems"
  have wf: "wf_pt d s" using pr(1,4) by (simp add: mem_ok_def wf_spaces_def)
  consider "\<not> a < oldsz" | (skip) "a < oldsz" "\<not> has_table d (unat (PDX a)) s" | (page) "a < oldsz" "has_table d (unat (PDX a)) s" by blast
  then show ?case
  proof cases
    case 1
    then have "unmapped P d (\<lambda>v. a \<le> v \<and> v < oldsz) s s" using pr(1,2) by (intro unmapped_refl) auto
    then show ?thesis using 1 by (subst deallocuvm_loop.simps) simp
  next
    case skip
    let ?a = "PGADDR (PDX a + 1) 0 0"
    have a: "a < KERNBASE" using skip(1) pr(6) by simp
    note nt = next_table [OF a]
    have w: "fst (walkpgdir d a False s) = None" by (simp add: walk_missing [OF wf skip(2)])
    have sw: "none_swapped d ?a oldsz s" using pr(8) nt(1) by (auto simp: none_swapped_def)
    obtain t where t: "deallocuvm_loop d oldsz ?a s = Inr t" "unmapped P d (\<lambda>v. ?a \<le> v \<and> v < oldsz) s t"
      using "1.IH"(1) [OF skip(1) w refl _ pr(1-6) nt(2) sw] nt(1) by (auto simp: not_le)
    have "unmapped P d (\<lambda>v. a \<le> v \<and> v < ?a \<and> v < oldsz) s s"
      using skip_table [OF pr(1,2) a skip(2)] pr(1,2) by (intro unmapped_refl) (auto simp: unmapped_def)
    then have "unmapped P d (\<lambda>v. a \<le> v \<and> v < oldsz) s t"
      by (rule unmapped_trans [OF _ t(2) _ pr(4)]) (use nt(1) in auto)
    then show ?thesis using skip(1) w t(1) nt(1) by (subst deallocuvm_loop.simps) (simp add: not_le [symmetric])
  next
    case page
    have a: "a < KERNBASE" using page(1) pr(6) by simp
    note np = next_page [OF a pr(7)]
    obtain q where w: "fst (walkpgdir d a False s) = Some q" and q: "ld32 q s = pte d a s"
      using walk_found [OF wf page(2)] entry_pte [OF page(2)] by simp
    obtain s1 where s1: "dealloc_page d a q s = Inr s1" "unmapped P d (\<lambda>v. v = a) s s1" "none_swapped d (a + PGSIZE) oldsz s1"
      using dealloc_step [OF pr(1-4) a pr(7,5,8) page(1) w q] by blast
    have nx: "\<not> a + PGSIZE \<le> a" "page_aligned (a + PGSIZE)" using np(1,2) [OF pr(7)] by (simp_all add: not_le)
    have m1: "mem_ok P s1" "refs_exact P s1" "curp s1 = Some i" "KERNBASE < kend s1" using s1(2) pr(3,5) by (simp_all add: unmapped_def)
    obtain t where t: "deallocuvm_loop d oldsz (a + PGSIZE) s1 = Inr t" "unmapped P d (\<lambda>v. a + PGSIZE \<le> v \<and> v < oldsz) s1 t"
      using "1.IH"(2) [OF page(1) w s1(1) nx(1) m1(1-3) pr(4) m1(4) pr(6) nx(2) s1(3)] by blast
    have "unmapped P d (\<lambda>v. a \<le> v \<and> v < oldsz) s t"
      by (rule unmapped_trans [OF s1(2) t(2) _ pr(4)]) (use np(3) page(1) in auto)
    then show ?thesis using page(1) w s1(1) nx(1) t(1) by (subst deallocuvm_loop.simps) simp
  qed
qed


text \<open>One page at address 0, with one reference.\<close>

definition teardown_sample :: vstate where
  "teardown_sample = cow_sample\<lparr>runArr := (runArr cow_sample)(402 := \<lparr>run_next = None, run_ref = 1\<rparr>)\<rparr>"

lemma sample_maps: "maps {sample_pgdir} f cow_sample = (if f = 0x192000 then {(sample_pgdir, 0)} else {})"
proof -
  have "present sample_pgdir v cow_sample \<longleftrightarrow> PGROUNDDOWN v = 0"
    "PGROUNDDOWN v = 0 \<Longrightarrow> frame_at sample_pgdir v cow_sample = 0x192000" for v
    by (auto simp: present_def frame_at_def cow_sample_pt PTE_ADDR_def)
  moreover have "PGROUNDDOWN 0 = 0" by (simp add: PGROUNDDOWN_def)
  ultimately show ?thesis by (auto simp: maps_def PGROUNDDOWN_aligned page_aligned_def)
qed

lemma teardown_sample_ok: "mem_ok {sample_pgdir} teardown_sample" "refs_exact {sample_pgdir} teardown_sample"
  "curp teardown_sample = Some 0" "kend teardown_sample = 0x80100000"
  "pte sample_pgdir v teardown_sample = (if PGROUNDDOWN v = 0 then 0x192805 else 0)"
proof -
  have pm: "pmem teardown_sample = pmem cow_sample" by (simp add: teardown_sample_def)
  show "curp teardown_sample = Some 0" "kend teardown_sample = 0x80100000" by (simp_all add: teardown_sample_def cow_sample_fields)
  note c = pt_cong [OF pm]
  show "pte sample_pgdir v teardown_sample = (if PGROUNDDOWN v = 0 then 0x192805 else 0)" by (simp add: c cow_sample_pt)
  have use: "in_use teardown_sample = {400, 401, 402}"
    by (auto simp: teardown_sample_def in_use_def cow_sample_fields split: if_splits)
  then have live: "live_pages teardown_sample = live_pages cow_sample" by (simp add: live_pages_def cow_sample_use)
  have k: "kmem_ok teardown_sample"
  proof -
    have "kmem_inv teardown_sample [300, 301]"
      unfolding kmem_inv_def use by (simp add: allocatable_def teardown_sample_def cow_sample_fields P2V_def)
    then show ?thesis unfolding kmem_ok_def by blast
  qed
  have m: "maps {sample_pgdir} f teardown_sample = (if f = 0x192000 then {(sample_pgdir, 0)} else {})" for f
    by (simp add: c sample_maps)
  have r: "frefs 0x192000 teardown_sample = 1" by (simp add: frefs_def run_idx_def P2V_def V2P_def unat_div teardown_sample_def)
  show ex: "refs_exact {sample_pgdir} teardown_sample" by (auto simp: refs_exact_def m r)
  then have "refs_ok {sample_pgdir} teardown_sample" by (simp add: refs_ok_def refs_exact_def)
  moreover have "wf_spaces {sample_pgdir} teardown_sample" "user_frames_ok {sample_pgdir} teardown_sample"
    using cow_sample_ok(1) by (simp_all add: mem_ok_def wf_spaces_def wf_pt_def user_frames_ok_def c live)
  ultimately show "mem_ok {sample_pgdir} teardown_sample" using k by (simp add: mem_ok_def)
qed


end
