(* ===== verification/CowFork.thy ===== *)
theory CowFork
  imports Teardown
begin

text \<open>
  Copy-on-write \<^verbatim>\<open>fork\<close>. The loop of \<^verbatim>\<open>cowuvm\<close> gives the child the same frames as the parent, read-only
  on both sides, and counts the new mappings; nobody reads other bytes than before.
\<close>

section \<open>Sharing one page\<close>

definition shared_entry :: "uint \<Rightarrow> uint" where
  "shared_entry e = (e AND NOT PTE_W) OR PTE_COW"

lemma shared_entry:
  shows "PTE_ADDR (shared_entry e) = PTE_ADDR e" "e AND PTE_P \<noteq> 0 \<Longrightarrow> shared_entry e AND PTE_P \<noteq> 0"
    "shared_entry e AND PTE_W = 0" "shared_entry e AND PTE_COW \<noteq> 0"
proof -
  have b: "bit (shared_entry e) n \<longleftrightarrow> bit e n \<and> n \<noteq> 1 \<or> n = 11" if "n < 32" for n
    using that unfolding shared_entry_def bit_and_iff bit_or_iff bit_not_iff bit_PTE by auto
  show "PTE_ADDR (shared_entry e) = PTE_ADDR e"
    by (rule bit_word_eqI) (use b in \<open>auto simp: bit_PTE_ADDR\<close>)
  show "e AND PTE_P \<noteq> 0 \<Longrightarrow> shared_entry e AND PTE_P \<noteq> 0" "shared_entry e AND PTE_W = 0" "shared_entry e AND PTE_COW \<noteq> 0"
    by (simp_all add: pte_bits b)
qed

lemma rejoin_entry: "e AND PTE_P \<noteq> 0 \<Longrightarrow> PTE_ADDR e OR PTE_FLAGS e OR PTE_P = e"
proof -
  assume "e AND PTE_P \<noteq> 0"
  then have "e OR PTE_P = e" unfolding pte_bits by (intro bit_word_eqI) (auto simp: bit_or_iff bit_PTE)
  then show ?thesis by (simp add: PTE_ADDR_or_FLAGS or.assoc [symmetric])
qed

text \<open>The state after the page \<open>va\<close> of \<open>d\<close> was mapped, with the entry \<open>e\<close>, in \<open>c\<close> as well.\<close>

definition joined :: "uint set \<Rightarrow> uint \<Rightarrow> uint \<Rightarrow> uint \<Rightarrow> uint \<Rightarrow> 'a kmem_scheme \<Rightarrow> 'a kmem_scheme \<Rightarrow> bool" where
  "joined P d c va e s t \<longleftrightarrow>
     (\<forall>d'\<in>P. \<forall>v. pte d' v t = (if PGROUNDDOWN v = va \<and> (d' = d \<or> d' = c) then e else pte d' v s)) \<and>
     wf_spaces P t \<and> kmem_ok t \<and> live_pages s \<subseteq> live_pages t \<and>
     (\<forall>d'\<in>P. \<forall>g\<in>pt_frames d' t. g \<in> pt_frames d' s \<or> P2V g \<notin> live_pages s) \<and>
     (\<forall>h. P2V h \<in> live_pages s \<and> h \<notin> pt_frames d s \<and> h \<notin> pt_frames c s \<longrightarrow> pmem t h = pmem s h) \<and>
     (\<forall>h. P2V h \<in> live_pages s \<longrightarrow> frefs h t = frefs h s + (if h = frame_at d va s then 1 else 0))"

lemma joined_ok:
  assumes ok: "mem_ok P s" and ex: "refs_exact P s" and P: "d \<in> P" "c \<in> P" and va: "va < KERNBASE" "page_aligned va"
    and here: "present d va s" "\<not> present c va s" and e: "e AND PTE_P \<noteq> 0" "PTE_ADDR e = frame_at d va s" and j: "joined P d c va e s t"
  shows "mem_ok P t" "refs_exact P t" "\<And>d' v. d' \<in> P \<Longrightarrow> v < KERNBASE \<Longrightarrow> present d' v s \<Longrightarrow> present d' v t \<and> uread d' v t = uread d' v s"
proof -
  let ?f = "frame_at d va s"
  have uf: "user_frames_ok P s" and fin: "finite (maps P h s)" for h using ok finite_maps by (auto simp: mem_ok_def)
  have pt: "pte d' v t = (if PGROUNDDOWN v = va \<and> (d' = d \<or> d' = c) then e else pte d' v s)" if "d' \<in> P" for d' v
    using j that by (simp add: joined_def)
  have dv: "frame_at d v s = ?f" "present d v s" if "PGROUNDDOWN v = va" for v
    using that present_page [of v va d s] here PGROUNDDOWN_aligned [OF va(2)] by auto
  have pr: "present d' v t \<longleftrightarrow> present d' v s \<or> PGROUNDDOWN v = va \<and> d' = c"
    "present d' v t \<Longrightarrow> frame_at d' v t = (if PGROUNDDOWN v = va \<and> d' = c then ?f else frame_at d' v s)" if "d' \<in> P" for d' v
    using pt [OF that, of v] dv [of v] e by (auto simp: present_def frame_at_def split: if_splits)
  have m: "maps P h t = maps P h s \<union> (if h = ?f then {(c, va)} else {})" for h
  proof -
    have "\<not> present c va s" by (rule here(2))
    then have "(d', v) \<in> maps P h t \<longleftrightarrow> (d', v) \<in> maps P h s \<union> (if h = ?f then {(c, va)} else {})" for d' v
      using pr [of d' v] PGROUNDDOWN_aligned [of v] P(2) va by (auto simp: maps_def PGROUNDDOWN_aligned split: if_splits)
    then show ?thesis by auto
  qed
  have fl: "P2V ?f \<in> live_pages s" using uf P(1) va(1) here(1) by (simp add: user_frames_ok_def)
  have nfr: "g \<notin> pt_frames d' t" if "P2V g \<in> live_pages s" "\<forall>d'\<in>P. g \<notin> pt_frames d' s" "d' \<in> P" for g d'
    using j that unfolding joined_def by blast
  have own: "P2V ?f \<in> live_pages s \<and> (\<forall>d'\<in>P. ?f \<notin> pt_frames d' s)" using uf P(1) va(1) here(1) by (simp add: user_frames_ok_def)
  have "user_frames_ok P t"
    unfolding user_frames_ok_def
  proof (intro ballI allI impI)
    fix d' v assume h: "d' \<in> P" "v < KERNBASE" "present d' v t"
    have "P2V (frame_at d' v t) \<in> live_pages s \<and> (\<forall>d''\<in>P. frame_at d' v t \<notin> pt_frames d'' s)"
      using pr [OF h(1), of v] own uf h by (auto simp: user_frames_ok_def)
    then show "P2V (frame_at d' v t) \<in> live_pages t \<and> (\<forall>d''\<in>P. frame_at d' v t \<notin> pt_frames d'' t)"
      using nfr j by (auto simp: joined_def)
  qed
  moreover show ex': "refs_exact P t"
    unfolding refs_exact_def
  proof (intro allI impI)
    fix h assume ne: "maps P h t \<noteq> {}"
    have l: "P2V h \<in> live_pages s" using ne maps_live [OF uf, of h] fl by (auto simp: m split: if_splits)
    have "(d, va) \<in> maps P ?f s" "(c, va) \<notin> maps P ?f s" using P va here by (simp_all add: maps_def)
    moreover have "frefs h t = frefs h s + (if h = ?f then 1 else 0)" using j l by (simp add: joined_def)
    ultimately show "frefs h t = int (card (maps P h t))"
      using ex ne fin by (cases "h = ?f") (auto simp: m refs_exact_def)
  qed
  moreover have "refs_ok P t" using ex' by (simp add: refs_ok_def refs_exact_def)
  ultimately show "mem_ok P t" using ok j by (simp add: mem_ok_def joined_def)
  show "present d' v t \<and> uread d' v t = uread d' v s" if "d' \<in> P" "v < KERNBASE" "present d' v s" for d' v
  proof -
    have "\<not> (PGROUNDDOWN v = va \<and> d' = c)" using present_page [of v va c s] here(2) that(3) PGROUNDDOWN_aligned [OF va(2)] by auto
    then have f: "present d' v t" "frame_at d' v t = frame_at d' v s" using pr [OF that(1), of v] that(3) by auto
    have "P2V (frame_at d' v s) \<in> live_pages s" "frame_at d' v s \<notin> pt_frames d s" "frame_at d' v s \<notin> pt_frames c s"
      using uf that P by (auto simp: user_frames_ok_def)
    then show ?thesis using f j by (simp add: uread_def joined_def)
  qed
qed

section \<open>Mapping a page in one of many address spaces\<close>

lemma walk_refs:
  assumes "kmem_ok s" "walkpgdir c va True s = (Some p, t)" "P2V h \<in> live_pages s"
  shows "frefs h t = frefs h s"
proof (cases "t = s")
  case False
  then have nz: "fst (kalloc s) \<noteq> 0" and t: "runArr t = runArr (snd (kalloc s))"
    using assms(2) by (auto simp: walkpgdir_def Let_def memset_page_def st32_def split: if_splits prod.splits)
  show ?thesis using kalloc_success(2) [OF assms(1) nz assms(3)] by (simp add: frefs_def t)
qed simp

lemma mappages_one:
  assumes "page_aligned a"
  shows "mappages c a PGSIZE pa perm s = mappages_loop c perm (Suc 0) a pa s"
proof -
  have "PGROUNDDOWN (a + PGSIZE - 1) = a"
  proof (rule bit_word_eqI)
    fix n assume "n < LENGTH(32)"
    have "a + PGSIZE - 1 = a + 0xFFF" by simp
    also have "\<dots> = a OR 0xFFF" unfolding low_mask
      by (rule disjunctive_add) (use assms in \<open>auto simp: page_aligned_bit bit_mask_iff\<close>)
    finally show "bit (PGROUNDDOWN (a + PGSIZE - 1)) n = bit a n"
      unfolding low_mask bit_PGROUNDDOWN using assms by (cases "12 \<le> n") (auto simp: bit_or_iff bit_mask_iff page_aligned_bit)
  qed
  then show ?thesis by (simp add: mappages_def Let_def PGROUNDDOWN_aligned [OF assms] del: mappages_loop.simps)
qed

lemma mappages_page:
  assumes "page_aligned a" "mappages c a PGSIZE pa perm s = Inr (r, t)" "\<not> r < 0"
  shows "\<exists>p s1. walkpgdir c a True s = (Some p, s1) \<and> t = st32 p (pa OR perm OR PTE_P) s1"
  using assms(2,3) unfolding mappages_one [OF assms(1)] by (auto split: prod.splits option.splits if_splits)

lemma map_in_space:
  assumes wf: "wf_spaces P s" and ok: "kmem_ok s" and c: "c \<in> P" and a: "page_aligned a"
    and m: "mappages c a PGSIZE pa perm s = Inr (r, t)" "\<not> r < 0"
  shows "d \<in> P \<Longrightarrow> pte d v t = (if d = c \<and> PGROUNDDOWN v = a then pa OR perm OR PTE_P else pte d v s)" "wf_spaces P t" "kmem_ok t"
    "live_pages s \<subseteq> live_pages t" "d \<in> P \<Longrightarrow> g \<in> pt_frames d t \<Longrightarrow> g \<in> pt_frames d s \<or> P2V g \<notin> live_pages s"
    "P2V h \<in> live_pages s \<Longrightarrow> h \<notin> pt_frames c s \<Longrightarrow> pmem t h = pmem s h" "P2V h \<in> live_pages s \<Longrightarrow> frefs h t = frefs h s"
proof -
  obtain p s1 where w: "walkpgdir c a True s = (Some p, s1)" and t: "t = st32 p (pa OR perm OR PTE_P) s1"
    using mappages_page [OF a m] by blast
  have wc: "wf_pt c s" using wf c by (simp add: wf_spaces_def)
  note mo = map_one(1,3) [OF wc ok w, where w = "pa OR perm OR PTE_P", folded t]
  have g: "wf_pt c t" "kmem_ok t" "live_pages s \<subseteq> live_pages t" "\<And>f. f \<in> pt_frames c t \<Longrightarrow> f \<in> pt_frames c s \<or> P2V f \<notin> live_pages s"
    "\<And>f. P2V f \<in> live_pages s \<Longrightarrow> f \<notin> pt_frames c s \<Longrightarrow> pmem t f = pmem s f" using mo(1) by (auto simp: pt_grows_def)
  show "kmem_ok t" "live_pages s \<subseteq> live_pages t" "P2V h \<in> live_pages s \<Longrightarrow> h \<notin> pt_frames c s \<Longrightarrow> pmem t h = pmem s h" using g by auto
  have fl: "P2V f \<in> live_pages s" if "d \<in> P" "f \<in> pt_frames d s" for d f using frames_live wf that by (auto simp: wf_spaces_def)
  have oth: "\<And>f. f \<in> pt_frames d s \<Longrightarrow> pmem t f = pmem s f" if "d \<in> P" "d \<noteq> c" for d
    by (rule g(5)) (use that fl wf c in \<open>auto simp: wf_spaces_def disjoint_iff\<close>)
  have fr: "pt_frames d t = pt_frames d s" if "d \<in> P" "d \<noteq> c" for d by (rule pt_frame(2)) (rule oth [OF that])
  show "pte d v t = (if d = c \<and> PGROUNDDOWN v = a then pa OR perm OR PTE_P else pte d v s)" if "d \<in> P"
    using mo(2) [of v] pt_frame(1) [OF oth [OF that]] PGROUNDDOWN_aligned [OF a] by (cases "d = c") auto
  show "g \<in> pt_frames d s \<or> P2V g \<notin> live_pages s" if "d \<in> P" "g \<in> pt_frames d t"
    using g(4) [of g] fr [OF that(1)] that(2) by (cases "d = c") auto
  have "wf_pt d t" if "d \<in> P" "d \<noteq> c" for d
    by (rule pt_frame(3) [OF oth [OF that] g(3)]) (use wf that in \<open>simp_all add: wf_spaces_def\<close>)
  then have "\<forall>d\<in>P. wf_pt d t" using g(1) by auto
  moreover have "pt_frames d t \<inter> pt_frames d' t = {}" if "d \<in> P" "d' \<in> P" "d \<noteq> d'" for d d'
  proof -
    have old: "pt_frames d s \<inter> pt_frames d' s = {}" using wf that by (simp add: wf_spaces_def)
    have new: "f \<in> pt_frames d s" if "f \<in> pt_frames d t" "P2V f \<in> live_pages s" "d \<in> P" for f d
      using g(4) [of f] fr [of d] that by (cases "d = c") auto
    consider "d \<noteq> c" | "d' \<noteq> c" using \<open>d \<noteq> d'\<close> by blast
    then show ?thesis
    proof cases
      case 1
      then show ?thesis using fr [OF that(1)] fl [OF that(1)] new that(2) old by blast
    next
      case 2
      then show ?thesis using fr [OF that(2)] fl [OF that(2)] new that(1) old by blast
    qed
  qed
  ultimately show "wf_spaces P t" by (simp add: wf_spaces_def)
  show "frefs h t = frefs h s" if "P2V h \<in> live_pages s"
    using walk_refs [OF ok w that] by (simp add: t frefs_def st32_def)
qed

section \<open>The loop\<close>

lemma refs_only:
  assumes "pmem t = pmem s" "live_pages t = live_pages s"
  shows "wf_spaces P t = wf_spaces P s"
  by (simp add: wf_spaces_def wf_pt_def pt_cong [OF assms(1)] assms(2))

lemma add_reference:
  assumes ok: "kmem_ok s" and f: "P2V f \<in> live_pages s"
  shows "\<exists>t. incrementReferences (P2V f) s = Inr t \<and> kmem_ok t \<and> live_pages t = live_pages s \<and> pmem t = pmem s \<and>
    (\<forall>h. P2V h \<in> live_pages s \<longrightarrow> frefs h t = frefs h s + (if h = f then 1 else 0))"
proof -
  note l = live_frame [OF f]
  obtain xs where inv: "kmem_inv s xs" using ok by (auto simp: kmem_ok_def)
  have pos: "0 < run_ref (runArr s (run_idx (P2V f)))" using l(1,3) inv unfolding kmem_inv_def in_use_def by fastforce
  obtain t where t: "incrementReferences (P2V f) s = Inr t" "kmem_inv t xs" "in_use t = in_use s"
    using refs_inv [OF inv l(1) pos, of "\<lambda>r. r + 1"] pos unfolding l(2) incrementReferences_def by auto
  have "t = s\<lparr>runArr := (runArr s)(run_idx (P2V f) := (runArr s (run_idx (P2V f)))\<lparr>run_ref := frefs f s + 1\<rparr>)\<rparr>"
    using t(1) l(1) by (simp add: incrementReferences_def update_ref_def Let_def frefs_def)
  then have "pmem t = pmem s" "\<And>h. P2V h \<in> live_pages s \<Longrightarrow> frefs h t = frefs h s + (if h = f then 1 else 0)"
    using live_frame_inj [OF _ f] by (auto simp: frefs_def)
  then show ?thesis using t by (auto simp: kmem_ok_def live_pages_def)
qed

lemma share_page:
  assumes ok: "mem_ok P s" and P: "d \<in> P" "c \<in> P" "d \<noteq> c" and a: "a < KERNBASE" "page_aligned a"
    and here: "present d a s" and e: "e = shared_entry (pte d a s)" and q: "q = P2V (table d (unat (PDX a)) s) + 4 * PTX a"
    and m: "mappages c a PGSIZE (PTE_ADDR e) (PTE_FLAGS e) (st32 q e s) = Inr (r, s2)" "\<not> r < 0"
  shows "\<exists>t. incrementReferences (P2V (PTE_ADDR e)) s2 = Inr t \<and> joined P d c a e s (lcr3 x t)" "ld32 q s2 = e"
proof -
  let ?f = "frame_at d a s" and ?s1 = "st32 q e s"
  have km: "kmem_ok s" and wf: "wf_spaces P s" using ok by (simp_all add: mem_ok_def)
  have pres: "pte d a s AND PTE_P \<noteq> 0" using here by (simp add: present_def)
  have ee: "e AND PTE_P \<noteq> 0" "PTE_ADDR e = ?f" using shared_entry pres by (simp_all add: e frame_at_def)
  note se = store_entry [OF wf P(1) present_table [OF here] refl, where w = e, folded q]
  have km1: "kmem_ok ?s1" using se(6) km by simp
  note ms = map_in_space [OF se(2) km1 P(2) a(2) m]
  have u: "P2V ?f \<in> live_pages s" "?f \<notin> pt_frames d s" "?f \<notin> pt_frames c s"
    using ok P a here by (auto simp: mem_ok_def user_frames_ok_def)
  then have live2: "P2V ?f \<in> live_pages s2" using ms(4) se(5) by auto
  obtain t where t: "incrementReferences (P2V ?f) s2 = Inr t" "kmem_ok t" "live_pages t = live_pages s2" "pmem t = pmem s2"
    "\<And>h. P2V h \<in> live_pages s2 \<Longrightarrow> frefs h t = frefs h s2 + (if h = ?f then 1 else 0)"
    using add_reference [OF ms(3) live2] by blast
  have "joined P d c a e s (lcr3 x t)"
    unfolding joined_def lcr3_simps
  proof (intro conjI ballI allI impI)
    show "pte d' v t = (if PGROUNDDOWN v = a \<and> (d' = d \<or> d' = c) then e else pte d' v s)" if "d' \<in> P" for d' v
      using ms(1) [OF that, of v] se(1) [OF that, of v] P(3) PGROUNDDOWN_aligned [OF a(2)] rejoin_entry [OF ee(1)]
      by (auto simp: pt_cong [OF t(4)])
    show "wf_spaces P t" using ms(2) refs_only [OF t(4,3)] by simp
    show "g \<in> pt_frames d' s \<or> P2V g \<notin> live_pages s" if "d' \<in> P" "g \<in> pt_frames d' t" for d' g
      using ms(5) [OF that(1), of g] that se(3,5) by (simp add: pt_cong [OF t(4)])
    show "pmem t h = pmem s h" if "P2V h \<in> live_pages s \<and> h \<notin> pt_frames d s \<and> h \<notin> pt_frames c s" for h
      using ms(6) [of h] se(3) [OF P(2)] se(4,5) that t(4) by simp
    show "frefs h t = frefs h s + (if h = ?f then 1 else 0)" if "P2V h \<in> live_pages s" for h
      using t(5) [of h] ms(4) ms(7) [of h] se(5,7) that by auto
  qed (use t(2,3) ms(4) se(5) in auto)
  with t(1) ee(2) show "\<exists>t. incrementReferences (P2V (PTE_ADDR e)) s2 = Inr t \<and> joined P d c a e s (lcr3 x t)" by auto
  let ?tb = "table d (unat (PDX a)) s"
  have tb: "?tb \<in> pt_frames d s" using present_table [OF here] unat_PDX [of a] by (auto simp: pt_frames_def)
  have "wf_pt d s" "pt_frames d s \<inter> pt_frames c s = {}" using wf P by (simp_all add: wf_spaces_def)
  then have "P2V ?tb \<in> live_pages s" "?tb \<notin> pt_frames c s" using frames_live [OF _ tb] tb by blast+
  then have pm: "pmem s2 ?tb = pmem ?s1 ?tb" using ms(6) [of ?tb] se(3) [OF P(2)] se(5) by simp
  have "PTE_ADDR (V2P q) = ?tb" using entry_addr(1) [of ?tb "unat (PTX a)"] unat_PTX [of a] by (simp add: q V2P_entry table_def)
  then have "ld32 q s2 = ld32 q ?s1" using pm by (simp add: ld32_def)
  then show "ld32 q s2 = e" by simp
qed

text \<open>The pages with the numbers \<open>ks\<close> are shared by \<open>d\<close> and \<open>c\<close>.\<close>

definition cow_shared_pages :: "uint set \<Rightarrow> uint \<Rightarrow> uint \<Rightarrow> nat set \<Rightarrow> 'a kmem_scheme \<Rightarrow> 'a kmem_scheme \<Rightarrow> bool" where
  "cow_shared_pages P d c ks s t \<longleftrightarrow> mem_ok P t \<and> refs_exact P t \<and>
     (\<forall>d'\<in>P. \<forall>v. pte d' v t = (if unat v div 4096 \<in> ks \<and> (d' = d \<or> d' = c) then shared_entry (pte d v s) else pte d' v s)) \<and>
     (\<forall>d'\<in>P. \<forall>v<KERNBASE. present d' v s \<longrightarrow> present d' v t \<and> uread d' v t = uread d' v s)"

lemma page_number: "k < 524288 \<Longrightarrow> PGROUNDDOWN v = of_nat k * PGSIZE \<longleftrightarrow> unat v div 4096 = k"
proof -
  assume k: "k < 524288"
  have "unat (of_nat k * PGSIZE :: uint) = k * 4096" using k by (simp add: unat_word_ariths unat_of_nat)
  then show ?thesis by (simp add: word_unat_eq_iff unat_PGROUNDDOWN)
qed

lemma page_addr: "k < 524288 \<Longrightarrow> of_nat k * PGSIZE < KERNBASE"
  by (simp add: word_less_nat_alt unat_word_ariths unat_of_nat)

lemma shared_entry_idem: "shared_entry (shared_entry e) = shared_entry e"
  unfolding shared_entry_def by (rule bit_word_eqI) (auto simp: bit_and_iff bit_or_iff bit_not_iff bit_PTE)

lemma cow_shared_step:
  assumes j: "joined P d c (of_nat k * PGSIZE) (shared_entry (pte d (of_nat k * PGSIZE) s)) s s1" and t: "cow_shared_pages P d c ks s1 t"
    and ok: "mem_ok P s" "refs_exact P s" "d \<in> P" "c \<in> P" "k < 524288" "present d (of_nat k * PGSIZE) s" "\<not> present c (of_nat k * PGSIZE) s"
  shows "cow_shared_pages P d c (insert k ks) s t"
proof -
  let ?a = "of_nat k * PGSIZE" and ?e = "shared_entry (pte d (of_nat k * PGSIZE) s)"
  have e: "?e AND PTE_P \<noteq> 0" "PTE_ADDR ?e = frame_at d ?a s" using shared_entry ok(6) by (simp_all add: present_def frame_at_def)
  note jo = joined_ok [OF ok(1-4) page_addr [OF ok(5)] page_aligned_frame ok(6,7) e j]
  have "pte d' v t = (if unat v div 4096 \<in> insert k ks \<and> (d' = d \<or> d' = c) then shared_entry (pte d v s) else pte d' v s)" if "d' \<in> P" for d' v
  proof -
    have "pte d v s = pte d ?a s" if "unat v div 4096 = k"
      using that pte_cong_va [of v ?a d s] page_number [OF ok(5), of v] by (simp add: PGROUNDDOWN_aligned)
    then show ?thesis using j t that ok(3) page_number [OF ok(5), of v] shared_entry_idem [of "pte d v s"]
      by (auto simp: joined_def cow_shared_pages_def)
  qed
  moreover have "present d' v t \<and> uread d' v t = uread d' v s" if "d' \<in> P" "v < KERNBASE" "present d' v s" for d' v
    using jo(3) [OF that] t that by (simp add: cow_shared_pages_def)
  ultimately show ?thesis using t by (simp add: cow_shared_pages_def)
qed

lemma cowuvm_loop_Cons:
  assumes run: "cowuvm_loop d c (k # ks) s = Inr (r, t)" "r \<noteq> 0" and ok: "mem_ok P s" "d \<in> P" "c \<in> P" "d \<noteq> c" "k < 524288"
    and here: "present d (of_nat k * PGSIZE) s"
  shows "\<exists>s1. joined P d c (of_nat k * PGSIZE) (shared_entry (pte d (of_nat k * PGSIZE) s)) s s1 \<and> cowuvm_loop d c ks s1 = Inr (r, t)"
proof -
  let ?a = "of_nat k * PGSIZE :: uint"
  define q where "q = P2V (table d (unat (PDX ?a)) s) + 4 * PTX ?a"
  define e where "e = shared_entry (pte d ?a s)"
  note w = cow_walk [OF ok(1,2) here, folded q_def]
  have pr: "pte d ?a s AND PTE_P \<noteq> 0" using here by (simp add: present_def)
  obtain r2 s2 where m: "mappages c ?a PGSIZE (PTE_ADDR e) (PTE_FLAGS e) (st32 q e s) = Inr (r2, s2)" "\<not> r2 < 0"
    using run pr by (auto simp: w Let_def e_def shared_entry_def rbind_eq_Inr split: if_splits prod.splits)
  note sp = share_page [OF ok(1-4) page_addr [OF ok(5)] page_aligned_frame here e_def q_def m]
  obtain s3 where s3: "incrementReferences (P2V (PTE_ADDR e)) s2 = Inr s3" "joined P d c ?a e s (lcr3 (V2P d) s3)" using sp(1) [of "V2P d"] by blast
  have e3: "pte d ?a s AND - 3 OR PTE_COW = e" by (simp add: e_def shared_entry_def)
  have "e AND PTE_P \<noteq> 0" using shared_entry pr by (simp add: e_def)
  then have "cowuvm_loop d c ks (lcr3 (V2P d) s3) = Inr (r, t)"
    using run m s3(1) sp(2) pr by (simp add: w Let_def e3)
  then show ?thesis using s3(2) by (auto simp: e_def)
qed

lemma cowuvm_loop_spec:
  assumes "cowuvm_loop d c ks s = Inr (r, t)" "r \<noteq> 0" "mem_ok P s" "refs_exact P s" "d \<in> P" "c \<in> P" "d \<noteq> c" "distinct ks"
    and "\<forall>k\<in>set ks. k < 524288 \<and> present d (of_nat k * PGSIZE) s \<and> \<not> present c (of_nat k * PGSIZE) s"
  shows "r = c \<and> cow_shared_pages P d c (set ks) s t"
  using assms
proof (induction ks arbitrary: s)
  case Nil
  then show ?case by (simp add: cow_shared_pages_def)
next
  case (Cons k ks)
  let ?a = "\<lambda>k. of_nat k * PGSIZE :: uint"
  note pr = Cons.prems
  have k: "k < 524288" "present d (?a k) s" "\<not> present c (?a k) s" using pr(9) by auto
  obtain s1 where s1: "joined P d c (?a k) (shared_entry (pte d (?a k) s)) s s1" "cowuvm_loop d c ks s1 = Inr (r, t)"
    using cowuvm_loop_Cons [OF pr(1-3,5-7) k(1,2)] by blast
  have e: "shared_entry (pte d (?a k) s) AND PTE_P \<noteq> 0" "PTE_ADDR (shared_entry (pte d (?a k) s)) = frame_at d (?a k) s"
    using shared_entry k(2) by (simp_all add: present_def frame_at_def)
  note jo = joined_ok [OF pr(3-6) page_addr [OF k(1)] page_aligned_frame k(2,3) e s1(1)]
  have "j < 524288 \<and> present d (?a j) s1 \<and> \<not> present c (?a j) s1" if "j \<in> set ks" for j
  proof -
    have j: "j < 524288" "present d (?a j) s" "\<not> present c (?a j) s" "j \<noteq> k" using that pr(8,9) by auto
    have "PGROUNDDOWN (?a j) \<noteq> ?a k" using j(1,4) k(1) page_number [OF k(1), of "?a j"] page_number [OF j(1), of "?a j"] by (simp add: PGROUNDDOWN_aligned)
    then have "pte c (?a j) s1 = pte c (?a j) s" using s1(1) pr(6) by (auto simp: joined_def)
    then show ?thesis using jo(3) [OF pr(5) page_addr [OF j(1)] j(2)] j(1,3) by (simp add: present_def)
  qed
  with Cons.IH [OF s1(2) pr(2) jo(1,2) pr(5-7)] pr(8) have "r = c \<and> cow_shared_pages P d c (set ks) s1 t" by auto
  then show ?case using cow_shared_step [OF s1(1) _ pr(3-6) k] by simp
qed

lemma user_pages: "set (user_pages sz) = {k. k * 4096 < unat sz}" "distinct (user_pages sz)"
    "sz \<le> KERNBASE \<Longrightarrow> k \<in> set (user_pages sz) \<Longrightarrow> k < 524288 \<and> of_nat k * PGSIZE < sz"
    "unat v div 4096 \<in> set (user_pages sz) \<longleftrightarrow> PGROUNDDOWN v < sz"
proof -
  have eq: "k < (n + 4095) div 4096 \<longleftrightarrow> k * 4096 < n" for k n :: nat
  proof -
    have "k < (n + 4095) div 4096 \<longleftrightarrow> Suc k * 4096 \<le> n + 4095" by (simp only: less_eq_div_iff_mult_less_eq Suc_le_eq [symmetric] zero_less_numeral)
    then show ?thesis by auto
  qed
  show s: "set (user_pages sz) = {k. k * 4096 < unat sz}" by (auto simp: user_pages_def eq)
  show "distinct (user_pages sz)" by (simp add: user_pages_def)
  show "unat v div 4096 \<in> set (user_pages sz) \<longleftrightarrow> PGROUNDDOWN v < sz" by (simp add: s word_less_nat_alt unat_PGROUNDDOWN)
  show "k < 524288 \<and> of_nat k * PGSIZE < sz" if "sz \<le> KERNBASE" "k \<in> set (user_pages sz)"
  proof -
    have "unat sz \<le> 0x80000000" using that(1) by (simp add: word_le_nat_alt)
    then have k: "k < 524288" using that(2) s by simp
    then have "unat (of_nat k * PGSIZE :: uint) = k * 4096" by (simp add: unat_word_ariths unat_of_nat)
    with k that(2) s show ?thesis by (simp add: word_less_nat_alt)
  qed
qed

text \<open>The parent \<open>d\<close> has all pages below \<open>sz\<close> in memory and the child \<open>c\<close> has no user pages.\<close>

definition fork_ready :: "uint set \<Rightarrow> uint \<Rightarrow> uint \<Rightarrow> uint \<Rightarrow> 'a kmem_scheme \<Rightarrow> bool" where
  "fork_ready P d c sz s \<longleftrightarrow> mem_ok P s \<and> refs_exact P s \<and> d \<in> P \<and> c \<in> P \<and> d \<noteq> c \<and> sz \<le> KERNBASE \<and>
     (\<forall>v. v < sz \<longrightarrow> present d v s) \<and> (\<forall>v<KERNBASE. \<not> present c v s)"

lemma fork_shares:
  assumes "fork_ready P d c sz s" "cowuvm_loop d c (user_pages sz) s = Inr (r, t)" "r \<noteq> 0"
  shows "r = c" "cow_shared_pages P d c (set (user_pages sz)) s t"
proof -
  have f: "mem_ok P s" "refs_exact P s" "d \<in> P" "c \<in> P" "d \<noteq> c" "sz \<le> KERNBASE" using assms(1) by (simp_all add: fork_ready_def)
  have "k < 524288 \<and> present d (of_nat k * PGSIZE) s \<and> \<not> present c (of_nat k * PGSIZE) s" if "k \<in> set (user_pages sz)" for k
    using user_pages(3) [OF f(6) that] assms(1) page_addr [of k] by (simp add: fork_ready_def)
  then have "r = c \<and> cow_shared_pages P d c (set (user_pages sz)) s t"
    by (intro cowuvm_loop_spec [OF assms(2,3) f(1-5) user_pages(2)]) blast
  then show "r = c" "cow_shared_pages P d c (set (user_pages sz)) s t" by blast+
qed

lemma fork_entries:
  assumes "fork_ready P d c sz s" "cowuvm_loop d c (user_pages sz) s = Inr (r, t)" "r \<noteq> 0"
  shows "d' \<in> P \<Longrightarrow> pte d' v t = (if PGROUNDDOWN v < sz \<and> (d' = d \<or> d' = c) then shared_entry (pte d v s) else pte d' v s)"
    "v < sz \<Longrightarrow> present c v t \<and> present d v t \<and> pte c v t = pte d v t \<and> pte d v t = shared_entry (pte d v s) \<and> uread c v t = uread d v s \<and> uread d v t = uread d v s"
proof -
  have f: "d \<in> P" "c \<in> P" "sz \<le> KERNBASE" "\<And>v. v < sz \<Longrightarrow> present d v s" using assms(1) by (simp_all add: fork_ready_def)
  note fs = fork_shares [OF assms]
  show pt: "pte d' v t = (if PGROUNDDOWN v < sz \<and> (d' = d \<or> d' = c) then shared_entry (pte d v s) else pte d' v s)" if "d' \<in> P" for d' v
    using fs(2) that unfolding cow_shared_pages_def user_pages(4) by blast
  assume v: "v < sz"
  have k: "v < KERNBASE" "PGROUNDDOWN v < sz" using v f(3) PGROUNDDOWN_le [of v] by simp_all
  then have e: "pte c v t = shared_entry (pte d v s)" "pte d v t = shared_entry (pte d v s)" using pt f(1,2) by simp_all
  then have "uread c v t = uread d v t" by (simp add: uread_def frame_at_def)
  moreover have "uread d v t = uread d v s" using fs(2) f(1,4) v k(1) by (simp add: cow_shared_pages_def)
  ultimately show "present c v t \<and> present d v t \<and> pte c v t = pte d v t \<and> pte d v t = shared_entry (pte d v s) \<and> uread c v t = uread d v s \<and> uread d v t = uread d v s"
    using e shared_entry(2) [of "pte d v s"] f(4) [OF v] by (simp add: present_def)
qed


section \<open>Memory and the rest of the state\<close>

text \<open>The invariant only depends on the fields of the allocator and on memory.\<close>

lemma same_memory:
  assumes "kmem.truncate t = kmem.truncate s"
  shows "pmem t = pmem s" "mem_ok P t = mem_ok P s" "refs_exact P t = refs_exact P s" "frefs f t = frefs f s" "fst (kalloc t) = fst (kalloc s)"
proof -
  have f: "pmem t = pmem s" "runArr t = runArr s" "freelist t = freelist s" "kend t = kend s" "occupiedPages t = occupiedPages s"
    using assms by (simp_all add: kmem.truncate_def)
  show "pmem t = pmem s" "frefs f t = frefs f s" for f by (simp_all add: f frefs_def)
  note c = pt_cong [OF f(1)]
  have l: "live_pages t = live_pages s" "kmem_ok t = kmem_ok s"
    by (simp_all add: live_pages_def in_use_def kmem_ok_def kmem_inv_def allocatable_def f)
  show r: "refs_exact P t = refs_exact P s" by (simp add: refs_exact_def c frefs_def f)
  have "refs_ok P t = refs_ok P s" by (simp add: refs_ok_def c frefs_def f)
  then show "mem_ok P t = mem_ok P s"
    by (simp add: mem_ok_def l refs_only [OF f(1) l(1)] user_frames_ok_def c)
  show "fst (kalloc t) = fst (kalloc s)" by (simp add: kalloc_def f split: option.splits)
qed

text \<open>A write to a frame with a single mapping is seen through that mapping only.\<close>

lemma private_write:
  assumes ok: "mem_ok P t" and own: "maps P g t = {(c, va)}" and d: "d \<in> P" "v < KERNBASE" "present d v t" "(d, PGROUNDDOWN v) \<noteq> (c, va)"
  shows "uread d v (put_page g b t) = uread d v t"
proof -
  have "c \<in> P" "va < KERNBASE" "present c va t" "frame_at c va t = g" using own by (auto simp: maps_def)
  then have "g \<notin> pt_frames d t" using ok d(1) by (auto simp: mem_ok_def user_frames_ok_def)
  then have pt: "pte d v (put_page g b t) = pte d v t" by (intro pt_frame(1)) auto
  have "frame_at d v t \<noteq> g"
  proof
    assume "frame_at d v t = g"
    then have "(d, PGROUNDDOWN v) \<in> maps P g t"
      using d present_page [of v "PGROUNDDOWN v" d t] PGROUNDDOWN_le [of v] by (auto simp: maps_def PGROUNDDOWN_aligned)
    then show False using own d(4) by simp
  qed
  then show ?thesis using pt by (simp add: uread_def frame_at_def)
qed

text \<open>The loop returns when a frame is left for the child's page table.\<close>

lemma mappages_page_ok:
  assumes "wf_pt c s" "kmem_ok s" "page_aligned a" "pte c a s AND PTE_P = 0" "fst (kalloc s) \<noteq> 0"
  shows "\<exists>t. mappages c a PGSIZE pa perm s = Inr (0, t) \<and> freelist t \<in> {freelist s, freelist (snd (kalloc s))}"
proof -
  obtain p s1 where w: "walkpgdir c a True s = (Some p, s1)" using walk_ok [OF assms(5)] by blast
  have "ld32 p s1 = pte c a s" using map_one(2) [OF assms(1,2) w] .
  moreover have "freelist s1 \<in> {freelist s, freelist (snd (kalloc s))}"
    using w by (auto simp: walkpgdir_def Let_def st32_def put_page_def memset_page_def split: if_splits prod.splits)
  ultimately show ?thesis unfolding mappages_one [OF assms(3)] using assms(4) by (simp add: w st32_def put_page_def)
qed

lemma cowuvm_loop_runs:
  assumes ok: "mem_ok P s" "d \<in> P" "c \<in> P" "d \<noteq> c" "k < 524288" and here: "present d (of_nat k * PGSIZE) s"
    and new: "\<not> present c (of_nat k * PGSIZE) s" "fst (kalloc s) \<noteq> 0"
  shows "\<exists>t. cowuvm_loop d c [k] s = Inr (c, t) \<and> freelist t \<in> {freelist s, freelist (snd (kalloc s))}"
proof -
  let ?a = "of_nat k * PGSIZE :: uint"
  define q where "q = P2V (table d (unat (PDX ?a)) s) + 4 * PTX ?a"
  define e where "e = shared_entry (pte d ?a s)"
  note w = cow_walk [OF ok(1,2) here, folded q_def]
  have pr: "pte d ?a s AND PTE_P \<noteq> 0" using here by (simp add: present_def)
  have wf: "wf_spaces P s" and km: "kmem_ok s" using ok(1) by (simp_all add: mem_ok_def)
  note se = store_entry [OF wf ok(2) present_table [OF here] refl, where w = e, folded q_def]
  have "wf_pt c (st32 q e s)" "pte c ?a (st32 q e s) AND PTE_P = 0" "fst (kalloc (st32 q e s)) \<noteq> 0" "kmem_ok (st32 q e s)"
    using se(1) [OF ok(3)] se(2,6) ok(3,4) new km by (simp_all add: wf_spaces_def present_def kalloc_def st32_def put_page_def split: option.splits)
  from mappages_page_ok [OF this(1,4) page_aligned_frame this(2,3)]
  obtain s2 where m: "mappages c ?a PGSIZE (PTE_ADDR e) (PTE_FLAGS e) (st32 q e s) = Inr (0, s2)"
    and fl: "freelist s2 \<in> {freelist (st32 q e s), freelist (snd (kalloc (st32 q e s)))}" by blast
  have fl': "freelist s2 \<in> {freelist s, freelist (snd (kalloc s))}" using fl by (auto simp: st32_def put_page_def kalloc_def split: option.splits)
  note sp = share_page [OF ok(1-4) page_addr [OF ok(5)] page_aligned_frame here e_def q_def m]
  have e3: "pte d ?a s AND - 3 OR PTE_COW = e" by (simp add: e_def shared_entry_def)
  have "e AND PTE_P \<noteq> 0" using shared_entry pr by (simp add: e_def)
  moreover obtain s3 where s3: "incrementReferences (P2V (PTE_ADDR e)) s2 = Inr s3" using sp(1) by auto
  moreover have "freelist s3 = freelist s2" using s3 by (auto simp: incrementReferences_def update_ref_def Let_def split: if_splits)
  ultimately show ?thesis using m sp(2) pr fl' by (simp add: w Let_def e3 lcr3_def)
qed

abbreviation child_pgdir :: uint where "child_pgdir \<equiv> 0x80193000"

definition fork_sample :: vstate where
  "fork_sample = teardown_sample\<lparr>runArr := (runArr teardown_sample)(403 := \<lparr>run_next = None, run_ref = 1\<rparr>), occupiedPages := 4\<rparr>"

lemma fork_sample_ready: "fork_ready {sample_pgdir, child_pgdir} sample_pgdir child_pgdir 0x1000 fork_sample" "fst (kalloc fork_sample) \<noteq> 0"
  "freelist fork_sample = Some 300" "freelist (snd (kalloc fork_sample)) = Some 301"
proof -
  let ?P = "{sample_pgdir, child_pgdir}"
  have "pmem fork_sample = pmem cow_sample" by (simp add: fork_sample_def teardown_sample_def)
  note c = pt_cong(1,2,7,8) [OF this, of sample_pgdir]
  have pc: "pde_at child_pgdir i fork_sample = 0" for i
    by (simp add: pde_at_def fork_sample_def teardown_sample_def cow_sample_fields V2P_def)
  have ch: "\<not> has_table child_pgdir i fork_sample" "pte child_pgdir v fork_sample = 0" for i v
    by (simp_all add: has_table_def pte_def pc)
  have use: "in_use fork_sample = {400, 401, 402, 403}"
    by (auto simp: fork_sample_def teardown_sample_def in_use_def cow_sample_fields split: if_splits)
  have live: "live_pages fork_sample = {0x80190000, 0x80191000, 0x80192000, 0x80193000}" by (simp add: live_pages_def use P2V_def)
  have "kmem_inv fork_sample [300, 301]"
    unfolding kmem_inv_def use by (simp add: allocatable_def fork_sample_def teardown_sample_def cow_sample_fields P2V_def)
  then have k: "kmem_ok fork_sample" unfolding kmem_ok_def by blast
  have pr: "present sample_pgdir v fork_sample \<longleftrightarrow> PGROUNDDOWN v = 0"
    "PGROUNDDOWN v = 0 \<Longrightarrow> frame_at sample_pgdir v fork_sample = 0x192000" "\<not> present child_pgdir v fork_sample" for v
    by (auto simp: present_def frame_at_def c cow_sample_pt PTE_ADDR_def ch)
  have fr: "pt_frames sample_pgdir fork_sample = {0x190000, 0x191000}" "pt_frames child_pgdir fork_sample = {0x193000}"
    by (auto simp: pt_frames_def c cow_sample_pt V2P_def ch)
  have "wf_pt sample_pgdir fork_sample" "wf_pt child_pgdir fork_sample"
    by (auto simp: wf_pt_def c cow_sample_pt ch live P2V_def V2P_def inj_on_def page_aligned_def take_bit_eq_mod)
  then have "wf_spaces ?P fork_sample" by (simp add: wf_spaces_def fr)
  moreover have "user_frames_ok ?P fork_sample" by (auto simp: user_frames_ok_def pr fr live P2V_def)
  moreover have z: "PGROUNDDOWN 0 = 0" by (simp add: PGROUNDDOWN_def)
  have m: "maps ?P f fork_sample = (if f = 0x192000 then {(sample_pgdir, 0)} else {})" for f
    using pr z by (auto simp: maps_def PGROUNDDOWN_aligned page_aligned_def)
  have "frefs 0x192000 fork_sample = 1" by (simp add: frefs_def run_idx_def P2V_def V2P_def unat_div fork_sample_def teardown_sample_def)
  then have ex: "refs_exact ?P fork_sample" by (auto simp: refs_exact_def m)
  moreover have "refs_ok ?P fork_sample" using ex by (simp add: refs_ok_def refs_exact_def)
  ultimately have "mem_ok ?P fork_sample" using k by (simp add: mem_ok_def)
  moreover have "PGROUNDDOWN v = 0" if "v < 0x1000" for v
  proof -
    have "unat v < 4096" using that by (simp add: word_less_nat_alt)
    then show ?thesis using unat_PGROUNDDOWN [of v] by (simp add: unat_eq_zero)
  qed
  ultimately show "fork_ready ?P sample_pgdir child_pgdir 0x1000 fork_sample" using ex pr by (simp add: fork_ready_def)
  show "freelist fork_sample = Some 300" "freelist (snd (kalloc fork_sample)) = Some 301"
    by (simp_all add: kalloc_def fork_sample_def teardown_sample_def cow_sample_fields)
  show "fst (kalloc fork_sample) \<noteq> 0" by (simp add: kalloc_def fork_sample_def teardown_sample_def cow_sample_fields P2V_def)
qed

lemma fork_sample_run:
  "\<exists>t. cowuvm_loop sample_pgdir child_pgdir (user_pages 0x1000) fork_sample = Inr (child_pgdir, t) \<and> fst (kalloc t) \<noteq> 0"
proof -
  let ?P = "{sample_pgdir, child_pgdir}"
  note r = fork_sample_ready(1) [unfolded fork_ready_def]
  have up: "user_pages 0x1000 = [0]" by (simp add: user_pages_def)
  obtain t where t: "cowuvm_loop sample_pgdir child_pgdir [0] fork_sample = Inr (child_pgdir, t)" "freelist t \<in> {Some 300, Some 301}"
    using cowuvm_loop_runs [of ?P fork_sample sample_pgdir child_pgdir 0] r fork_sample_ready(2-4) by auto
  have "fst (kalloc t) \<noteq> 0" using t(2) by (auto simp: kalloc_def P2V_def)
  with t(1) show ?thesis unfolding up by blast
qed


end
