(* ===== verification/Replacement.thy ===== *)
theory Replacement
  imports Paging
begin

text \<open>
  The queue of resident pages that chooses the page to evict. It refines a finite map from page
  numbers to priorities; every operation on it is defined and keeps it well formed; SCFIFO
  evicts in order of arrival, LAPA counts accesses exactly, NFUA prefers pages not accessed.
\<close>

section \<open>The queue as a map\<close>

definition pairs :: "heap_p list \<Rightarrow> (int \<times> uint) list" where
  "pairs hs = map (\<lambda>h. (index h, priority h)) hs"

definition pmap :: "proc \<Rightarrow> int \<rightharpoonup> uint" where
  "pmap p = map_of (pairs (take (prioSize p) (prioArr p)))"

definition pq_inv :: "proc \<Rightarrow> bool" where
  "pq_inv p \<longleftrightarrow> is_heap (prioArr p) (prioSize p) \<and> length (prioArr p) = MAX_PRIO_ARR \<and> length (ramPmd p) = MAX_PSYC_PAGES \<and>
     distinct (map index (take (prioSize p) (prioArr p))) \<and> dom (pmap p) \<subseteq> {0..<int MAX_PSYC_PAGES}"

lemma fst_pairs: "map fst (pairs hs) = map index hs"
  by (simp add: pairs_def)

lemma map_of_pairs_mset:
  assumes "mset hs = mset hs'" "distinct (map index hs)"
  shows "distinct (map index hs')" "map_of (pairs hs) = map_of (pairs hs')"
proof -
  have "mset (map index hs) = mset (map index hs')" using assms(1) by (metis mset_map)
  then show d: "distinct (map index hs')" using assms(2) mset_eq_imp_distinct_iff by blast
  have "set (pairs hs) = set (pairs hs')" using mset_eq_setD [OF assms(1)] by (simp add: pairs_def)
  then show "map_of (pairs hs) = map_of (pairs hs')"
    using assms(2) d by (intro map_of_inject_set [THEN iffD2]) (simp_all add: fst_pairs)
qed

lemma dom_pmap: "dom (pmap p) = index ` set (take (prioSize p) (prioArr p))"
  by (simp add: pmap_def dom_map_of_conv_image_fst pairs_def image_image)

lemma heap_p_eta [simp]: "\<lparr>index = index h, priority = priority h\<rparr> = (h :: heap_p)"
  by (cases h) simp

lemma pmap_Some:
  assumes "distinct (map index (take (prioSize p) (prioArr p)))"
  shows "pmap p k = Some x \<longleftrightarrow> \<lparr>index = k, priority = x\<rparr> \<in> set (take (prioSize p) (prioArr p))"
proof -
  have "pmap p k = Some x \<longleftrightarrow> (k, x) \<in> set (pairs (take (prioSize p) (prioArr p)))"
    using assms by (simp add: pmap_def fst_pairs)
  also have "\<dots> \<longleftrightarrow> \<lparr>index = k, priority = x\<rparr> \<in> set (take (prioSize p) (prioArr p))"
  proof
    assume "(k, x) \<in> set (pairs (take (prioSize p) (prioArr p)))"
    then obtain h where "h \<in> set (take (prioSize p) (prioArr p))" "k = index h" "x = priority h" by (auto simp: pairs_def)
    then show "\<lparr>index = k, priority = x\<rparr> \<in> set (take (prioSize p) (prioArr p))" by simp
  next
    assume "\<lparr>index = k, priority = x\<rparr> \<in> set (take (prioSize p) (prioArr p))"
    then show "(k, x) \<in> set (pairs (take (prioSize p) (prioArr p)))" by (force simp: pairs_def)
  qed
  finally show ?thesis .
qed

lemma pq_size: "pq_inv p \<Longrightarrow> prioSize p = card (dom (pmap p))" "pq_inv p \<Longrightarrow> prioSize p \<le> MAX_PSYC_PAGES"
proof -
  assume i: "pq_inv p"
  then have "card (index ` set (take (prioSize p) (prioArr p))) = prioSize p"
    using distinct_card [of "map index (take (prioSize p) (prioArr p))"] by (simp add: pq_inv_def is_heap_def)
  then show c: "prioSize p = card (dom (pmap p))" by (simp add: dom_pmap)
  have "card (dom (pmap p)) \<le> card {0..<int MAX_PSYC_PAGES}" using i by (intro card_mono) (simp_all add: pq_inv_def)
  then show "prioSize p \<le> MAX_PSYC_PAGES" using c by simp
qed

section \<open>Operations on the map\<close>

text \<open>An array that holds the same nodes in another order.\<close>

lemma pq_inv_nodes:
  assumes "is_heap a n" "length a = MAX_PRIO_ARR" "length (ramPmd p) = MAX_PSYC_PAGES" "nodes a n = mset hs" "distinct (map index hs)"
    "index ` set hs \<subseteq> {0..<int MAX_PSYC_PAGES}"
  shows "pq_inv (p\<lparr>prioArr := a, prioSize := n\<rparr>)" "pmap (p\<lparr>prioArr := a, prioSize := n\<rparr>) = map_of (pairs hs)"
proof -
  note m = map_of_pairs_mset [OF assms(4) [symmetric] assms(5)]
  show "pmap (p\<lparr>prioArr := a, prioSize := n\<rparr>) = map_of (pairs hs)" by (simp add: pmap_def m(2))
  have "set (take n a) = set hs" using assms(4) by (metis set_mset_mset)
  with assms(1-3,6) m(1) show "pq_inv (p\<lparr>prioArr := a, prioSize := n\<rparr>)" by (simp add: pq_inv_def dom_pmap)
qed

lemma pmap_remove: "distinct (map index hs) \<Longrightarrow> h \<in> set hs \<Longrightarrow> map_of (pairs (remove1 h hs)) = (map_of (pairs hs))(index h := None)"
proof (induction hs)
  case (Cons x hs)
  show ?case
  proof (cases "x = h")
    case True
    then have "index h \<notin> dom (map_of (pairs hs))" using Cons.prems(1) by (auto simp: dom_map_of_conv_image_fst pairs_def)
    with True show ?thesis by (auto simp: pairs_def fun_eq_iff domIff)
  next
    case False
    then have "index x \<noteq> index h" using Cons.prems by auto
    with False Cons show ?thesis by (auto simp: pairs_def fun_eq_iff)
  qed
qed simp

lemma dequeue_map:
  assumes "pq_inv p"
  shows "pq_inv (dequeue k p)" "pmap (dequeue k p) = (pmap p)(k := None)"
    "\<exists>a n. dequeue k p = p\<lparr>prioArr := a, prioSize := n\<rparr>"
proof -
  let ?hs = "take (prioSize p) (prioArr p)"
  have i: "is_heap (prioArr p) (prioSize p)" "length (prioArr p) = MAX_PRIO_ARR" "length (ramPmd p) = MAX_PSYC_PAGES"
    "distinct (map index ?hs)" "index ` set ?hs \<subseteq> {0..<int MAX_PSYC_PAGES}" "prioSize p \<le> length (prioArr p)"
    using assms by (simp_all add: pq_inv_def dom_pmap is_heap_def)
  show "\<exists>a n. dequeue k p = p\<lparr>prioArr := a, prioSize := n\<rparr>" by (simp add: dequeue_def split: prod.splits) blast
  have "pq_inv (dequeue k p) \<and> pmap (dequeue k p) = (pmap p)(k := None)"
  proof (cases "k \<in> index ` set ?hs")
    case True
    obtain out a where d: "deleteRoot (prioArr p) k (prioSize p) = (out, a, prioSize p - 1)" "length a = length (prioArr p)"
      "is_heap a (prioSize p - 1)" "index out = k" "out \<in># mset ?hs" "nodes a (prioSize p - 1) = mset ?hs - {#out#}"
      using deleteRoot_found [OF i(6) True] by auto
    have n: "nodes a (prioSize p - 1) = mset (remove1 out ?hs)" using d(6) by simp
    have dd: "distinct (map index (remove1 out ?hs))"
      using i(4) by (metis distinct_map distinct_remove1 inj_on_subset set_remove1_subset)
    have sub: "index ` set (remove1 out ?hs) \<subseteq> {0..<int MAX_PSYC_PAGES}" using i(5) set_remove1_subset [of out ?hs] by blast
    note q = pq_inv_nodes [OF d(3) _ i(3) n dd sub]
    have "out \<in> set ?hs" using d(5) by simp
    from pmap_remove [OF i(4) this] q d(1,2,4) i(2) show ?thesis by (simp add: dequeue_def pmap_def)
  next
    case False
    then have "dequeue k p = p" using deleteRoot_absent [OF i(6) False] by (simp add: dequeue_def)
    moreover have "(pmap p)(k := None) = pmap p" using False by (auto simp: fun_eq_iff domIff simp flip: dom_pmap)
    ultimately show ?thesis using assms by simp
  qed
  then show "pq_inv (dequeue k p)" "pmap (dequeue k p) = (pmap p)(k := None)" by blast+
qed

lemma enqueue_map:
  assumes "pq_inv p" "index h \<notin> dom (pmap p)" "0 \<le> index h" "index h < int MAX_PSYC_PAGES"
  shows "\<exists>q. enqueue h p = Inr q \<and> pq_inv q \<and> pmap q = (pmap p)(index h \<mapsto> priority h) \<and>
    (\<exists>a n. q = p\<lparr>prioArr := a, prioSize := n\<rparr>)"
proof -
  let ?hs = "take (prioSize p) (prioArr p)"
  have i: "length (prioArr p) = MAX_PRIO_ARR" "length (ramPmd p) = MAX_PSYC_PAGES"
    "distinct (map index ?hs)" "index ` set ?hs \<subseteq> {0..<int MAX_PSYC_PAGES}" "index h \<notin> index ` set ?hs"
    using assms by (simp_all add: pq_inv_def dom_pmap)
  have lt: "prioSize p < length (prioArr p)" using pq_size(2) [OF assms(1)] i(1) by simp
  obtain a where a: "insertHeap (prioArr p) h (prioSize p) = Inr (a, prioSize p + 1)" "length a = length (prioArr p)"
    "is_heap a (prioSize p + 1)" "nodes a (prioSize p + 1) = add_mset h (mset ?hs)"
    using insertHeap_ok [OF lt] by blast
  have n: "nodes a (prioSize p + 1) = mset (h # ?hs)" using a(4) by simp
  have dd: "distinct (map index (h # ?hs))" using i(3,5) by auto
  have sub: "index ` set (h # ?hs) \<subseteq> {0..<int MAX_PSYC_PAGES}" using i(4) assms(3,4) by simp
  have "length a = MAX_PRIO_ARR" using a(2) i(1) by simp
  from pq_inv_nodes [OF a(3) this i(2) n dd sub] a(1) show ?thesis
    by (intro exI [of _ "p\<lparr>prioArr := a, prioSize := prioSize p + 1\<rparr>"]) (auto simp: enqueue_def pmap_def pairs_def)
qed

lemma find_map:
  assumes "pq_inv p" "k \<noteq> - 1"
  shows "\<exists>h a. findInHeap (prioArr p) k (prioSize p) = Inr (h, a, prioSize p) \<and> (index h \<noteq> - 1 \<longleftrightarrow> k \<in> dom (pmap p)) \<and>
    (k \<in> dom (pmap p) \<longrightarrow> index h = k \<and> pmap p k = Some (priority h)) \<and>
    (k \<notin> dom (pmap p) \<longrightarrow> a = prioArr p) \<and>
    pq_inv (p\<lparr>prioArr := a, prioSize := prioSize p\<rparr>) \<and> pmap (p\<lparr>prioArr := a, prioSize := prioSize p\<rparr>) = pmap p"
proof -
  let ?hs = "take (prioSize p) (prioArr p)"
  have i: "is_heap (prioArr p) (prioSize p)" "length (prioArr p) = MAX_PRIO_ARR" "length (ramPmd p) = MAX_PSYC_PAGES"
    "distinct (map index ?hs)" "index ` set ?hs \<subseteq> {0..<int MAX_PSYC_PAGES}" "prioSize p \<le> length (prioArr p)"
    using assms by (simp_all add: pq_inv_def dom_pmap is_heap_def)
  show ?thesis
  proof (cases "k \<in> index ` set ?hs")
    case True
    obtain h a where f: "findInHeap (prioArr p) k (prioSize p) = Inr (h, a, prioSize p)" "length a = length (prioArr p)"
      "is_heap a (prioSize p)" "index h = k" "h \<in># mset ?hs" "nodes a (prioSize p) = mset ?hs"
      using findInHeap_found [OF i(6) True assms(2)] by blast
    have "pmap p k = Some (priority h)" using f(5) unfolding f(4) [symmetric] pmap_Some [OF i(4)] by simp
    moreover have "length a = MAX_PRIO_ARR" using f(2) i(2) by simp
    note pq_inv_nodes [OF f(3) this i(3) f(6) i(4,5)]
    ultimately show ?thesis using f(1,4) True assms(2) by (auto simp: dom_pmap pmap_def)
  next
    case False
    then show ?thesis using findInHeap_absent [OF i(6) False] assms(1) by (auto simp: dom_pmap no_node_def)
  qed
qed

lemma peek_map:
  assumes "pq_inv p" "dom (pmap p) \<noteq> {}"
  shows "prioSize p \<noteq> 0" "pmap p (index (peekHeap (prioArr p))) = Some (priority (peekHeap (prioArr p)))"
    "pmap p k = Some x \<Longrightarrow> priority (peekHeap (prioArr p)) \<le> x"
proof -
  have i: "is_heap (prioArr p) (prioSize p)" "distinct (map index (take (prioSize p) (prioArr p)))" "prioSize p \<le> length (prioArr p)"
    using assms(1) by (simp_all add: pq_inv_def is_heap_def)
  show n: "prioSize p \<noteq> 0" using assms(2) by (auto simp: dom_pmap)
  have root: "prioArr p ! 0 \<in> set (take (prioSize p) (prioArr p))" using n i(3) by (auto simp: set_take_nth)
  then show "pmap p (index (peekHeap (prioArr p))) = Some (priority (peekHeap (prioArr p)))"
    by (simp add: pmap_Some [OF i(2)] peekHeap_def)
  show "priority (peekHeap (prioArr p)) \<le> x" if x: "pmap p k = Some x"
  proof -
    obtain j where "j < prioSize p" "prioArr p ! j = \<lparr>index = k, priority = x\<rparr>"
      using x i(3) by (auto simp: pmap_Some [OF i(2)] set_take_nth)
    with heap_root_min [OF i(1), of j] show ?thesis by (simp add: peekHeap_def)
  qed
qed

lemma max_prio_map:
  assumes "pq_inv p" "pmap p k = Some x"
  shows "x \<le> max_prio p"
proof -
  have i: "is_heap (prioArr p) (prioSize p)" "distinct (map index (take (prioSize p) (prioArr p)))" "prioSize p \<le> length (prioArr p)"
    using assms(1) by (simp_all add: pq_inv_def is_heap_def)
  obtain j where j: "j < prioSize p" "prioArr p ! j = \<lparr>index = k, priority = x\<rparr>"
    using assms(2) i(3) by (auto simp: pmap_Some [OF i(2)] set_take_nth)
  then show ?thesis using findMaxElementIndex_max(2) [OF i(1), of j] by (simp add: max_prio_def)
qed

lemma max_prio_attained:
  assumes "pq_inv p" "dom (pmap p) \<noteq> {}"
  shows "max_prio p \<in> ran (pmap p)"
proof -
  have i: "is_heap (prioArr p) (prioSize p)" "distinct (map index (take (prioSize p) (prioArr p)))" "prioSize p \<le> length (prioArr p)"
    using assms(1) by (simp_all add: pq_inv_def is_heap_def)
  let ?j = "findMaxElementIndex (prioArr p) (prioSize p)"
  have "?j < prioSize p" using findMaxElementIndex_max(1) [OF i(1)] peek_map(1) [OF assms] by simp
  then have "prioArr p ! ?j \<in> set (take (prioSize p) (prioArr p))" using i(3) by (auto simp: set_take_nth)
  then have "pmap p (index (prioArr p ! ?j)) = Some (max_prio p)" by (simp add: pmap_Some [OF i(2)] max_prio_def)
  then show ?thesis by (rule ranI)
qed

lemma max_prio_empty: "prioSize p = 0 \<Longrightarrow> max_prio p = priority (prioArr p ! 0)"
  by (simp add: max_prio_def findMaxElementIndex_def scan_max.simps)

lemma dequeue_last: "prioSize p = 1 \<Longrightarrow> prioArr (dequeue k p) ! 0 = prioArr p ! 0"
  by (simp add: dequeue_def deleteRoot_def Let_def scan_index.simps swapHeapNode_def)

section \<open>SCFIFO refines a queue\<close>

text \<open>
  The pages in order of eviction, with priorities bounded by \<open>b\<close>. The priority of a page that
  enters an empty queue is computed from the stale root of the array.
\<close>

definition fifo :: "nat \<Rightarrow> proc \<Rightarrow> int list \<Rightarrow> bool" where
  "fifo b p ys \<longleftrightarrow> pq_inv p \<and> distinct ys \<and> dom (pmap p) = set ys \<and> sorted_wrt (\<lambda>j k. the (pmap p j) < the (pmap p k)) ys \<and>
     (\<forall>x\<in>ran (pmap p). unat x \<le> b) \<and> (ys = [] \<longrightarrow> unat (priority (prioArr p ! 0) + 1) \<le> b + 1)"

lemma sorted_wrt_remove1: "sorted_wrt R xs \<Longrightarrow> sorted_wrt R (remove1 x xs)"
  by (induction xs) (auto dest: notin_set_remove1)

lemma unat_Suc_le: "unat (x :: uint) \<le> b \<Longrightarrow> unat (x + 1) \<le> b + 1"
  using mod_less_eq_dividend [of "unat x + 1" "2 ^ 32"] by (simp add: unat_word_ariths)

lemma fifo_remove:
  assumes "fifo b p ys"
  shows "fifo b (dequeue k p) (remove1 k ys)"
proof -
  have i: "pq_inv p" and d: "distinct ys" "dom (pmap p) = set ys" and s: "sorted_wrt (\<lambda>j k. the (pmap p j) < the (pmap p k)) ys"
    and b: "\<forall>x\<in>ran (pmap p). unat x \<le> b" and e: "ys = [] \<longrightarrow> unat (priority (prioArr p ! 0) + 1) \<le> b + 1"
    using assms by (simp_all add: fifo_def)
  note q = dequeue_map [OF i, of k]
  have "sorted_wrt (\<lambda>j k. the (pmap p j) < the (pmap p k)) (remove1 k ys)" using s by (simp add: sorted_wrt_remove1)
  then have "sorted_wrt (\<lambda>j l. the (pmap (dequeue k p) j) < the (pmap (dequeue k p) l)) (remove1 k ys)"
    by (rule sorted_wrt_mono_rel [rotated]) (use d(1) q(2) in auto)
  moreover have "dom (pmap (dequeue k p)) = set (remove1 k ys)" using d q(2) by auto
  moreover have "\<forall>x\<in>ran (pmap (dequeue k p)). unat x \<le> b" using b by (auto simp: q(2) ran_def split: if_splits)
  moreover have "unat (priority (prioArr (dequeue k p) ! 0) + 1) \<le> b + 1" if empty: "remove1 k ys = []"
  proof (cases "ys = []")
    case True
    then have "prioSize p = 0" using d(2) pq_size(1) [OF i] by simp
    then have "dequeue k p = p" by (simp add: dequeue_def deleteRoot_def Let_def scan_index.simps)
    then show ?thesis using e True by simp
  next
    case False
    then have ys: "ys = [k]" using empty by (cases ys) (auto split: if_splits)
    then have "prioSize p = 1" using d(2) pq_size(1) [OF i] by simp
    moreover have "priority (prioArr p ! 0) \<in> ran (pmap p)"
      using peek_map(2) [OF i] d(2) ys by (auto simp: peekHeap_def intro: ranI)
    ultimately have "unat (priority (prioArr (dequeue k p) ! 0)) \<le> b" using b dequeue_last by auto
    then show ?thesis by (rule unat_Suc_le)
  qed
  ultimately show ?thesis using q(1) d(1) by (simp add: fifo_def)
qed

lemma fifo_append:
  assumes "fifo b p ys" "k \<notin> set ys" "0 \<le> k" "k < int MAX_PSYC_PAGES" "b + 1 < 2 ^ 32"
  shows "\<exists>p'. enqueue \<lparr>index = k, priority = max_prio p + 1\<rparr> p = Inr p' \<and> fifo (b + 1) p' (ys @ [k])"
proof -
  let ?m = "max_prio p + 1"
  have i: "pq_inv p" and d: "distinct ys" "dom (pmap p) = set ys" and s: "sorted_wrt (\<lambda>j k. the (pmap p j) < the (pmap p k)) ys"
    and b: "\<forall>x\<in>ran (pmap p). unat x \<le> b" and e: "ys = [] \<longrightarrow> unat (priority (prioArr p ! 0) + 1) \<le> b + 1"
    using assms(1) by (simp_all add: fifo_def)
  have m: "unat ?m \<le> b + 1 \<and> (\<forall>x\<in>ran (pmap p). x < ?m)"
  proof (cases "ys = []")
    case True
    then show ?thesis using d(2) pq_size(1) [OF i] e by (simp add: max_prio_empty ran_def)
  next
    case False
    then have "unat (max_prio p) \<le> b" using max_prio_attained [OF i] b d(2) by auto
    then have u: "unat ?m = unat (max_prio p) + 1" using assms(5) by (simp add: unat_word_ariths)
    moreover have "x < ?m" if "x \<in> ran (pmap p)" for x
    proof -
      have "x \<le> max_prio p" using that max_prio_map [OF i] by (auto simp: ran_def)
      then show ?thesis using u by (simp add: word_less_nat_alt word_le_nat_alt)
    qed
    ultimately show ?thesis using \<open>unat (max_prio p) \<le> b\<close> by simp
  qed
  obtain q where q: "enqueue \<lparr>index = k, priority = ?m\<rparr> p = Inr q" "pq_inv q" "pmap q = (pmap p)(k \<mapsto> ?m)"
    using enqueue_map [OF i, of "\<lparr>index = k, priority = ?m\<rparr>"] assms(2-4) d(2) by auto
  have "sorted_wrt (\<lambda>j l. the (pmap q j) < the (pmap q l)) ys"
    by (rule sorted_wrt_mono_rel [OF _ s]) (use assms(2) q(3) in auto)
  moreover have "the (pmap q j) < the (pmap q k)" if "j \<in> set ys" for j
  proof -
    have "j \<in> dom (pmap p)" using that d(2) by simp
    then obtain x where x: "pmap p j = Some x" by blast
    then have "x < ?m" using m by (auto intro: ranI)
    then show ?thesis using x that assms(2) q(3) by auto
  qed
  ultimately have "sorted_wrt (\<lambda>j l. the (pmap q j) < the (pmap q l)) (ys @ [k])" by (simp add: sorted_wrt_append)
  moreover have "\<forall>x\<in>ran (pmap q). unat x \<le> b + 1" using b m assms(2) d(2) by (auto simp: q(3) ran_def split: if_splits)
  ultimately have "fifo (b + 1) q (ys @ [k])" using q(2,3) d assms(2) by (auto simp: fifo_def)
  with q(1) show ?thesis by blast
qed

lemma fifo_find:
  assumes f: "fifo b p ys" and k: "k \<noteq> - 1"
  shows "\<exists>h a. findInHeap (prioArr p) k (prioSize p) = Inr (h, a, prioSize p) \<and> (index h \<noteq> - 1 \<longleftrightarrow> k \<in> set ys) \<and>
    fifo b (p\<lparr>prioArr := a, prioSize := prioSize p\<rparr>) ys"
proof -
  have i: "pq_inv p" and d: "dom (pmap p) = set ys" using f by (simp_all add: fifo_def)
  obtain h a where h: "findInHeap (prioArr p) k (prioSize p) = Inr (h, a, prioSize p)" "index h \<noteq> - 1 \<longleftrightarrow> k \<in> dom (pmap p)"
    "k \<notin> dom (pmap p) \<Longrightarrow> a = prioArr p" "pq_inv (p\<lparr>prioArr := a, prioSize := prioSize p\<rparr>)"
    "pmap (p\<lparr>prioArr := a, prioSize := prioSize p\<rparr>) = pmap p"
    using find_map [OF i k] by blast
  have "fifo b (p\<lparr>prioArr := a, prioSize := prioSize p\<rparr>) ys"
    unfolding fifo_def h(5) using f h(3,4) d by (auto simp: fifo_def)
  with h(1,2) d show ?thesis by blast
qed

lemma fifo_insert:
  assumes f: "fifo b p ys" and k: "0 \<le> k" "k < int MAX_PSYC_PAGES" and b: "b + 1 < 2 ^ 32"
  shows "\<exists>p'. insertPageToPrioQueue SCFIFO k p = Inr p' \<and> fifo (b + 1) p' (remove1 k ys @ [k]) \<and> ramPmd p' = ramPmd p"
proof -
  obtain h a where h: "findInHeap (prioArr p) k (prioSize p) = Inr (h, a, prioSize p)" "index h \<noteq> - 1 \<longleftrightarrow> k \<in> set ys"
    "fifo b (p\<lparr>prioArr := a, prioSize := prioSize p\<rparr>) ys" using fifo_find [OF f, of k] k by auto
  let ?p1 = "p\<lparr>prioArr := a, prioSize := prioSize p\<rparr>"
  define p2 where "p2 = (if index h \<noteq> - 1 then dequeue k ?p1 else ?p1)"
  have f2: "fifo b p2 (remove1 k ys)" using fifo_remove [OF h(3), of k] h(2,3) by (simp add: p2_def remove1_idem)
  have d: "distinct ys" using f by (simp add: fifo_def)
  obtain q where q: "enqueue \<lparr>index = k, priority = max_prio p2 + 1\<rparr> p2 = Inr q" "fifo (b + 1) q (remove1 k ys @ [k])"
    using fifo_append [OF f2 _ k b] d by auto
  have "ramPmd q = ramPmd p2" using q(1) by (auto simp: enqueue_def rbind_eq_Inr)
  moreover have "ramPmd p2 = ramPmd p" by (simp add: p2_def dequeue_def split: prod.splits)
  moreover have "insertPageToPrioQueue SCFIFO k p = Inr q"
    using h(1) q(1) by (simp add: insertPageToPrioQueue_def Let_def p2_def)
  ultimately show ?thesis using q(2) by auto
qed

lemma fifo_requeue:
  assumes f: "fifo b p ys" and k: "0 \<le> k" "k < int MAX_PSYC_PAGES" and b: "b + 1 < 2 ^ 32" and o: "occupied (ramPmd p ! nat k)"
  shows "\<exists>p'. requeue_last k p = Inr p' \<and> fifo (b + 1) p' (remove1 k ys @ [k]) \<and> ramPmd p' = ramPmd p"
proof -
  have d: "distinct ys" using f by (simp add: fifo_def)
  obtain q where q: "enqueue \<lparr>index = k, priority = max_prio (dequeue k p) + 1\<rparr> (dequeue k p) = Inr q" "fifo (b + 1) q (remove1 k ys @ [k])"
    using fifo_append [OF fifo_remove [OF f, of k] _ k b] d by auto
  have "ramPmd q = ramPmd (dequeue k p)" using q(1) by (auto simp: enqueue_def rbind_eq_Inr)
  moreover have "ramPmd (dequeue k p) = ramPmd p" by (simp add: dequeue_def split: prod.splits)
  ultimately show ?thesis using q o by (auto simp: requeue_last_def)
qed

lemma fifo_victim:
  assumes "fifo b p (y # ys)"
  shows "prioSize p \<noteq> 0" "index (peekHeap (prioArr p)) = y" "fifo b (dequeue y p) ys"
proof -
  have i: "pq_inv p" and d: "dom (pmap p) = set (y # ys)" and s: "\<And>k. k \<in> set ys \<Longrightarrow> the (pmap p y) < the (pmap p k)"
    using assms by (simp_all add: fifo_def)
  let ?k = "index (peekHeap (prioArr p))"
  have ne: "dom (pmap p) \<noteq> {}" using d by simp
  show "prioSize p \<noteq> 0" by (rule peek_map(1) [OF i ne])
  have k: "pmap p ?k = Some (priority (peekHeap (prioArr p)))" by (rule peek_map(2) [OF i ne])
  have "y \<in> dom (pmap p)" using d by simp
  then obtain x where x: "pmap p y = Some x" by blast
  show "?k = y"
  proof (rule ccontr)
    assume "?k \<noteq> y"
    then have "?k \<in> set ys" using k d by (metis domI set_ConsD)
    from s [OF this] k x peek_map(3) [OF i ne x] show False by simp
  qed
  show "fifo b (dequeue y p) ys" using fifo_remove [OF assms, of y] by simp
qed

text \<open>
  A page enters the queue, is found accessed by the periodic scan, or is evicted (chosen by
  \<^verbatim>\<open>getPageIndex\<close> and taken out by \<^verbatim>\<open>pageToSwapFile\<close>), in the code and in a plain queue of pages.
\<close>

datatype qop = Insert int | Access int | Evict

primrec scfifo_op :: "qop \<Rightarrow> proc \<Rightarrow> (int list \<times> proc) res" where
  "scfifo_op (Insert k) p = rbind (insertPageToPrioQueue SCFIFO k p) (\<lambda>q. Inr ([], q))"
| "scfifo_op (Access k) p = rbind (requeue_last k p) (\<lambda>q. Inr ([], q))"
| "scfifo_op Evict p =
     (if prioSize p = 0 then Inr ([], p) else let k = index (peekHeap (prioArr p)) in Inr ([k], dequeue k p))"

primrec scfifo_run :: "qop list \<Rightarrow> proc \<Rightarrow> (int list \<times> proc) res" where
  "scfifo_run [] p = Inr ([], p)"
| "scfifo_run (c # cs) p = rbind (scfifo_op c p) (\<lambda>(out, q). rbind (scfifo_run cs q) (\<lambda>(outs, q'). Inr (out @ outs, q')))"

primrec queue_op :: "qop \<Rightarrow> int list \<Rightarrow> int list \<times> int list" where
  "queue_op (Insert k) ys = ([], remove1 k ys @ [k])"
| "queue_op (Access k) ys = ([], remove1 k ys @ [k])"
| "queue_op Evict ys = (take 1 ys, drop 1 ys)"

primrec queue_run :: "qop list \<Rightarrow> int list \<Rightarrow> int list \<times> int list" where
  "queue_run [] ys = ([], ys)"
| "queue_run (c # cs) ys = (case queue_op c ys of (out, ys1) \<Rightarrow> case queue_run cs ys1 of (outs, ys2) \<Rightarrow> (out @ outs, ys2))"

definition qop_ok :: "proc \<Rightarrow> qop \<Rightarrow> bool" where
  "qop_ok p c = (case c of Evict \<Rightarrow> True | Insert k \<Rightarrow> 0 \<le> k \<and> k < int MAX_PSYC_PAGES
     | Access k \<Rightarrow> 0 \<le> k \<and> k < int MAX_PSYC_PAGES \<and> occupied (ramPmd p ! nat k))"

lemma fifo_mono: "fifo b p ys \<Longrightarrow> b \<le> c \<Longrightarrow> fifo c p ys"
  by (auto simp: fifo_def intro: order_trans)

lemma scfifo_step:
  assumes f: "fifo b p ys" and ok: "qop_ok p c" and b: "b + 1 < 2 ^ 32"
  shows "\<exists>q. scfifo_op c p = Inr (fst (queue_op c ys), q) \<and> fifo (b + 1) q (snd (queue_op c ys)) \<and> ramPmd q = ramPmd p"
proof (cases c)
  case (Insert k)
  then show ?thesis using fifo_insert [OF f _ _ b, of k] ok by (auto simp: qop_ok_def)
next
  case (Access k)
  then show ?thesis using fifo_requeue [OF f _ _ b, of k] ok by (auto simp: qop_ok_def)
next
  case Evict
  show ?thesis
  proof (cases ys)
    case Nil
    have "dom (pmap p) = {}" "pq_inv p" using f Nil by (simp_all add: fifo_def)
    then have "prioSize p = 0" using pq_size(1) by simp
    then show ?thesis using Evict Nil f fifo_mono [OF f, of "b + 1"] by simp
  next
    case (Cons y zs)
    note v = fifo_victim [OF f [unfolded Cons]]
    have "ramPmd (dequeue y p) = ramPmd p" by (simp add: dequeue_def split: prod.splits)
    then show ?thesis using Evict Cons v fifo_mono [OF v(3), of "b + 1"] by simp
  qed
qed

lemma scfifo_runs:
  assumes "fifo b p ys" "\<forall>c\<in>set cs. qop_ok p c" "b + length cs < 2 ^ 32"
  shows "\<exists>q. scfifo_run cs p = Inr (fst (queue_run cs ys), q) \<and> fifo (b + length cs) q (snd (queue_run cs ys))"
  using assms
proof (induction cs arbitrary: b p ys)
  case (Cons c cs)
  obtain q where q: "scfifo_op c p = Inr (fst (queue_op c ys), q)" "fifo (b + 1) q (snd (queue_op c ys))" "ramPmd q = ramPmd p"
    using scfifo_step [OF Cons.prems(1), of c] Cons.prems(2,3) by auto
  have "\<forall>c\<in>set cs. qop_ok q c" using Cons.prems(2) q(3) by (auto simp: qop_ok_def split: qop.splits)
  from Cons.IH [OF q(2) this] Cons.prems(3) q(1) show ?case by (auto split: prod.splits)
qed simp


text \<open>The queue of a process just created, with two resident pages.\<close>

definition fresh_queue :: proc where
  "fresh_queue = proc0\<lparr>prioArr := replicate MAX_PRIO_ARR no_node, prioSize := 0,
     ramPmd := replicate MAX_PSYC_PAGES \<lparr>pmd_va = 0, occupied = True, pmd_pgdir = 0, pmd_offset = 0, age = 0\<rparr>\<rparr>"

lemma fresh_queue_fifo: "fifo 0 fresh_queue []"
  by (simp add: fifo_def pq_inv_def pmap_def pairs_def fresh_queue_def is_heap_def heap_from_def no_node_def)


section \<open>Every policy keeps the queue well formed\<close>

lemma set_age_pq: "pq_inv (set_age k a p) \<longleftrightarrow> pq_inv p" "pmap (set_age k a p) = pmap p"
    "length (ramPmd (set_age k a p)) = length (ramPmd p)" "j < length (ramPmd p) \<Longrightarrow> occupied (ramPmd (set_age k a p) ! j) = occupied (ramPmd p ! j)"
  by (simp_all add: set_age_def pq_inv_def pmap_def) (cases "j = nat k"; simp)

text \<open>The metadata array is untouched, up to ages.\<close>

definition same_pages :: "proc \<Rightarrow> proc \<Rightarrow> bool" where
  "same_pages p q \<longleftrightarrow> length (ramPmd q) = length (ramPmd p) \<and> (\<forall>j<length (ramPmd p). occupied (ramPmd q ! j) = occupied (ramPmd p ! j))"

lemma same_pages_queue: "same_pages p (p\<lparr>prioArr := a, prioSize := n\<rparr>)" "same_pages p (dequeue k p)" "same_pages p (set_age k x p)"
    "same_pages p (p\<lparr>prioArr := a\<rparr>)"
  by (simp_all add: same_pages_def dequeue_def set_age_pq split: prod.splits)

lemma same_pages_trans: "same_pages p q \<Longrightarrow> same_pages q r \<Longrightarrow> same_pages p r"
  by (simp add: same_pages_def)

text \<open>Removing a page and putting it back with another priority.\<close>

lemma requeue_map:
  assumes "pq_inv p" "k \<notin> dom (pmap p)" "0 \<le> k" "k < int MAX_PSYC_PAGES"
  shows "\<exists>q. enqueue \<lparr>index = k, priority = x\<rparr> p = Inr q \<and> pq_inv q \<and> pmap q = (pmap p)(k \<mapsto> x) \<and> same_pages p q"
  using enqueue_map [of p "\<lparr>index = k, priority = x\<rparr>"] assms same_pages_queue(1) by fastforce

text \<open>What each policy records for a page that enters the queue.\<close>

definition entry_prio :: "policy \<Rightarrow> int \<Rightarrow> (int \<rightharpoonup> uint) \<Rightarrow> uint option \<Rightarrow> bool" where
  "entry_prio pol k m v \<longleftrightarrow>
     (case pol of NONE \<Rightarrow> v = None | NFUA \<Rightarrow> v = Some 0 | LAPA \<Rightarrow> v = Some (countSetBits 0xFFFFFFFF)
      | _ \<Rightarrow> \<exists>x. v = Some (x + 1) \<and> (\<forall>j y. j \<noteq> k \<longrightarrow> m j = Some y \<longrightarrow> y \<le> x))"

lemma insert_map:
  assumes i: "pq_inv p" and k: "0 \<le> k" "k < int MAX_PSYC_PAGES"
  shows "\<exists>q v. insertPageToPrioQueue pol k p = Inr q \<and> pq_inv q \<and> pmap q = (pmap p)(k := v) \<and> entry_prio pol k (pmap p) v \<and> same_pages p q"
proof -
  obtain h a where h: "findInHeap (prioArr p) k (prioSize p) = Inr (h, a, prioSize p)" "index h \<noteq> - 1 \<longleftrightarrow> k \<in> dom (pmap p)"
    "pq_inv (p\<lparr>prioArr := a, prioSize := prioSize p\<rparr>)" "pmap (p\<lparr>prioArr := a, prioSize := prioSize p\<rparr>) = pmap p"
    using find_map [OF i, of k] k by auto
  let ?p1 = "p\<lparr>prioArr := a, prioSize := prioSize p\<rparr>"
  define p2 where "p2 = (if index h \<noteq> - 1 then dequeue k ?p1 else ?p1)"
  have p2: "pq_inv p2" "pmap p2 = (pmap p)(k := None)" "same_pages p p2"
    using dequeue_map [OF h(3), of k] h same_pages_queue(1,4) same_pages_trans [OF same_pages_queue(1) same_pages_queue(2)]
    by (auto simp: p2_def fun_eq_iff domIff)
  have run: "insertPageToPrioQueue c k p = (case c of
          NONE \<Rightarrow> Inr p2
        | NFUA \<Rightarrow> if ram_ok k p2 then enqueue \<lparr>index = k, priority = 0\<rparr> (set_age k 0 p2) else Inl (Undef ''ramPmd'')
        | LAPA \<Rightarrow> if ram_ok k p2 then enqueue \<lparr>index = k, priority = countSetBits 0xFFFFFFFF\<rparr> (set_age k 0xFFFFFFFF p2)
                  else Inl (Undef ''ramPmd'')
        | SCFIFO \<Rightarrow> enqueue \<lparr>index = k, priority = max_prio p2 + 1\<rparr> p2
        | AQ \<Rightarrow> enqueue \<lparr>index = k, priority = max_prio p2 + 1\<rparr> p2)" for c
    unfolding insertPageToPrioQueue_def h(1) p2_def by (simp only: Let_def rbind_simps prod.case)
  have ram: "ram_ok k p2" using k p2(1) by (simp add: ram_ok_def pq_inv_def)
  have nk: "k \<notin> dom (pmap p2)" by (simp add: p2(2))
  have big: "y \<le> max_prio p2" if "j \<noteq> k" "pmap p j = Some y" for j y
    using max_prio_map [OF p2(1), of j y] that by (simp add: p2(2))
  note rq = requeue_map [OF p2(1) nk k]
  have aged: "\<exists>q. enqueue \<lparr>index = k, priority = x\<rparr> (set_age k y p2) = Inr q \<and> pq_inv q \<and> pmap q = (pmap p)(k \<mapsto> x) \<and> same_pages p q" for x y
  proof -
    have "pq_inv (set_age k y p2)" "k \<notin> dom (pmap (set_age k y p2))" using p2(1) nk by (simp_all add: set_age_pq)
    from requeue_map [OF this k, of x] obtain q where q: "enqueue \<lparr>index = k, priority = x\<rparr> (set_age k y p2) = Inr q" "pq_inv q"
      "pmap q = (pmap (set_age k y p2))(k \<mapsto> x)" "same_pages (set_age k y p2) q" by blast
    have "same_pages p q" by (rule same_pages_trans [OF same_pages_trans [OF p2(3) same_pages_queue(3)] q(4)])
    moreover have "pmap q = (pmap p)(k \<mapsto> x)" unfolding q(3) set_age_pq p2(2) by simp
    ultimately show ?thesis using q(1,2) by blast
  qed
  have plain: "\<exists>q. enqueue \<lparr>index = k, priority = x\<rparr> p2 = Inr q \<and> pq_inv q \<and> pmap q = (pmap p)(k \<mapsto> x) \<and> same_pages p q" for x
    using rq [of x] p2(2) same_pages_trans [OF p2(3)] by auto
  have fin: ?thesis if "entry_prio pol k (pmap p) v"
      "\<exists>q. insertPageToPrioQueue pol k p = Inr q \<and> pq_inv q \<and> pmap q = (pmap p)(k := v) \<and> same_pages p q" for v
    using that by blast
  consider "pol = NONE" | "pol = NFUA" | "pol = LAPA" | "pol = SCFIFO \<or> pol = AQ" by (cases pol) auto
  then show ?thesis
  proof cases
    case 1
    then have "insertPageToPrioQueue pol k p = Inr p2" by (simp add: run)
    with p2 show ?thesis by (intro fin [of None]) (simp_all add: entry_prio_def 1)
  next
    case 2
    then have "insertPageToPrioQueue pol k p = enqueue \<lparr>index = k, priority = 0\<rparr> (set_age k 0 p2)" using ram by (simp add: run)
    with aged [of 0 0] show ?thesis by (intro fin [of "Some 0"]) (simp_all add: entry_prio_def 2)
  next
    case 3
    then have "insertPageToPrioQueue pol k p = enqueue \<lparr>index = k, priority = countSetBits 0xFFFFFFFF\<rparr> (set_age k 0xFFFFFFFF p2)"
      using ram by (simp add: run)
    with aged [of "countSetBits 0xFFFFFFFF" "0xFFFFFFFF"] show ?thesis
      by (intro fin [of "Some (countSetBits 0xFFFFFFFF)"]) (simp_all add: entry_prio_def 3)
  next
    case 4
    then have "insertPageToPrioQueue pol k p = enqueue \<lparr>index = k, priority = max_prio p2 + 1\<rparr> p2" by (auto simp: run)
    moreover have "entry_prio pol k (pmap p) (Some (max_prio p2 + 1))" using 4 big by (auto simp: entry_prio_def)
    ultimately show ?thesis using plain [of "max_prio p2 + 1"] by (intro fin [of "Some (max_prio p2 + 1)"]) simp_all
  qed
qed

definition aged :: "bool \<Rightarrow> int \<Rightarrow> proc \<Rightarrow> uint" where
  "aged accessed k p = shiftCounter (if accessed then 1 else 0) (ramPmd p ! nat k)"

lemma age_map:
  assumes i: "pq_inv p" and k: "0 \<le> k" "k < int MAX_PSYC_PAGES" and o: "occupied (ramPmd p ! nat k)"
  shows "\<exists>q. requeue_aged prio k acc p = Inr q \<and> pq_inv q \<and> pmap q = (pmap p)(k \<mapsto> prio (aged acc k p)) \<and> same_pages p q \<and>
    (\<forall>j. j \<noteq> nat k \<longrightarrow> ramPmd q ! j = ramPmd p ! j)"
proof -
  note d = dequeue_map [OF i, of k]
  have r: "ramPmd (dequeue k p) = ramPmd p" by (simp add: dequeue_def split: prod.splits)
  let ?a = "aged acc k p" and ?p = "set_age k (aged acc k p) (dequeue k p)"
  have "pq_inv ?p" "k \<notin> dom (pmap ?p)" using d by (simp_all add: set_age_pq)
  from requeue_map [OF this k, of "prio ?a"] enqueue_map [OF this(1), of "\<lparr>index = k, priority = prio ?a\<rparr>"] this(2) k
  obtain q where q: "enqueue \<lparr>index = k, priority = prio ?a\<rparr> ?p = Inr q" "pq_inv q" "pmap q = (pmap ?p)(k \<mapsto> prio ?a)"
    "same_pages ?p q" "ramPmd q = ramPmd ?p" by auto
  have "requeue_aged prio k acc p = Inr q" using q(1) o r by (simp add: requeue_aged_def Let_def aged_def)
  moreover have "pmap q = (pmap p)(k \<mapsto> prio ?a)" by (simp add: q(3) set_age_pq d(2))
  moreover have "same_pages p q" by (rule same_pages_trans [OF same_pages_trans [OF same_pages_queue(2,3)] q(4)])
  moreover have "\<forall>j. j \<noteq> nat k \<longrightarrow> ramPmd q ! j = ramPmd p ! j" by (simp add: q(5) set_age_def r)
  ultimately show ?thesis using q(2) by blast
qed

lemma touch_map:
  assumes i: "pq_inv p" and k: "0 \<le> k" "k < int MAX_PSYC_PAGES" and o: "occupied (ramPmd p ! nat k)"
  shows "\<exists>q. requeue_last k p = Inr q \<and> pq_inv q \<and> same_pages p q"
proof -
  note d = dequeue_map [OF i, of k]
  obtain q where "enqueue \<lparr>index = k, priority = max_prio (dequeue k p) + 1\<rparr> (dequeue k p) = Inr q" "pq_inv q" "same_pages (dequeue k p) q"
    using requeue_map [OF d(1) _ k, of "max_prio (dequeue k p) + 1"] d(2) by auto
  then show ?thesis using o same_pages_trans [OF same_pages_queue(2)] by (auto simp: requeue_last_def)
qed

text \<open>The operations of the paging code on the queue of a process.\<close>

datatype pqop = QInsert policy int | QAge bool int bool | QTouch int | QRemove int

primrec pq_op :: "pqop \<Rightarrow> proc \<Rightarrow> proc res" where
  "pq_op (QInsert pol k) p = insertPageToPrioQueue pol k p"
| "pq_op (QAge lapa k acc) p = requeue_aged (if lapa then countSetBits else id) k acc p"
| "pq_op (QTouch k) p = requeue_last k p"
| "pq_op (QRemove k) p = Inr (dequeue k p)"

primrec pq_page :: "pqop \<Rightarrow> int" where
  "pq_page (QInsert pol k) = k"
| "pq_page (QAge lapa k acc) = k"
| "pq_page (QTouch k) = k"
| "pq_page (QRemove k) = k"

definition resident :: "proc \<Rightarrow> int \<Rightarrow> bool" where
  "resident p k \<longleftrightarrow> 0 \<le> k \<and> k < int MAX_PSYC_PAGES \<and> occupied (ramPmd p ! nat k)"

lemma same_pages_resident: "same_pages p q \<Longrightarrow> pq_inv p \<Longrightarrow> resident q k = resident p k"
  by (auto simp: resident_def same_pages_def pq_inv_def)

lemma pq_op_safe:
  assumes "pq_inv p" "resident p (pq_page c)"
  shows "\<exists>q. pq_op c p = Inr q \<and> pq_inv q \<and> same_pages p q"
proof (cases c)
  case (QInsert pol k)
  then show ?thesis using insert_map [OF assms(1), of k pol] assms(2) by (auto simp: resident_def)
next
  case (QAge lapa k acc)
  then show ?thesis using age_map [OF assms(1), of k "if lapa then countSetBits else id" acc] assms(2) by (auto simp: resident_def)
next
  case (QTouch k)
  then show ?thesis using touch_map [OF assms(1), of k] assms(2) by (auto simp: resident_def)
next
  case (QRemove k)
  then show ?thesis using dequeue_map(1) [OF assms(1)] same_pages_queue(2) by simp
qed



section \<open>Aging\<close>

lemma age_all:
  assumes "pq_inv p" "\<forall>k\<in>set ks. resident p k" "distinct ks"
  shows "\<exists>q. rfold (\<lambda>k. requeue_aged prio k (acc k)) ks p = Inr q \<and> pq_inv q \<and>
    pmap q = (\<lambda>k. if k \<in> set ks then Some (prio (aged (acc k) k p)) else pmap p k)"
  using assms
proof (induction ks arbitrary: p)
  case (Cons k ks)
  have k: "0 \<le> k" "k < int MAX_PSYC_PAGES" "occupied (ramPmd p ! nat k)" using Cons.prems(2) by (auto simp: resident_def)
  obtain q where q: "requeue_aged prio k (acc k) p = Inr q" "pq_inv q" "pmap q = (pmap p)(k \<mapsto> prio (aged (acc k) k p))"
    "same_pages p q" "\<And>j. j \<noteq> nat k \<Longrightarrow> ramPmd q ! j = ramPmd p ! j"
    using age_map [OF Cons.prems(1) k, of prio "acc k"] by blast
  have r: "\<forall>j\<in>set ks. resident q j" using Cons.prems(1,2) same_pages_resident [OF q(4)] by simp
  from Cons.IH [OF q(2) r] Cons.prems(3) obtain t where t: "rfold (\<lambda>k. requeue_aged prio k (acc k)) ks q = Inr t" "pq_inv t"
    "pmap t = (\<lambda>j. if j \<in> set ks then Some (prio (aged (acc j) j q)) else pmap q j)" by auto
  have "aged (acc j) j q = aged (acc j) j p" if "j \<in> set ks" for j
  proof -
    have "0 \<le> j" "j \<noteq> k" using that Cons.prems(2,3) by (auto simp: resident_def)
    then show ?thesis using q(5) [of "nat j"] k(1) by (simp add: aged_def)
  qed
  then have "pmap t = (\<lambda>j. if j \<in> set (k # ks) then Some (prio (aged (acc j) j p)) else pmap p j)"
    using Cons.prems(3) by (auto simp: t(3) q(3) fun_eq_iff)
  then show ?case using q(1) t(1,2) by simp
qed simp

lemma aged_accessed: "aged False k q < aged True j p"
proof -
  have top: "\<not> bit (drop_bit 1 a) n" if "31 \<le> n" for a :: uint and n using that by (auto simp: bit_drop_bit_eq dest: bit_imp_le_length)
  have "take_bit 31 (drop_bit 1 a) = drop_bit 1 a" for a :: uint
  proof (rule bit_word_eqI)
    show "bit (take_bit 31 (drop_bit 1 a)) n = bit (drop_bit 1 a) n" for n
      using top [of n a] by (cases "n < 31") (simp_all add: bit_take_bit_iff)
  qed
  then have "aged False k q = take_bit 31 (aged False k q)" by (simp add: aged_def shiftCounter_def)
  then have "unat (aged False k q) < 2 ^ 31"
    using take_bit_nat_less_exp [of 31 "unat (aged False k q)"] by (metis unsigned_take_bit_eq)
  moreover have "2 ^ 31 \<le> unat (aged True j p)"
  proof -
    have "bit (aged True j p) 31" by (simp add: aged_def shiftCounter_def bit_or_iff bit_push_bit_iff)
    then have "bit (unat (aged True j p)) 31" by (simp only: bit_unsigned_iff) simp
    then have "odd (unat (aged True j p) div 2 ^ 31)" by (simp only: bit_iff_odd simp_thms)
    then show ?thesis by (metis div_less even_zero not_le)
  qed
  ultimately show ?thesis by (simp add: word_less_nat_alt)
qed

text \<open>
  C32. NFUA and LAPA evict by age. After one scan of the resident pages, in which the age of each is
  shifted right and its access bit comes in at the top, the page at the root of the queue is
  a resident page whose priority (the age itself for NFUA, the number of its one bits for
  LAPA) is the smallest of all. Under NFUA it is a page that was not accessed since the last
  scan, if there is one.
\<close>

theorem aging_victim_minimal:
  assumes "pq_inv p" "dom (pmap p) \<subseteq> set ks" "\<forall>k\<in>set ks. resident p k" "distinct ks" "ks \<noteq> []"
  shows "\<exists>q v. rfold (\<lambda>k. requeue_aged (if lapa then countSetBits else id) k (acc k)) ks p = Inr q \<and> pq_inv q \<and>
    v = index (peekHeap (prioArr q)) \<and> v \<in> set ks \<and>
    (\<forall>k\<in>set ks. (if lapa then countSetBits else id) (aged (acc v) v p) \<le> (if lapa then countSetBits else id) (aged (acc k) k p)) \<and>
    (\<not> lapa \<and> (\<exists>k\<in>set ks. \<not> acc k) \<longrightarrow> \<not> acc v)"
proof -
  let ?f = "if lapa then countSetBits else id"
  obtain q where q: "rfold (\<lambda>k. requeue_aged ?f k (acc k)) ks p = Inr q" "pq_inv q"
    "pmap q = (\<lambda>k. if k \<in> set ks then Some (?f (aged (acc k) k p)) else pmap p k)"
    using age_all [OF assms(1,3,4), of ?f acc] by blast
  have dom: "dom (pmap q) = set ks" using assms(2) unfolding q(3) dom_def by auto
  let ?v = "index (peekHeap (prioArr q))"
  have ne: "dom (pmap q) \<noteq> {}" using dom assms(5) by simp
  note pk = peek_map [OF q(2) ne]
  have v: "?v \<in> set ks" using pk(2) dom by blast
  then have "priority (peekHeap (prioArr q)) = ?f (aged (acc ?v) ?v p)" using pk(2) q(3) by simp
  moreover have "pmap q k = Some (?f (aged (acc k) k p))" if "k \<in> set ks" for k using that q(3) by simp
  ultimately have min: "\<forall>k\<in>set ks. ?f (aged (acc ?v) ?v p) \<le> ?f (aged (acc k) k p)" using pk(3) by metis
  moreover have "\<not> acc ?v" if "\<not> lapa" "k \<in> set ks" "\<not> acc k" for k
  proof
    assume "acc ?v"
    with bspec [OF min that(2)] that(1,3) have "aged True ?v p \<le> aged False k p" by simp
    with aged_accessed [of k p ?v p] show False by simp
  qed
  ultimately show ?thesis using q(1,2) v by blast
qed

theorem aging_victim_minimal_witness:
  "\<exists>q v. rfold (\<lambda>k. requeue_aged (if False then countSetBits else id) k (k = 4)) [4, 9] fresh_queue = Inr q \<and>
     v = index (peekHeap (prioArr q)) \<and> v = 9"
proof -
  have f: "pq_inv fresh_queue" "dom (pmap fresh_queue) \<subseteq> set [4, 9]" using fresh_queue_fifo by (simp_all add: fifo_def)
  have r: "\<forall>k\<in>set [4, 9]. resident fresh_queue k" by (simp add: resident_def fresh_queue_def)
  from aging_victim_minimal [OF f r, of False "\<lambda>k. k = 4"] show ?thesis by auto
qed

text \<open>The number of one bits.\<close>

lemma bits_drop: "{i. bit n i} = (if bit n 0 then {0} else {}) \<union> Suc ` {i. bit (drop_bit 1 n) i}" for n :: uint
proof (rule set_eqI)
  show "i \<in> {i. bit n i} \<longleftrightarrow> i \<in> (if bit n 0 then {0} else {}) \<union> Suc ` {i. bit (drop_bit 1 n) i}" for i
    by (cases i) (auto simp: bit_drop_bit_eq)
qed

lemma finite_bits: "finite {i. bit (n :: uint) i}"
  by (rule finite_subset [of _ "{..<32}"]) (auto dest: bit_imp_le_length)

lemma card_bits: "card {i. bit n i} = (if bit n 0 then 1 else 0) + card {i. bit (drop_bit 1 n) i}" for n :: uint
proof -
  have "card (Suc ` {i. bit (drop_bit 1 n) i}) = card {i. bit (drop_bit 1 n) i}" by (simp add: card_image)
  then show ?thesis unfolding bits_drop [of n] using finite_bits [of "drop_bit 1 n"] by auto
qed

declare countSetBits_loop.simps [simp del]

lemma countSetBits_loop: "countSetBits_loop n cnt = cnt + of_nat (card {i. bit n i})"
proof (induction n cnt rule: countSetBits_loop.induct)
  case (1 n cnt)
  have "n AND 1 = (if bit n 0 then 1 else 0)" by (simp add: and_one_eq mod2_eq_if bit_0)
  with 1 card_bits [of n] show ?case by (cases "n = 0") (simp_all add: countSetBits_loop.simps [of n] countSetBits_loop.simps [of 0])
qed

text \<open>
  C33. \<^verbatim>\<open>countSetBits\<close> counts the one bits of its argument: the priority LAPA gives a page is the
  number of the last 32 scans that found it accessed.
\<close>

theorem countSetBits_card: "countSetBits n = of_nat (card {i. bit n i})"
  by (simp add: countSetBits_def countSetBits_loop)

section \<open>A flaw of AQ\<close>

lemma extract_unique:
  assumes "is_heap a n" "distinct (map index (take n a))" "h \<in> set (take n a)"
    and "\<And>h'. h' \<in> set (take n a) \<Longrightarrow> index h' \<noteq> index h \<Longrightarrow> priority h < priority h'"
  shows "\<exists>a'. extractMin a n = Inr (h, a', n - 1) \<and> is_heap a' (n - 1) \<and> distinct (map index (take (n - 1) a')) \<and>
    set (take (n - 1) a') = set (take n a) - {h}"
proof -
  have n: "0 < n" using assms(3) by (cases n) auto
  obtain out a' where e: "extractMin a n = Inr (out, a', n - 1)" "is_heap a' (n - 1)" "out \<in># nodes a n"
    "nodes a' (n - 1) = nodes a n - {#out#}" "\<forall>x \<in># nodes a n. priority out \<le> priority x"
    using extractMin_ok [OF assms(1) n] by blast
  have "index out = index h" using e(3,5) assms(3) assms(4) [of out] by (metis not_le set_mset_mset)
  then have out: "out = h" using assms(2,3) e(3) by (auto simp: distinct_map inj_on_def)
  have d: "distinct (take n a)" using assms(2) by (simp add: distinct_map)
  have "nodes a' (n - 1) = mset (remove1 h (take n a))" using e(4) out by simp
  then have "set (take (n - 1) a') = set (remove1 h (take n a))" "mset (map index (take (n - 1) a')) = mset (map index (remove1 h (take n a)))"
    by (metis set_mset_mset, metis mset_map)
  moreover have "distinct (map index (remove1 h (take n a)))"
    using assms(2) by (metis distinct_map distinct_remove1 inj_on_subset set_remove1_subset)
  ultimately have "set (take (n - 1) a') = set (take n a) - {h}" "distinct (map index (take (n - 1) a'))"
    using d mset_eq_imp_distinct_iff by (simp, blast)
  with e(1,2) out show ?thesis by blast
qed

lemma two_smallest:
  assumes "pq_inv p" "pmap p m = Some y" "pmap p k = Some x" "m \<noteq> k" "y < x"
    and "\<forall>j z. pmap p j = Some z \<and> j \<noteq> m \<and> j \<noteq> k \<longrightarrow> x < z"
  shows "\<exists>t1 t2. extractMin (prioArr p) (prioSize p) = Inr (\<lparr>index = m, priority = y\<rparr>, t1, prioSize p - 1) \<and>
    extractMin t1 (prioSize p - 1) = Inr (\<lparr>index = k, priority = x\<rparr>, t2, prioSize p - 1 - 1) \<and> 0 < prioSize p - 1"
proof -
  let ?n = "prioSize p" and ?H = "set (take (prioSize p) (prioArr p))" and ?h = "\<lparr>index = k, priority = x\<rparr>"
  have d: "is_heap (prioArr p) ?n" "distinct (map index (take ?n (prioArr p)))" using assms(1) by (simp_all add: pq_inv_def)
  have mem: "\<lparr>index = j, priority = z\<rparr> \<in> ?H \<longleftrightarrow> pmap p j = Some z" for j z
    using pmap_Some [of p j z] d(2) by simp
  have mem': "pmap p (index g) = Some (priority g)" if "g \<in> ?H" for g using that mem [of "index g" "priority g"] by simp
  have low: "y < priority g" if "g \<in> ?H" "index g \<noteq> m" for g
    using mem' [OF that(1)] assms(3,5,6) that(2) by (metis option.inject order_less_trans)
  obtain t1 where t1: "extractMin (prioArr p) ?n = Inr (\<lparr>index = m, priority = y\<rparr>, t1, ?n - 1)" "is_heap t1 (?n - 1)"
    "distinct (map index (take (?n - 1) t1))" "set (take (?n - 1) t1) = ?H - {\<lparr>index = m, priority = y\<rparr>}"
    using extract_unique [OF d, of "\<lparr>index = m, priority = y\<rparr>"] mem assms(2) low by auto
  have hm: "?h \<in> set (take (?n - 1) t1)" using mem [of k x] assms(3,4) unfolding t1(4) by simp
  have "x < priority g" if "g \<in> set (take (?n - 1) t1)" "index g \<noteq> k" for g
  proof -
    have g: "g \<in> ?H" "g \<noteq> \<lparr>index = m, priority = y\<rparr>" using that(1) t1(4) by auto
    have "index g \<noteq> m" using g mem' [OF g(1)] assms(2) by (cases g) auto
    then show ?thesis using mem' [OF g(1)] assms(6) that(2) by blast
  qed
  then obtain t2 where t2: "extractMin t1 (?n - 1) = Inr (?h, t2, ?n - 1 - 1)"
    using extract_unique [OF t1(2,3) hm] by auto
  have "0 < ?n - 1" using hm by (cases "?n - 1") auto
  with t1(1) t2 show ?thesis by blast
qed

lemma dequeue_absent:
  assumes "pq_inv p" "pmap p k = None"
  shows "dequeue k p = p"
proof -
  have "k \<notin> index ` set (take (prioSize p) (prioArr p))" using assms(2) dom_pmap [of p] by blast
  moreover have "prioSize p \<le> length (prioArr p)" using assms(1) by (simp add: pq_inv_def is_heap_def)
  ultimately have "deleteRoot (prioArr p) k (prioSize p) = (no_node, prioArr p, prioSize p)"
    by (rule deleteRoot_absent [rotated])
  then show ?thesis by (simp add: dequeue_def)
qed

lemma dup_enqueue:
  assumes "pq_inv p" "pmap p k = Some x"
  shows "\<exists>q. enqueue \<lparr>index = k, priority = x\<rparr> p = Inr q \<and> prioSize q = prioSize p + 1 \<and>
    \<not> distinct (map index (take (prioSize q) (prioArr q)))"
proof -
  let ?h = "\<lparr>index = k, priority = x\<rparr>"
  have d: "distinct (map index (take (prioSize p) (prioArr p)))" "length (prioArr p) = MAX_PRIO_ARR" using assms(1) by (simp_all add: pq_inv_def)
  have "prioSize p < length (prioArr p)" using pq_size(2) [OF assms(1)] d(2) by simp
  then obtain a where a: "insertHeap (prioArr p) ?h (prioSize p) = Inr (a, prioSize p + 1)"
    "nodes a (prioSize p + 1) = add_mset ?h (nodes (prioArr p) (prioSize p))" using insertHeap_ok by blast
  have in_q: "?h \<in> set (take (prioSize p) (prioArr p))" using assms(2) pmap_Some [OF d(1)] by simp
  have "mset (map index (take (prioSize p + 1) a)) = mset (map index (?h # take (prioSize p) (prioArr p)))"
    using a(2) by (metis mset.simps(2) mset_map)
  then have "distinct (map index (take (prioSize p + 1) a)) \<longleftrightarrow> distinct (map index (?h # take (prioSize p) (prioArr p)))"
    by (rule mset_eq_imp_distinct_iff)
  moreover have "\<not> distinct (map index (?h # take (prioSize p) (prioArr p)))" using in_q by force
  ultimately show ?thesis using a(1) by (simp add: enqueue_def)
qed

text \<open>
  C34. The AQ policy can queue a page twice. When the accessed page is not page 0 and is itself
  the one with the second smallest priority, the update step takes it for its own successor,
  removes it once and inserts it twice: the queue grows by one and holds two nodes for the
  page.
\<close>

theorem aq_duplicates_page:
  assumes "pq_inv p" "k \<noteq> 0" "pmap p m = Some y" "pmap p k = Some x" "m \<noteq> k" "y < x"
    and "\<forall>j z. pmap p j = Some z \<and> j \<noteq> m \<and> j \<noteq> k \<longrightarrow> x < z"
    and "int (findMaxElementIndex (prioArr p) (prioSize p)) \<noteq> k"
    and "fst (walkpgdir (p_pgdir p) (pmd_va (ramPmd p ! nat k)) False s) = Some e" "ld32 e s AND PTE_A \<noteq> 0"
  shows "\<exists>q. aq_swap k p s = Inr q \<and> prioSize q = prioSize p + 1 \<and> \<not> distinct (map index (take (prioSize q) (prioArr q)))"
proof -
  have k: "0 \<le> k" "k < int MAX_PSYC_PAGES" using assms(1,4) by (auto simp: pq_inv_def)
  obtain h arr where h: "findInHeap (prioArr p) k (prioSize p) = Inr (h, arr, prioSize p)" "index h = k" "priority h = x"
    "pq_inv (p\<lparr>prioArr := arr, prioSize := prioSize p\<rparr>)" "pmap (p\<lparr>prioArr := arr, prioSize := prioSize p\<rparr>) = pmap p"
    using find_map [OF assms(1), of k] k(1) assms(4) by auto
  have hk: "h = \<lparr>index = k, priority = x\<rparr>" using h(2,3) by (cases h) simp
  define p1 where "p1 = p\<lparr>prioArr := arr, prioSize := prioSize p\<rparr>"
  have i1: "pq_inv p1" "pmap p1 = pmap p" using h(4,5) by (simp_all add: p1_def)
  let ?n = "prioSize p"
  obtain t1 t2 where t: "extractMin arr ?n = Inr (\<lparr>index = m, priority = y\<rparr>, t1, ?n - 1)"
    "extractMin t1 (?n - 1) = Inr (h, t2, ?n - 1 - 1)" "0 < ?n - 1"
    using two_smallest [of p1 m y k x] i1 assms(3-7) hk by (auto simp: p1_def)
  have skip: "aq_skip k k arr ?n = Inr (\<lparr>index = m, priority = y\<rparr>, t1, ?n - 1)" by (subst aq_skip.simps) (simp add: t(1))
  have ram: "ram_ok k p1" using k i1(1) by (simp add: ram_ok_def pq_inv_def)
  note d1 = dequeue_map [OF i1(1), of k] 
  have twice: "dequeue k (dequeue k p1) = dequeue k p1" by (rule dequeue_absent [OF d1(1)]) (simp add: d1(2))
  obtain p3 where p3: "enqueue h (dequeue k p1) = Inr p3" "pq_inv p3" "pmap p3 = (pmap (dequeue k p1))(k \<mapsto> x)"
    using enqueue_map [OF d1(1), of h] k d1(2) h(2,3) by auto
  have "pmap p3 = pmap p" using assms(4) by (auto simp: p3(3) d1(2) i1(2))
  then have "prioSize p3 = prioSize p" using pq_size(1) [OF p3(2)] pq_size(1) [OF assms(1)] by simp
  moreover obtain q where q: "enqueue h p3 = Inr q" "prioSize q = prioSize p3 + 1" "\<not> distinct (map index (take (prioSize q) (prioArr q)))"
    using dup_enqueue [OF p3(2), of k x] p3(3) hk by auto
  moreover have "aq_swap k p s = Inr q"
    using assms(2,8,9,10) h(1,2) skip t(2,3) k(1) ram twice p3(1) q(1)
    by (simp add: aq_swap_def Let_def p1_def swapPrio_def)
  ultimately show ?thesis by auto
qed

text \<open>Pages 5, 6 and 7 are queued with priorities 1, 2 and 3, and the entry of page 6 has its accessed bit set.\<close>

definition aq_sample :: proc where
  "aq_sample = fresh_queue\<lparr>p_pgdir := 0x80190000, prioSize := 3,
     prioArr := [\<lparr>index = 5, priority = 1\<rparr>, \<lparr>index = 6, priority = 2\<rparr>, \<lparr>index = 7, priority = 3\<rparr>] @ replicate 30 no_node\<rparr>"

definition aq_memory :: kmem where
  "aq_memory = sample_kmem\<lparr>pmem := (\<lambda>_ _. 0)(0x190000 := wr32 (\<lambda>_. 0) 0 0x191007, 0x191000 := wr32 (\<lambda>_. 0) 0 0x192027)\<rparr>"

lemma rd32_wr32_zero: "rd32 (wr32 (\<lambda>_. 0) 0 w) 0 = w"
  using rd32_wr32_index [of "\<lambda>_. 0" 0 w 0] by simp

lemma aq_sample_ok: "pq_inv aq_sample" "pmap aq_sample = [5 \<mapsto> 1, 6 \<mapsto> 2, 7 \<mapsto> 3]"
  "findMaxElementIndex (prioArr aq_sample) (prioSize aq_sample) = 2"
  "fst (walkpgdir (p_pgdir aq_sample) (pmd_va (ramPmd aq_sample ! nat 6)) False aq_memory) = Some 0x80191000"
  "ld32 0x80191000 aq_memory = 0x192027" "prioSize aq_sample = 3"
proof -
  have n: "take 3 ([\<lparr>index = 5, priority = 1\<rparr>, \<lparr>index = 6, priority = 2\<rparr>, \<lparr>index = 7, priority = 3\<rparr>] @ xs) =
    [\<lparr>index = 5, priority = 1\<rparr>, \<lparr>index = 6, priority = 2\<rparr>, \<lparr>index = 7, priority = 3\<rparr>]" for xs :: "heap_p list" by simp
  show m: "pmap aq_sample = [5 \<mapsto> 1, 6 \<mapsto> 2, 7 \<mapsto> 3]" by (auto simp: pmap_def pairs_def aq_sample_def)
  show "pq_inv aq_sample" unfolding pq_inv_def m
    by (auto simp: aq_sample_def fresh_queue_def is_heap_def heap_from_def less_Suc_eq numeral_eq_Suc) simp
  show "findMaxElementIndex (prioArr aq_sample) (prioSize aq_sample) = 2"
    by (simp add: aq_sample_def findMaxElementIndex_def scan_max.simps)
  show "ld32 0x80191000 aq_memory = 0x192027"
    by (simp add: ld32_def aq_memory_def V2P_def PTE_ADDR_def PTE_FLAGS_def rd32_wr32_zero)
  show "fst (walkpgdir (p_pgdir aq_sample) (pmd_va (ramPmd aq_sample ! nat 6)) False aq_memory) = Some 0x80191000"
    by (simp add: walkpgdir_def ld32_def aq_memory_def aq_sample_def fresh_queue_def V2P_def P2V_def PTE_ADDR_def PTE_FLAGS_def PDX_def PTX_def
      rd32_wr32_zero)
  show "prioSize aq_sample = 3" by (simp add: aq_sample_def)
qed

theorem aq_duplicates_page_witness:
  "\<exists>q. aq_swap 6 aq_sample aq_memory = Inr q \<and> prioSize q = 4 \<and> \<not> distinct (map index (take (prioSize q) (prioArr q)))"
proof -
  have "\<exists>q. aq_swap 6 aq_sample aq_memory = Inr q \<and> prioSize q = prioSize aq_sample + 1 \<and>
    \<not> distinct (map index (take (prioSize q) (prioArr q)))"
    by (rule aq_duplicates_page [OF aq_sample_ok(1) _ _ _ _ _ _ _ aq_sample_ok(4), where m = 5 and y = 1 and x = 2])
      (auto simp: aq_sample_ok(2,3,5) split: if_splits)
  then show ?thesis by (simp add: aq_sample_ok(6))
qed

end
