(* ===== verification/Process.thy ===== *)
theory Process
  imports Paging
begin

text \<open>
  The life of a process in \<^verbatim>\<open>proc.c\<close>: creation with its kernel stack and swap file, the first
  process, growing, \<^verbatim>\<open>fork\<close> with copy-on-write and a copied swap file, \<^verbatim>\<open>exit\<close> and \<^verbatim>\<open>wait\<close>. A
  sleep in \<^verbatim>\<open>wait\<close> is the result \<open>Blocked\<close>. The printing that \<^verbatim>\<open>VERBOSE_PRINT=TRUE\<close> and \<^verbatim>\<open>DEBUG\<close> builds add is
  not part of the default build and is left out.
\<close>

section \<open>State\<close>

text \<open>\<open>fork_first\<close> is the static flag of \<^verbatim>\<open>forkret\<close>, \<open>forkret_addr\<close> the address of that function.\<close>

record kstate = vstate +
  ticks :: uint
  fork_first :: bool
  forkret_addr :: uint
  proc_buffer :: bytes

text \<open>\<^verbatim>\<open>safestrcpy(dst, src, n)\<close> on character arrays.\<close>

definition str_copy :: "nat \<Rightarrow> uchar list \<Rightarrow> uchar list \<Rightarrow> uchar list" where
  "str_copy n src dst = (let cs = take (n - 1) (takeWhile (\<lambda>c. c \<noteq> 0) src) in cs @ [0] @ drop (length cs + 1) dst)"

section \<open>Creation\<close>

definition fresh_context :: "uint \<Rightarrow> kcontext" where
  "fresh_context eip = \<lparr>ctx_edi = 0, ctx_esi = 0, ctx_ebx = 0, ctx_ebp = 0, ctx_eip = eip\<rparr>"

definition allocproc :: "'a kstate_scheme \<Rightarrow> (nat option \<times> 'a kstate_scheme) res" where
  "allocproc s =
     (case claim_slot s of
        (None, s1) \<Rightarrow> Inr (None, s1)
      | (Some i, s1) \<Rightarrow>
          (case kalloc s1 of
             (kstack, s2) \<Rightarrow>
               let s3 = upd_proc i (\<lambda>p. p\<lparr>p_kstack := kstack\<rparr>) s2
               in if kstack = 0 then Inr (None, upd_proc i (\<lambda>p. p\<lparr>p_state := UNUSED\<rparr>) s3)
                  else let s4 = upd_proc i (\<lambda>p. p\<lparr>p_context := fresh_context (forkret_addr s3),
                                 ramPmd := initPmdArr (ramPmd p) MAX_PSYC_PAGES,
                                 swapPmd := initPmdArr (swapPmd p) (MAX_TOTAL_PAGES - MAX_PSYC_PAGES),
                                 prioArr := initHeap (prioArr p) MAX_PRIO_ARR,
                                 pagesInMemory := 0, pagesInSwapfile := 0\<rparr>) s3
                       in if p_pid (procs s4 ! i) > 2
                          then rbind (createSwapFile i s4) (\<lambda>(_, s5). Inr (Some i, s5))
                          else Inr (Some i, s4)))"

definition user_tf :: trapframe where
  "user_tf = \<lparr>tf_edi = 0, tf_esi = 0, tf_ebp = 0, tf_ebx = 0, tf_edx = 0, tf_ecx = 0, tf_eax = 0, tf_gs = 0, tf_fs = 0,
     tf_es = 0x23, tf_ds = 0x23, tf_trapno = 0, tf_err = 0, tf_eip = 0, tf_cs = 0x1b, tf_eflags = 0x200, tf_esp = 4096, tf_ss = 0x23\<rparr>"

text \<open>The program \<^verbatim>\<open>initcode\<close> is linked into the kernel by the build.\<close>

definition userinit :: "uchar list \<Rightarrow> 'a kstate_scheme \<Rightarrow> 'a kstate_scheme res" where
  "userinit initcode s =
     rbind (allocproc s) (\<lambda>(np, s1).
     case np of
       None \<Rightarrow> Inl (Undef ''userinit'')
     | Some i \<Rightarrow>
         rbind (setupkvm (s1\<lparr>initproc := Some i\<rparr>)) (\<lambda>(pgdir, s2).
         if pgdir = 0 then Inl (Panic ''userinit: out of memory?'')
         else rbind (inituvm pgdir initcode (upd_proc i (\<lambda>p. p\<lparr>p_pgdir := pgdir\<rparr>) s2)) (\<lambda>s3.
              rbind (namei [47] (upd_proc i (\<lambda>p. p\<lparr>p_sz := PGSIZE, p_tf := user_tf,
                                  p_name := str_copy 16 (map of_char ''initcode'') (p_name p)\<rparr>) s3)) (\<lambda>(ip, s4).
              Inr (upd_proc i (\<lambda>p. p\<lparr>p_cwd := ip, p_state := RUNNABLE\<rparr>) s4)))))"

definition growproc :: "int \<Rightarrow> 'a vstate_scheme \<Rightarrow> (int \<times> 'a vstate_scheme) res" where
  "growproc n s =
     rbind (myproc s) (\<lambda>i.
     let p = procs s ! i; sz = p_sz p
     in rbind (if n > 0 then allocuvm (p_pgdir p) sz (sz + of_int n) s
               else if n < 0 then deallocuvm (p_pgdir p) sz (sz + of_int n) s
               else Inr (sz, s)) (\<lambda>(sz', s1).
        if n \<noteq> 0 \<and> sz' = 0 then Inr (-1, s1)
        else rbind (switchuvm (Some i) (upd_proc i (\<lambda>p. p\<lparr>p_sz := sz'\<rparr>) s1)) (\<lambda>s2. Inr (0, s2))))"

section \<open>fork\<close>

text \<open>One round of the loop that copies the metadata and the swapped-out pages of the parent.\<close>

definition fork_copy :: "nat \<Rightarrow> nat \<Rightarrow> nat \<Rightarrow> 'a kstate_scheme \<Rightarrow> 'a kstate_scheme res" where
  "fork_copy me np k s =
     (let c = procs s ! me;
          s1 = (if occupied (ramPmd c ! k) then upd_proc np (\<lambda>p. p\<lparr>ramPmd := (ramPmd p)[k := ramPmd c ! k]\<rparr>) s else s)
      in if occupied (swapPmd c ! k) \<and> p_pid c > 2
         then rbind (readFromSwapFile me (of_int (pmd_offset (swapPmd c ! k))) PGSIZE s1) (\<lambda>((_, cs), s2).
              let s3 = s2\<lparr>proc_buffer := blit (proc_buffer s2) 0 (\<lambda>j. cs ! j) 0 (length cs)\<rparr>
              in rbind (writeToSwapFile np (map (proc_buffer s3) [0..<4096]) (of_int (pmd_offset (swapPmd c ! k))) s3) (\<lambda>(_, s4).
                 Inr (upd_proc np (\<lambda>p. p\<lparr>swapPmd := (swapPmd p)[k := swapPmd c ! k]\<rparr>) s4)))
         else Inr s1)"

definition fork_dup :: "nat \<Rightarrow> nat \<Rightarrow> nat \<Rightarrow> 'a kstate_scheme \<Rightarrow> 'a kstate_scheme res" where
  "fork_dup me np fd s =
     (case p_ofile (procs s ! me) ! fd of
        None \<Rightarrow> Inr s
      | Some f \<Rightarrow> rbind (filedup f s) (\<lambda>s1. Inr (upd_proc np (\<lambda>p. p\<lparr>p_ofile := (p_ofile p)[fd := Some f]\<rparr>) s1)))"

definition fork :: "'a kstate_scheme \<Rightarrow> (int \<times> 'a kstate_scheme) res" where
  "fork s =
     rbind (myproc s) (\<lambda>me.
     rbind (allocproc s) (\<lambda>(npo, s1).
     case npo of
       None \<Rightarrow> Inr (-1, s1)
     | Some np \<Rightarrow>
         rbind (cowuvm (p_pgdir (procs s1 ! me)) (p_sz (procs s1 ! me)) s1) (\<lambda>(pgdir, s2).
         let s3 = upd_proc np (\<lambda>p. p\<lparr>p_pgdir := pgdir\<rparr>) s2
         in if pgdir = 0
            then rbind (kfree (p_kstack (procs s3 ! np)) s3) (\<lambda>s4.
                 Inr (-1, upd_proc np (\<lambda>p. p\<lparr>p_kstack := 0, p_state := UNUSED\<rparr>) s4))
            else let c = procs s3 ! me;
                     s4 = upd_proc np (\<lambda>p. p\<lparr>pagedout := 0, pagefaults := 0, pagesInMemory := pagesInMemory c,
                            pagesInSwapfile := pagesInSwapfile c, prioSize := prioSize c\<rparr>) s3
                 in rbind (rfold (fork_copy me np) [0..<MAX_PSYC_PAGES] s4) (\<lambda>s5.
                    let s6 = upd_proc np (\<lambda>p. p\<lparr>prioArr := take MAX_PSYC_PAGES (prioArr (procs s5 ! me)) @ drop MAX_PSYC_PAGES (prioArr p),
                               p_sz := p_sz (procs s5 ! me), p_parent := Some me,
                               p_tf := (p_tf (procs s5 ! me))\<lparr>tf_eax := 0\<rparr>\<rparr>) s5
                    in rbind (rfold (fork_dup me np) [0..<NOFILE] s6) (\<lambda>s7.
                       case p_cwd (procs s7 ! me) of
                         None \<Rightarrow> Inl (Undef ''cwd'')
                       | Some ip \<Rightarrow>
                           let s8 = snd (idup ip s7);
                               s9 = upd_proc np (\<lambda>p. p\<lparr>p_cwd := Some ip, p_name := str_copy 16 (p_name (procs s8 ! me)) (p_name p),
                                      p_state := RUNNABLE\<rparr>) s8
                           in Inr (p_pid (procs s8 ! np), s9))))))"

section \<open>exit and wait\<close>

definition close_fd :: "nat \<Rightarrow> nat \<Rightarrow> 'a xstate_scheme \<Rightarrow> 'a xstate_scheme res" where
  "close_fd me fd s =
     (case p_ofile (procs s ! me) ! fd of
        None \<Rightarrow> Inr s
      | Some f \<Rightarrow> rbind (fileclose f s) (\<lambda>s1. Inr (upd_proc me (\<lambda>p. p\<lparr>p_ofile := (p_ofile p)[fd := None]\<rparr>) s1)))"

text \<open>\<^verbatim>\<open>exit\<close> up to the switch to the scheduler, from which it does not come back.\<close>

definition exit :: "'a xstate_scheme \<Rightarrow> 'a xstate_scheme res" where
  "exit s =
     rbind (myproc s) (\<lambda>me.
     if initproc s = Some me then Inl (Panic ''init exiting'')
     else rbind (rfold (close_fd me) [0..<NOFILE] s) (\<lambda>s1.
          rbind (if p_pid (procs s1 ! me) > 2
                 then rbind (removeSwapFile me s1) (\<lambda>(r, s2).
                      if r = -1 then Inl (Panic ''exit: failed to removeSwapFile'') else Inr s2)
                 else Inr s1) (\<lambda>s3.
          rbind (begin_op s3) (\<lambda>s4.
          case p_cwd (procs s4 ! me) of
            None \<Rightarrow> Inl (Undef ''cwd'')
          | Some ip \<Rightarrow>
              rbind (iput ip s4) (\<lambda>s5.
              rbind (end_op s5) (\<lambda>s6.
              let s7 = upd_proc me (\<lambda>p. p\<lparr>p_cwd := None\<rparr>) s6
              in Inr (s7\<lparr>procs := exit_table (initproc s7) me (procs s7)\<rparr>)))))))"

text \<open>Reaping the zombie \<open>i\<close>: its kernel stack, its address space, its table entry.\<close>

definition reap :: "nat \<Rightarrow> 'a pstate_scheme \<Rightarrow> (int \<times> 'a pstate_scheme) res" where
  "reap i s =
     (let pid = p_pid (procs s ! i)
      in rbind (drop_page (p_kstack (procs s ! i)) s) (\<lambda>s1.
         rbind (freevm (p_pgdir (procs s1 ! i)) (upd_proc i (\<lambda>p. p\<lparr>p_kstack := 0\<rparr>) s1)) (\<lambda>s2.
         Inr (pid, upd_proc i reap_proc s2))))"

definition wait :: "'a pstate_scheme \<Rightarrow> (int \<times> 'a pstate_scheme) res" where
  "wait s =
     rbind (myproc s) (\<lambda>me.
     case wait_scan me (procs s) of
       (Some i, _) \<Rightarrow> reap i s
     | (None, havekids) \<Rightarrow>
         if \<not> havekids \<or> p_killed (procs s ! me) then Inr (-1, s) else Inl (Blocked ''wait''))"

text \<open>\<^verbatim>\<open>wait2\<close> also returns the page statistics of the child: resident, swapped, faults, paged out.\<close>

definition wait2 :: "'a pstate_scheme \<Rightarrow> ((int \<times> int list) \<times> 'a pstate_scheme) res" where
  "wait2 s =
     rbind (myproc s) (\<lambda>me.
     case wait_scan me (procs s) of
       (Some i, _) \<Rightarrow>
         let p = procs s ! i
         in rbind (reap i s) (\<lambda>(pid, s1). Inr ((pid, [pagesInMemory p, pagesInSwapfile p, pagefaults p, pagedout p]), s1))
     | (None, havekids) \<Rightarrow>
         if \<not> havekids \<or> p_killed (procs s ! me) then Inr ((-1, []), s) else Inl (Blocked ''wait''))"

section \<open>Scheduling a process\<close>

text \<open>The switch to a runnable process, and the return from it, in the loop of \<^verbatim>\<open>scheduler\<close>.\<close>

definition scheduler_switch :: "nat \<Rightarrow> 'a vstate_scheme \<Rightarrow> 'a vstate_scheme res" where
  "scheduler_switch p s =
     rbind (switchuvm (Some p) (s\<lparr>curp := Some p\<rparr>)) (\<lambda>s1. Inr (upd_proc p (\<lambda>q. q\<lparr>p_state := RUNNING\<rparr>) s1))"

definition scheduler_return :: "'a vstate_scheme \<Rightarrow> 'a vstate_scheme" where
  "scheduler_return s = (switchkvm s)\<lparr>curp := None\<rparr>"

definition forkret :: "'a kstate_scheme \<Rightarrow> 'a kstate_scheme res" where
  "forkret s =
     (if fork_first s
      then rbind (iinit ROOTDEV (s\<lparr>fork_first := False\<rparr>)) (\<lambda>s1. initlog ROOTDEV s1)
      else Inr s)"

end
