(* ===== verification/Syscall.thy ===== *)
theory Syscall
  imports Process
begin

text \<open>
  The system call layer: access to user memory with its page faults, fetching arguments
  (\<^verbatim>\<open>syscall.c\<close>), \<^verbatim>\<open>exec.c\<close>, the calls of \<^verbatim>\<open>sysproc.c\<close> and \<^verbatim>\<open>sysfile.c\<close>, the dispatcher and \<^verbatim>\<open>trap.c\<close>. The
  kernel reads and writes user memory through the page table of the current process; data
  that a call moves to or from a user buffer is moved as a whole before or after the call of
  the file layer.
\<close>

section \<open>User memory\<close>

text \<open>
  The entry that translates \<open>va\<close>, if the access is allowed: the page is present, and writable
  for a write (\<^verbatim>\<open>CR0_WP\<close> is set, so this holds in kernel mode too). An access sets \<^verbatim>\<open>PTE_A\<close>.
\<close>

definition translate :: "bool \<Rightarrow> uint \<Rightarrow> uint \<Rightarrow> 'a kmem_scheme \<Rightarrow> (uint \<times> uint) option" where
  "translate write pgdir va s =
     (case fst (walkpgdir pgdir va False s) of
        None \<Rightarrow> None
      | Some pte \<Rightarrow>
          let e = ld32 pte s
          in if e AND PTE_P \<noteq> 0 \<and> (write \<longrightarrow> e AND PTE_W \<noteq> 0) then Some (pte, PTE_ADDR e) else None)"

definition user_page :: "bool \<Rightarrow> uint \<Rightarrow> 'a vstate_scheme \<Rightarrow> (uint \<times> 'a vstate_scheme) res" where
  "user_page write va s =
     rbind (myproc s) (\<lambda>i.
     case translate write (p_pgdir (procs s ! i)) va s of
       Some (pte, pa) \<Rightarrow> Inr (pa, st32 pte (ld32 pte s OR PTE_A) s)
     | None \<Rightarrow>
         rbind (onPageFault va s) (\<lambda>s1.
         if p_killed (procs s1 ! i) then Inl (Blocked ''exit'')
         else case translate write (p_pgdir (procs s1 ! i)) va s1 of
                Some (pte, pa) \<Rightarrow> Inr (pa, st32 pte (ld32 pte s1 OR PTE_A) s1)
              | None \<Rightarrow> Inl (Blocked ''page fault'')))"

definition uload :: "uint \<Rightarrow> 'a vstate_scheme \<Rightarrow> (uchar \<times> 'a vstate_scheme) res" where
  "uload va s = rbind (user_page False va s) (\<lambda>(pa, s1). Inr (pmem s1 pa (unat (PTE_FLAGS va)), s1))"

definition ustore :: "uint \<Rightarrow> uchar \<Rightarrow> 'a vstate_scheme \<Rightarrow> 'a vstate_scheme res" where
  "ustore va c s =
     rbind (user_page True va s) (\<lambda>(pa, s1). Inr (put_page pa ((pmem s1 pa)(unat (PTE_FLAGS va) := c)) s1))"

primrec uload_list :: "uint \<Rightarrow> nat \<Rightarrow> 'a vstate_scheme \<Rightarrow> (uchar list \<times> 'a vstate_scheme) res" where
  "uload_list va 0 s = Inr ([], s)"
| "uload_list va (Suc n) s =
     rbind (uload va s) (\<lambda>(c, s1). rbind (uload_list (va + 1) n s1) (\<lambda>(cs, s2). Inr (c # cs, s2)))"

primrec ustore_list :: "uint \<Rightarrow> uchar list \<Rightarrow> 'a vstate_scheme \<Rightarrow> 'a vstate_scheme res" where
  "ustore_list va [] s = Inr s"
| "ustore_list va (c # cs) s = rbind (ustore va c s) (\<lambda>s1. ustore_list (va + 1) cs s1)"

definition le_bytes :: "uint \<Rightarrow> uchar list" where
  "le_bytes w = [byte_of 0 w, byte_of 1 w, byte_of 2 w, byte_of 3 w]"

section \<open>Arguments (syscall.c)\<close>

definition fetchint :: "uint \<Rightarrow> 'a vstate_scheme \<Rightarrow> (uint option \<times> 'a vstate_scheme) res" where
  "fetchint addr s =
     rbind (cur s) (\<lambda>p.
     if addr \<ge> p_sz p \<or> addr + 4 > p_sz p then Inr (None, s)
     else rbind (uload_list addr 4 s) (\<lambda>(cs, s1). Inr (Some (le32 (cs ! 0) (cs ! 1) (cs ! 2) (cs ! 3)), s1)))"

text \<open>The scan of \<^verbatim>\<open>fetchstr\<close> over at most \<open>n\<close> bytes; the result is the string without its 0.\<close>

primrec fetchstr_loop :: "uint \<Rightarrow> nat \<Rightarrow> 'a vstate_scheme \<Rightarrow> (uchar list option \<times> 'a vstate_scheme) res" where
  "fetchstr_loop va 0 s = Inr (None, s)"
| "fetchstr_loop va (Suc n) s =
     rbind (uload va s) (\<lambda>(c, s1).
     if c = 0 then Inr (Some [], s1)
     else rbind (fetchstr_loop (va + 1) n s1) (\<lambda>(r, s2). Inr (map_option (\<lambda>cs. c # cs) r, s2)))"

definition fetchstr :: "uint \<Rightarrow> 'a vstate_scheme \<Rightarrow> (uchar list option \<times> 'a vstate_scheme) res" where
  "fetchstr addr s =
     rbind (cur s) (\<lambda>p.
     if addr \<ge> p_sz p then Inr (None, s) else fetchstr_loop addr (unat (p_sz p - addr)) s)"

definition argint :: "nat \<Rightarrow> 'a vstate_scheme \<Rightarrow> (uint option \<times> 'a vstate_scheme) res" where
  "argint n s = rbind (cur s) (\<lambda>p. fetchint (tf_esp (p_tf p) + 4 + 4 * of_nat n) s)"

definition argptr :: "nat \<Rightarrow> uint \<Rightarrow> 'a vstate_scheme \<Rightarrow> (uint option \<times> 'a vstate_scheme) res" where
  "argptr n sz s =
     rbind (argint n s) (\<lambda>(r, s1).
     rbind (cur s1) (\<lambda>p.
     case r of
       None \<Rightarrow> Inr (None, s1)
     | Some i \<Rightarrow>
         if sint sz < 0 \<or> i \<ge> p_sz p \<or> i + sz > p_sz p then Inr (None, s1) else Inr (Some i, s1)))"

definition argstr :: "nat \<Rightarrow> 'a vstate_scheme \<Rightarrow> (uchar list option \<times> 'a vstate_scheme) res" where
  "argstr n s = rbind (argint n s) (\<lambda>(r, s1). case r of None \<Rightarrow> Inr (None, s1) | Some addr \<Rightarrow> fetchstr addr s1)"

section \<open>exec (exec.c)\<close>

abbreviation MAXARG :: nat where "MAXARG \<equiv> 32"
abbreviation ELF_MAGIC :: uint where "ELF_MAGIC \<equiv> 0x464C457F"

definition sizeof_pmd :: nat where "sizeof_pmd = 20"
definition sizeof_heap_p :: nat where "sizeof_heap_p = 8"

text \<open>
  The local copies of the paging metadata. The size of the third copy is computed with the
  size of the wrong structure: \<^verbatim>\<open>MAX_PRIO_ARR * sizeof(struct paging_meta_data)\<close> bytes into an array of
  \<^verbatim>\<open>MAX_PRIO_ARR\<close> heap nodes.
\<close>

definition exec_backup :: "proc \<Rightarrow> proc res" where
  "exec_backup p =
     (if MAX_PRIO_ARR * sizeof_pmd > MAX_PRIO_ARR * sizeof_heap_p then Inl (Undef ''bkPrioArr'') else Inr p)"

definition exec_reset :: "proc \<Rightarrow> proc" where
  "exec_reset p = p\<lparr>ramPmd := initPmdArr (ramPmd p) MAX_PSYC_PAGES,
     swapPmd := initPmdArr (swapPmd p) (MAX_TOTAL_PAGES - MAX_PSYC_PAGES),
     prioArr := initHeap (prioArr p) MAX_PRIO_ARR, prioSize := 0, pagesInMemory := 0, pagesInSwapfile := 0\<rparr>"

definition exec_restore :: "proc \<Rightarrow> proc \<Rightarrow> proc" where
  "exec_restore bk p = p\<lparr>ramPmd := ramPmd bk, swapPmd := swapPmd bk, prioArr := prioArr bk,
     pagesInMemory := pagesInMemory bk, pagesInSwapfile := pagesInSwapfile bk, prioSize := prioSize bk\<rparr>"

definition exec_bad :: "nat \<Rightarrow> proc \<Rightarrow> uint \<Rightarrow> nat option \<Rightarrow> 'a vstate_scheme \<Rightarrow> (int \<times> 'a vstate_scheme) res" where
  "exec_bad me bk pgdir ipo s =
     rbind (cprintf (Some (map of_char ''exec: bad scenario'')) [] s) (\<lambda>s1.
     rbind (if pgdir \<noteq> 0 then freevm pgdir (upd_proc me (exec_restore bk) s1) else Inr (upd_proc me (exec_restore bk) s1)) (\<lambda>s2.
     case ipo of
       None \<Rightarrow> Inr (-1, s2)
     | Some ip \<Rightarrow> rbind (iunlockput ip s2) (\<lambda>s3. rbind (end_op s3) (\<lambda>s4. Inr (-1, s4)))))"

text \<open>The fields of the two headers of \<^verbatim>\<open>elf.h\<close> that \<^verbatim>\<open>exec\<close> looks at, decoded from the bytes read.\<close>

definition word_at :: "uchar list \<Rightarrow> nat \<Rightarrow> uint" where
  "word_at cs k = le32 (cs ! k) (cs ! (k + 1)) (cs ! (k + 2)) (cs ! (k + 3))"

record elfhdr =
  elf_magic :: uint
  elf_entry :: uint
  elf_phoff :: uint
  elf_phnum :: ushort

definition elfhdr_of :: "uchar list \<Rightarrow> elfhdr" where
  "elfhdr_of cs = \<lparr>elf_magic = word_at cs 0, elf_entry = word_at cs 24, elf_phoff = word_at cs 28,
     elf_phnum = le16 (cs ! 44) (cs ! 45)\<rparr>"

record proghdr =
  ph_type :: uint
  ph_off :: uint
  ph_vaddr :: uint
  ph_filesz :: uint
  ph_memsz :: uint

definition proghdr_of :: "uchar list \<Rightarrow> proghdr" where
  "proghdr_of cs = \<lparr>ph_type = word_at cs 0, ph_off = word_at cs 4, ph_vaddr = word_at cs 8, ph_filesz = word_at cs 16,
     ph_memsz = word_at cs 20\<rparr>"

text \<open>The loop over the program headers: the new size, or \<open>None\<close> for \<^verbatim>\<open>goto bad\<close>.\<close>

primrec exec_load :: "nat \<Rightarrow> uint \<Rightarrow> uint \<Rightarrow> nat list \<Rightarrow> uint \<Rightarrow> 'a vstate_scheme \<Rightarrow> (uint option \<times> 'a vstate_scheme) res" where
  "exec_load ip pgdir phoff [] sz s = Inr (Some sz, s)"
| "exec_load ip pgdir phoff (k # ks) sz s =
     rbind (readi ip (phoff + 32 * of_nat k) 32 s) (\<lambda>((r, cs), s1).
     let ph = proghdr_of cs
     in if r \<noteq> 32 then Inr (None, s1)
        else if ph_type ph \<noteq> 1 then exec_load ip pgdir phoff ks sz s1
        else if ph_memsz ph < ph_filesz ph \<or> ph_vaddr ph + ph_memsz ph < ph_vaddr ph then Inr (None, s1)
        else rbind (allocuvm pgdir sz (ph_vaddr ph + ph_memsz ph) s1) (\<lambda>(sz', s2).
                  if sz' = 0 \<or> ph_vaddr ph mod PGSIZE \<noteq> 0 then Inr (None, s2)
                  else rbind (loaduvm pgdir (ph_vaddr ph) ip (ph_off ph) (ph_filesz ph) s2) (\<lambda>(r, s3).
                       if r < 0 then Inr (None, s3) else exec_load ip pgdir phoff ks sz' s3)))"

text \<open>Pushing the argument strings: the stack pointer and the addresses of the strings.\<close>

primrec exec_args :: "uint \<Rightarrow> uchar list list \<Rightarrow> nat \<Rightarrow> uint \<Rightarrow> 'a kmem_scheme \<Rightarrow> ((uint \<times> uint list) option \<times> 'a kmem_scheme) res" where
  "exec_args pgdir [] argc sp s = Inr (Some (sp, []), s)"
| "exec_args pgdir (a # as) argc sp s =
     (if argc \<ge> MAXARG then Inr (None, s)
      else let sp' = (sp - of_nat (length a + 1)) AND NOT 3
           in rbind (copyout pgdir sp' (a @ [0]) s) (\<lambda>(r, s1).
              if r < 0 then Inr (None, s1)
              else rbind (exec_args pgdir as (argc + 1) sp' s1) (\<lambda>(q, s2).
                   Inr (map_option (\<lambda>(sp2, us). (sp2, sp' # us)) q, s2))))"

text \<open>The characters after the last slash of the path.\<close>

definition last_elem :: "uchar list \<Rightarrow> uchar list" where
  "last_elem path = rev (takeWhile (\<lambda>c. c \<noteq> 47) (rev path))"

definition exec_stack :: "nat \<Rightarrow> proc \<Rightarrow> uint \<Rightarrow> uint \<Rightarrow> uint \<Rightarrow> uchar list \<Rightarrow> uchar list list \<Rightarrow> 'a vstate_scheme \<Rightarrow> (int \<times> 'a vstate_scheme) res" where
  "exec_stack me bk pgdir entry sz path argv s =
     (let sz1 = PGROUNDUP sz
      in rbind (allocuvm pgdir sz1 (sz1 + 2 * PGSIZE) s) (\<lambda>(sz2, s1).
         if sz2 = 0 then exec_bad me bk pgdir None s1
         else rbind (clearpteu pgdir (sz2 - 2 * PGSIZE) s1) (\<lambda>s2.
              rbind (exec_args pgdir argv 0 sz2 s2) (\<lambda>(r, s3).
              case r of
                None \<Rightarrow> exec_bad me bk pgdir None s3
              | Some (sp, us) \<Rightarrow>
                  let argc = length us;
                      ustack = [0xffffffff, of_nat argc, sp - of_nat ((argc + 1) * 4)] @ us @ [0];
                      sp' = sp - of_nat ((3 + argc + 1) * 4)
                  in rbind (copyout pgdir sp' (concat (map le_bytes ustack)) s3) (\<lambda>(r, s4).
                     if r < 0 then exec_bad me bk pgdir None s4
                     else let oldpgdir = p_pgdir (procs s4 ! me);
                              s5 = upd_proc me (\<lambda>p. p\<lparr>p_name := str_copy 16 (last_elem path) (p_name p), p_pgdir := pgdir, p_sz := sz2,
                                     p_tf := (p_tf p)\<lparr>tf_eip := entry, tf_esp := sp'\<rparr>\<rparr>) s4
                          in rbind (switchuvm (Some me) s5) (\<lambda>s6.
                             rbind (freevm oldpgdir s6) (\<lambda>s7. Inr (0, s7))))))))"

definition exec :: "uchar list \<Rightarrow> uchar list list \<Rightarrow> 'a vstate_scheme \<Rightarrow> (int \<times> 'a vstate_scheme) res" where
  "exec path argv s =
     rbind (myproc s) (\<lambda>me.
     rbind (begin_op s) (\<lambda>s1.
     rbind (namei path s1) (\<lambda>(ipo, s2).
     case ipo of
       None \<Rightarrow> rbind (end_op s2) (\<lambda>s3. rbind (cprint ''exec: fail'' s3) (\<lambda>s4. Inr (-1, s4)))
     | Some ip \<Rightarrow>
         rbind (ilock (Some ip) s2) (\<lambda>s3.
         rbind (exec_backup (procs s3 ! me)) (\<lambda>bk.
         rbind (readi ip 0 52 (upd_proc me exec_reset s3)) (\<lambda>((r, cs), s4).
         let elf = elfhdr_of cs
         in if r \<noteq> 52 \<or> elf_magic elf \<noteq> ELF_MAGIC then exec_bad me bk 0 ipo s4
         else rbind (setupkvm s4) (\<lambda>(pgdir, s5).
              if pgdir = 0 then exec_bad me bk 0 ipo s5
              else rbind (exec_load ip pgdir (elf_phoff elf) [0..<unat (elf_phnum elf)] 0 s5) (\<lambda>(szo, s6).
                   case szo of
                     None \<Rightarrow> exec_bad me bk pgdir ipo s6
                   | Some sz \<Rightarrow>
                       rbind (iunlockput ip s6) (\<lambda>s7.
                       rbind (end_op s7) (\<lambda>s8.
                       exec_stack me bk pgdir (elf_entry elf) sz path argv s8))))))))))"

section \<open>System calls on processes (sysproc.c)\<close>

definition sys_kill :: "'a vstate_scheme \<Rightarrow> (int \<times> 'a vstate_scheme) res" where
  "sys_kill s = rbind (argint 0 s) (\<lambda>(r, s1). case r of None \<Rightarrow> Inr (-1, s1) | Some pid \<Rightarrow> Inr (kill (sint pid) s1))"

definition sys_getpid :: "'a vstate_scheme \<Rightarrow> (int \<times> 'a vstate_scheme) res" where
  "sys_getpid s = rbind (cur s) (\<lambda>p. Inr (p_pid p, s))"

definition sys_sbrk :: "'a vstate_scheme \<Rightarrow> (int \<times> 'a vstate_scheme) res" where
  "sys_sbrk s =
     rbind (argint 0 s) (\<lambda>(r, s1).
     case r of
       None \<Rightarrow> Inr (-1, s1)
     | Some n \<Rightarrow>
         rbind (cur s1) (\<lambda>p.
         rbind (growproc (sint n) s1) (\<lambda>(g, s2). Inr (if g < 0 then -1 else sint (p_sz p), s2))))"

text \<open>\<^verbatim>\<open>ticks - ticks0 < n\<close> compares unsigned; it starts with \<^verbatim>\<open>ticks0 = ticks\<close>.\<close>

definition sys_sleep :: "'a kstate_scheme \<Rightarrow> (int \<times> 'a kstate_scheme) res" where
  "sys_sleep s =
     rbind (argint 0 s) (\<lambda>(r, s1).
     case r of
       None \<Rightarrow> Inr (-1, s1)
     | Some n \<Rightarrow>
         rbind (cur s1) (\<lambda>p.
         if \<not> (0 < n) then Inr (0, s1) else if p_killed p then Inr (-1, s1) else Inl (Blocked ''sleep'')))"

definition sys_uptime :: "'a kstate_scheme \<Rightarrow> (int \<times> 'a kstate_scheme) res" where
  "sys_uptime s = Inr (sint (ticks s), s)"

definition sys_getNumberOfFreePages :: "'a vstate_scheme \<Rightarrow> (int \<times> 'a vstate_scheme) res" where
  "sys_getNumberOfFreePages s = Inr (getNumberOfFreePages s, s)"

text \<open>The four result pointers of \<^verbatim>\<open>wait2\<close> and \<^verbatim>\<open>getStats\<close>.\<close>

primrec argptrs :: "nat list \<Rightarrow> 'a vstate_scheme \<Rightarrow> (uint list option \<times> 'a vstate_scheme) res" where
  "argptrs [] s = Inr (Some [], s)"
| "argptrs (n # ns) s =
     rbind (argptr n 4 s) (\<lambda>(r, s1).
     case r of
       None \<Rightarrow> Inr (None, s1)
     | Some a \<Rightarrow> rbind (argptrs ns s1) (\<lambda>(q, s2). Inr (map_option (\<lambda>as. a # as) q, s2)))"

primrec put_ints :: "(uint \<times> int) list \<Rightarrow> 'a vstate_scheme \<Rightarrow> 'a vstate_scheme res" where
  "put_ints [] s = Inr s"
| "put_ints (av # avs) s = rbind (ustore_list (fst av) (le_bytes (of_int (snd av))) s) (\<lambda>s1. put_ints avs s1)"

definition sys_wait2 :: "'a vstate_scheme \<Rightarrow> (int \<times> 'a vstate_scheme) res" where
  "sys_wait2 s =
     rbind (argptrs [0, 1, 2, 3] s) (\<lambda>(r, s1).
     case r of
       None \<Rightarrow> Inr (-1, s1)
     | Some ptrs \<Rightarrow>
         rbind (wait2 s1) (\<lambda>((pid, stats), s2).
         rbind (put_ints (zip ptrs stats) s2) (\<lambda>s3. Inr (pid, s3))))"

definition getStats :: "'a vstate_scheme \<Rightarrow> (int \<times> 'a vstate_scheme) res" where
  "getStats s =
     rbind (argptrs [0, 1, 2, 3] s) (\<lambda>(r, s1).
     rbind (cur s1) (\<lambda>p.
     case r of
       None \<Rightarrow> Inr (-1, s1)
     | Some ptrs \<Rightarrow>
         rbind (put_ints (zip ptrs [pagesInMemory p, pagesInSwapfile p, pagefaults p, pagedout p]) s1) (\<lambda>s2. Inr (0, s2))))"

section \<open>System calls on files (sysfile.c)\<close>

definition argfd :: "nat \<Rightarrow> 'a vstate_scheme \<Rightarrow> ((nat \<times> nat) option \<times> 'a vstate_scheme) res" where
  "argfd n s =
     rbind (argint n s) (\<lambda>(r, s1).
     rbind (cur s1) (\<lambda>p.
     case r of
       None \<Rightarrow> Inr (None, s1)
     | Some fd \<Rightarrow>
         if sint fd < 0 \<or> sint fd \<ge> int NOFILE then Inr (None, s1)
         else case p_ofile p ! unat fd of None \<Rightarrow> Inr (None, s1) | Some f \<Rightarrow> Inr (Some (unat fd, f), s1)))"

definition fdalloc :: "nat \<Rightarrow> 'a vstate_scheme \<Rightarrow> (nat option \<times> 'a vstate_scheme) res" where
  "fdalloc f s =
     rbind (myproc s) (\<lambda>i.
     case find (\<lambda>fd. p_ofile (procs s ! i) ! fd = None) [0..<NOFILE] of
       None \<Rightarrow> Inr (None, s)
     | Some fd \<Rightarrow> Inr (Some fd, upd_proc i (\<lambda>p. p\<lparr>p_ofile := (p_ofile p)[fd := Some f]\<rparr>) s))"

definition clear_fd :: "nat \<Rightarrow> 'a vstate_scheme \<Rightarrow> 'a vstate_scheme res" where
  "clear_fd fd s = on_cur (\<lambda>p. Inr (p\<lparr>p_ofile := (p_ofile p)[fd := None]\<rparr>)) s"

definition sys_dup :: "'a vstate_scheme \<Rightarrow> (int \<times> 'a vstate_scheme) res" where
  "sys_dup s =
     rbind (argfd 0 s) (\<lambda>(r, s1).
     case r of
       None \<Rightarrow> Inr (-1, s1)
     | Some (_, f) \<Rightarrow>
         rbind (fdalloc f s1) (\<lambda>(q, s2).
         case q of None \<Rightarrow> Inr (-1, s2) | Some fd \<Rightarrow> rbind (filedup f s2) (\<lambda>s3. Inr (int fd, s3))))"

text \<open>The arguments of \<^verbatim>\<open>read\<close> and \<^verbatim>\<open>write\<close>: the file, the number of bytes and the checked buffer address.\<close>

definition rw_args :: "'a vstate_scheme \<Rightarrow> ((nat \<times> uint \<times> uint) option \<times> 'a vstate_scheme) res" where
  "rw_args s =
     rbind (argfd 0 s) (\<lambda>(r, s1).
     case r of
       None \<Rightarrow> Inr (None, s1)
     | Some (_, f) \<Rightarrow>
         rbind (argint 2 s1) (\<lambda>(q, s2).
         case q of
           None \<Rightarrow> Inr (None, s2)
         | Some n \<Rightarrow> rbind (argptr 1 n s2) (\<lambda>(a, s3). Inr (map_option (\<lambda>p. (f, n, p)) a, s3))))"

definition sys_read :: "'a vstate_scheme \<Rightarrow> (int \<times> 'a vstate_scheme) res" where
  "sys_read s =
     rbind (rw_args s) (\<lambda>(r, s1).
     case r of
       None \<Rightarrow> Inr (-1, s1)
     | Some (f, n, p) \<Rightarrow>
         rbind (fileread f n s1) (\<lambda>((k, cs), s2).
         rbind (ustore_list p cs s2) (\<lambda>s3. Inr (k, s3))))"

definition sys_write :: "'a vstate_scheme \<Rightarrow> (int \<times> 'a vstate_scheme) res" where
  "sys_write s =
     rbind (rw_args s) (\<lambda>(r, s1).
     case r of
       None \<Rightarrow> Inr (-1, s1)
     | Some (f, n, p) \<Rightarrow> rbind (uload_list p (nat (sint n)) s1) (\<lambda>(cs, s2). filewrite f cs s2))"

definition sys_close :: "'a vstate_scheme \<Rightarrow> (int \<times> 'a vstate_scheme) res" where
  "sys_close s =
     rbind (argfd 0 s) (\<lambda>(r, s1).
     case r of
       None \<Rightarrow> Inr (-1, s1)
     | Some (fd, f) \<Rightarrow> rbind (clear_fd fd s1) (\<lambda>s2. rbind (fileclose f s2) (\<lambda>s3. Inr (0, s3))))"

text \<open>The layout of \<^verbatim>\<open>struct stat\<close>: type at 0, dev at 4, ino at 8, nlink at 12, size at 16.\<close>

definition stat_fields :: "uint \<Rightarrow> stat \<Rightarrow> 'a vstate_scheme \<Rightarrow> 'a vstate_scheme res" where
  "stat_fields a st s =
     rbind (ustore_list a [ucast (st_type st), ucast (drop_bit 8 (st_type st))] s) (\<lambda>s1.
     rbind (ustore_list (a + 4) (le_bytes (st_dev st)) s1) (\<lambda>s2.
     rbind (ustore_list (a + 8) (le_bytes (of_nat (st_ino st))) s2) (\<lambda>s3.
     rbind (ustore_list (a + 12) [ucast (st_nlink st), ucast (drop_bit 8 (st_nlink st))] s3) (\<lambda>s4.
     ustore_list (a + 16) (le_bytes (st_size st)) s4))))"

definition sys_fstat :: "'a vstate_scheme \<Rightarrow> (int \<times> 'a vstate_scheme) res" where
  "sys_fstat s =
     rbind (argfd 0 s) (\<lambda>(r, s1).
     case r of
       None \<Rightarrow> Inr (-1, s1)
     | Some (_, f) \<Rightarrow>
         rbind (argptr 1 20 s1) (\<lambda>(q, s2).
         case q of
           None \<Rightarrow> Inr (-1, s2)
         | Some a \<Rightarrow>
             rbind (filestat f s2) (\<lambda>(sto, s3).
             case sto of None \<Rightarrow> Inr (-1, s3) | Some st \<Rightarrow> rbind (stat_fields a st s3) (\<lambda>s4. Inr (0, s4)))))"

definition link_bad :: "nat \<Rightarrow> 'a cstate_scheme \<Rightarrow> (int \<times> 'a cstate_scheme) res" where
  "link_bad ip s =
     rbind (ilock (Some ip) s) (\<lambda>s1.
     rbind (iupdate ip (upd_inode ip (\<lambda>i. i\<lparr>i_nlink := i_nlink i - 1\<rparr>) s1)) (\<lambda>s2.
     rbind (iunlockput ip s2) (\<lambda>s3.
     rbind (end_op s3) (\<lambda>s4. Inr (-1, s4)))))"

definition link :: "uchar list \<Rightarrow> uchar list \<Rightarrow> 'a cstate_scheme \<Rightarrow> (int \<times> 'a cstate_scheme) res" where
  "link old new s =
     rbind (begin_op s) (\<lambda>s1.
     rbind (namei old s1) (\<lambda>(ipo, s2).
     case ipo of
       None \<Rightarrow> rbind (end_op s2) (\<lambda>s3. Inr (-1, s3))
     | Some ip \<Rightarrow>
         rbind (ilock (Some ip) s2) (\<lambda>s3.
         if i_type (inodes s3 ! ip) = T_DIR
         then rbind (iunlockput ip s3) (\<lambda>s4. rbind (end_op s4) (\<lambda>s5. Inr (-1, s5)))
         else rbind (iupdate ip (upd_inode ip (\<lambda>i. i\<lparr>i_nlink := i_nlink i + 1\<rparr>) s3)) (\<lambda>s4.
              rbind (iunlock (Some ip) s4) (\<lambda>s5.
              rbind (nameiparent new s5) (\<lambda>(r, s6).
              case r of
                None \<Rightarrow> link_bad ip s6
              | Some (dp, name) \<Rightarrow>
                  rbind (ilock (Some dp) s6) (\<lambda>s7.
                  rbind (if i_dev (inodes s7 ! dp) \<noteq> i_dev (inodes s7 ! ip) then Inr (-1, s7)
                         else dirlink dp name (i_inum (inodes s7 ! ip)) s7) (\<lambda>(d, s8).
                  rbind (iunlockput dp s8) (\<lambda>s9.
                  if d < 0 then link_bad ip s9
                  else rbind (iput ip s9) (\<lambda>s10.
                       rbind (end_op s10) (\<lambda>s11. Inr (0, s11))))))))))))"

definition sys_link :: "'a vstate_scheme \<Rightarrow> (int \<times> 'a vstate_scheme) res" where
  "sys_link s =
     rbind (argstr 0 s) (\<lambda>(r, s1).
     case r of
       None \<Rightarrow> Inr (-1, s1)
     | Some old \<Rightarrow> rbind (argstr 1 s1) (\<lambda>(q, s2). case q of None \<Rightarrow> Inr (-1, s2) | Some new \<Rightarrow> link old new s2))"

definition sys_unlink :: "'a vstate_scheme \<Rightarrow> (int \<times> 'a vstate_scheme) res" where
  "sys_unlink s = rbind (argstr 0 s) (\<lambda>(r, s1). case r of None \<Rightarrow> Inr (-1, s1) | Some path \<Rightarrow> unlink path s1)"

abbreviation O_RDONLY :: uint where "O_RDONLY \<equiv> 0"
abbreviation O_WRONLY :: uint where "O_WRONLY \<equiv> 1"
abbreviation O_RDWR :: uint where "O_RDWR \<equiv> 2"
abbreviation O_CREATE :: uint where "O_CREATE \<equiv> 0x200"

definition open_inode :: "uchar list \<Rightarrow> uint \<Rightarrow> 'a vstate_scheme \<Rightarrow> (nat option \<times> 'a vstate_scheme) res" where
  "open_inode path omode s =
     (if omode AND O_CREATE \<noteq> 0 then create path T_FILE 0 0 s
      else rbind (namei path s) (\<lambda>(ipo, s1).
           case ipo of
             None \<Rightarrow> Inr (None, s1)
           | Some ip \<Rightarrow>
               rbind (ilock (Some ip) s1) (\<lambda>s2.
               if i_type (inodes s2 ! ip) = T_DIR \<and> omode \<noteq> O_RDONLY
               then rbind (iunlockput ip s2) (\<lambda>s3. Inr (None, s3))
               else Inr (Some ip, s2))))"

definition open_fail :: "nat \<Rightarrow> 'a vstate_scheme \<Rightarrow> (int \<times> 'a vstate_scheme) res" where
  "open_fail ip s = rbind (iunlockput ip s) (\<lambda>s1. rbind (end_op s1) (\<lambda>s2. Inr (-1, s2)))"

definition sys_open :: "'a vstate_scheme \<Rightarrow> (int \<times> 'a vstate_scheme) res" where
  "sys_open s =
     rbind (argstr 0 s) (\<lambda>(r, s1).
     case r of
       None \<Rightarrow> Inr (-1, s1)
     | Some path \<Rightarrow>
         rbind (argint 1 s1) (\<lambda>(q, s2).
         case q of
           None \<Rightarrow> Inr (-1, s2)
         | Some omode \<Rightarrow>
             rbind (begin_op s2) (\<lambda>s3.
             rbind (open_inode path omode s3) (\<lambda>(ipo, s4).
             case ipo of
               None \<Rightarrow> rbind (end_op s4) (\<lambda>s5. Inr (-1, s5))
             | Some ip \<Rightarrow>
                 (case filealloc s4 of
                    (None, s5) \<Rightarrow> open_fail ip s5
                  | (Some f, s5) \<Rightarrow>
                      rbind (fdalloc f s5) (\<lambda>(fdo, s6).
                      case fdo of
                        None \<Rightarrow> rbind (fileclose f s6) (\<lambda>s7. open_fail ip s7)
                      | Some fd \<Rightarrow>
                          rbind (iunlock (Some ip) s6) (\<lambda>s7.
                          rbind (end_op s7) (\<lambda>s8.
                          Inr (int fd, upd_file f (\<lambda>x. x\<lparr>f_type := FD_INODE, f_ip := ip, f_off := 0,
                                 f_readable := (omode AND O_WRONLY = 0),
                                 f_writable := (omode AND O_WRONLY \<noteq> 0 \<or> omode AND O_RDWR \<noteq> 0)\<rparr>) s8)))))))))"

text \<open>The common end of \<^verbatim>\<open>mkdir\<close> and \<^verbatim>\<open>mknod\<close>.\<close>

definition created :: "nat option \<Rightarrow> 'a vstate_scheme \<Rightarrow> (int \<times> 'a vstate_scheme) res" where
  "created ipo s =
     (case ipo of
        None \<Rightarrow> rbind (end_op s) (\<lambda>s1. Inr (-1, s1))
      | Some ip \<Rightarrow> rbind (iunlockput ip s) (\<lambda>s1. rbind (end_op s1) (\<lambda>s2. Inr (0, s2))))"

definition sys_mkdir :: "'a vstate_scheme \<Rightarrow> (int \<times> 'a vstate_scheme) res" where
  "sys_mkdir s =
     rbind (begin_op s) (\<lambda>s1.
     rbind (argstr 0 s1) (\<lambda>(r, s2).
     case r of
       None \<Rightarrow> created None s2
     | Some path \<Rightarrow> rbind (create path T_DIR 0 0 s2) (\<lambda>(ipo, s3). created ipo s3)))"

definition sys_mknod :: "'a vstate_scheme \<Rightarrow> (int \<times> 'a vstate_scheme) res" where
  "sys_mknod s =
     rbind (begin_op s) (\<lambda>s1.
     rbind (argstr 0 s1) (\<lambda>(r, s2).
     case r of
       None \<Rightarrow> created None s2
     | Some path \<Rightarrow>
         rbind (argint 1 s2) (\<lambda>(q, s3).
         case q of
           None \<Rightarrow> created None s3
         | Some major \<Rightarrow>
             rbind (argint 2 s3) (\<lambda>(q', s4).
             case q' of
               None \<Rightarrow> created None s4
             | Some minor \<Rightarrow> rbind (create path T_DEV (ucast major) (ucast minor) s4) (\<lambda>(ipo, s5). created ipo s5)))))"

definition sys_chdir :: "'a vstate_scheme \<Rightarrow> (int \<times> 'a vstate_scheme) res" where
  "sys_chdir s =
     rbind (myproc s) (\<lambda>me.
     rbind (begin_op s) (\<lambda>s1.
     rbind (argstr 0 s1) (\<lambda>(r, s2).
     rbind (case r of None \<Rightarrow> Inr (None, s2) | Some path \<Rightarrow> namei path s2) (\<lambda>(ipo, s3).
     case ipo of
       None \<Rightarrow> rbind (end_op s3) (\<lambda>s4. Inr (-1, s4))
     | Some ip \<Rightarrow>
         rbind (ilock (Some ip) s3) (\<lambda>s4.
         if i_type (inodes s4 ! ip) \<noteq> T_DIR then open_fail ip s4
         else rbind (iunlock (Some ip) s4) (\<lambda>s5.
              case p_cwd (procs s5 ! me) of
                None \<Rightarrow> Inl (Undef ''cwd'')
              | Some old \<Rightarrow>
                  rbind (iput old s5) (\<lambda>s6.
                  rbind (end_op s6) (\<lambda>s7.
                  Inr (0, upd_proc me (\<lambda>p. p\<lparr>p_cwd := Some ip\<rparr>) s7)))))))))"

text \<open>The loop of \<^verbatim>\<open>sys_exec\<close> over the argument vector, of at most \<open>n\<close> more entries.\<close>

primrec exec_argv :: "uint \<Rightarrow> nat \<Rightarrow> 'a vstate_scheme \<Rightarrow> (uchar list list option \<times> 'a vstate_scheme) res" where
  "exec_argv uargv 0 s = Inr (None, s)"
| "exec_argv uargv (Suc n) s =
     rbind (fetchint uargv s) (\<lambda>(r, s1).
     case r of
       None \<Rightarrow> Inr (None, s1)
     | Some uarg \<Rightarrow>
         if uarg = 0 then Inr (Some [], s1)
         else rbind (fetchstr uarg s1) (\<lambda>(q, s2).
              case q of
                None \<Rightarrow> Inr (None, s2)
              | Some a \<Rightarrow> rbind (exec_argv (uargv + 4) n s2) (\<lambda>(t, s3). Inr (map_option (\<lambda>as. a # as) t, s3))))"

definition sys_exec :: "'a vstate_scheme \<Rightarrow> (int \<times> 'a vstate_scheme) res" where
  "sys_exec s =
     rbind (argstr 0 s) (\<lambda>(r, s1).
     case r of
       None \<Rightarrow> Inr (-1, s1)
     | Some path \<Rightarrow>
         rbind (argint 1 s1) (\<lambda>(q, s2).
         case q of
           None \<Rightarrow> Inr (-1, s2)
         | Some uargv \<Rightarrow>
             rbind (exec_argv uargv MAXARG s2) (\<lambda>(t, s3).
             case t of None \<Rightarrow> Inr (-1, s3) | Some argv \<Rightarrow> exec path argv s3)))"

definition sys_pipe :: "'a vstate_scheme \<Rightarrow> (int \<times> 'a vstate_scheme) res" where
  "sys_pipe s =
     rbind (argptr 0 8 s) (\<lambda>(r, s1).
     case r of
       None \<Rightarrow> Inr (-1, s1)
     | Some a \<Rightarrow>
         rbind (pipealloc s1) (\<lambda>(q, s2).
         case q of
           None \<Rightarrow> Inr (-1, s2)
         | Some (rf, wrf) \<Rightarrow>
             rbind (fdalloc rf s2) (\<lambda>(fd0, s3).
             rbind (case fd0 of None \<Rightarrow> Inr (None, s3) | Some _ \<Rightarrow> fdalloc wrf s3) (\<lambda>(fd1, s4).
             case (fd0, fd1) of
               (Some d0, Some d1) \<Rightarrow> rbind (put_ints [(a, int d0), (a + 4, int d1)] s4) (\<lambda>s5. Inr (0, s5))
             | _ \<Rightarrow>
                 rbind (case fd0 of None \<Rightarrow> Inr s4 | Some d0 \<Rightarrow> clear_fd d0 s4) (\<lambda>s5.
                 rbind (fileclose rf s5) (\<lambda>s6.
                 rbind (fileclose wrf s6) (\<lambda>s7. Inr (-1, s7))))))))"

section \<open>Dispatch\<close>

datatype outcome = Returns int | Exits

text \<open>The table \<^verbatim>\<open>syscalls\<close>. Call 2 is \<^verbatim>\<open>exit\<close>, which does not return.\<close>

definition dispatch :: "int \<Rightarrow> 'a kstate_scheme \<Rightarrow> (outcome \<times> 'a kstate_scheme) res option" where
  "dispatch num s =
     (let ret = (\<lambda>r. Some (rbind r (\<lambda>(v, s1). Inr (Returns v, s1))))
      in if num = 1 then ret (fork s)
         else if num = 2 then Some (rbind (exit s) (\<lambda>s1. Inr (Exits, s1)))
         else if num = 3 then ret (wait s)
         else if num = 4 then ret (sys_pipe s)
         else if num = 5 then ret (sys_read s)
         else if num = 6 then ret (sys_kill s)
         else if num = 7 then ret (sys_exec s)
         else if num = 8 then ret (sys_fstat s)
         else if num = 9 then ret (sys_chdir s)
         else if num = 10 then ret (sys_dup s)
         else if num = 11 then ret (sys_getpid s)
         else if num = 12 then ret (sys_sbrk s)
         else if num = 13 then ret (sys_sleep s)
         else if num = 14 then ret (sys_uptime s)
         else if num = 15 then ret (sys_open s)
         else if num = 16 then ret (sys_write s)
         else if num = 17 then ret (sys_mknod s)
         else if num = 18 then ret (sys_unlink s)
         else if num = 19 then ret (sys_link s)
         else if num = 20 then ret (sys_mkdir s)
         else if num = 21 then ret (sys_close s)
         else if num = 22 then ret (sys_getNumberOfFreePages s)
         else if num = 23 then ret (sys_wait2 s)
         else if num = 24 then ret (getStats s)
         else None)"

definition set_eax :: "nat \<Rightarrow> uint \<Rightarrow> 'a pstate_scheme \<Rightarrow> 'a pstate_scheme" where
  "set_eax i v s = upd_proc i (\<lambda>p. p\<lparr>p_tf := (p_tf p)\<lparr>tf_eax := v\<rparr>\<rparr>) s"

definition syscall :: "'a kstate_scheme \<Rightarrow> (bool \<times> 'a kstate_scheme) res" where
  "syscall s =
     rbind (myproc s) (\<lambda>i.
     let p = procs s ! i; num = sint (tf_eax (p_tf p))
     in case dispatch num s of
          Some r \<Rightarrow> rbind r (\<lambda>(out, s1). case out of Returns v \<Rightarrow> Inr (True, set_eax i (of_int v) s1) | Exits \<Rightarrow> Inr (False, s1))
        | None \<Rightarrow>
            rbind (cprintf (Some (map of_char (''%d %s: unknown sys call %d'' @ [CHR 0x0A])))
                    [PInt (of_int (p_pid p)), PStr (Some (takeWhile (\<lambda>c. c \<noteq> 0) (p_name p))), PInt (of_int num)] s) (\<lambda>s1.
            Inr (True, set_eax i (- 1) s1)))"

section \<open>Traps (trap.c)\<close>

text \<open>How a trap ends: back to the interrupted code, in \<^verbatim>\<open>exit\<close>, or with the processor given up.\<close>

datatype tstatus = TReturns | TExits | TYields

definition exit_if_killed :: "nat \<Rightarrow> 'a kstate_scheme \<Rightarrow> (tstatus \<times> 'a kstate_scheme) res" where
  "exit_if_killed i s =
     (if p_killed (procs s ! i) then rbind (exit s) (\<lambda>s1. Inr (TExits, s1)) else Inr (TReturns, s))"

definition trap_syscall :: "trapframe \<Rightarrow> 'a kstate_scheme \<Rightarrow> (tstatus \<times> 'a kstate_scheme) res" where
  "trap_syscall tf s =
     rbind (myproc s) (\<lambda>i.
     rbind (exit_if_killed i s) (\<lambda>(st, s1).
     if st = TExits then Inr (TExits, s1)
     else rbind (syscall (upd_proc i (\<lambda>p. p\<lparr>p_tf := tf\<rparr>) s1)) (\<lambda>(returns, s2).
          if returns then exit_if_killed i s2 else Inr (TExits, s2))))"

text \<open>
  The \<^verbatim>\<open>switch\<close> of \<^verbatim>\<open>trap\<close> on processor \<open>cpu\<close>: \<open>cr2\<close> is the faulting address, \<open>keys\<close> the characters the
  keyboard or the serial port delivers. The end-of-interrupt message to the interrupt
  controller, and the process listing that control-P asks for, are not modelled.
\<close>

definition trap_switch :: "nat \<Rightarrow> uint \<Rightarrow> int list \<Rightarrow> trapframe \<Rightarrow> 'a kstate_scheme \<Rightarrow> (tstatus \<times> 'a kstate_scheme) res" where
  "trap_switch cpu cr2 keys tf s =
     (let n = tf_trapno tf
      in if n = 32
         then Inr (TReturns, if cpu = 0 then wakeup ChanTicks (s\<lparr>ticks := ticks s + 1\<rparr>) else s)
         else if n = 32 + 14 \<or> n = 32 + 15 then Inr (TReturns, s)
         else if n = 32 + 1 \<or> n = 32 + 4 then rbind (consoleintr keys s) (\<lambda>(_, s1). Inr (TReturns, s1))
         else if n = 32 + 7 \<or> n = 32 + 31
         then rbind (cprintf (Some (map of_char (''cpu%d: spurious interrupt at %x:%x'' @ [CHR 0x0A])))
                      [PInt (of_nat cpu), PInt (ucast (tf_cs tf)), PInt (tf_eip tf)] s) (\<lambda>s1. Inr (TReturns, s1))
         else if n = 14
         then rbind (onPageFault cr2 s) (\<lambda>s1. rbind (myproc s1) (\<lambda>i. exit_if_killed i s1))
         else case (if tf_cs tf AND 3 = 0 then None else curp s) of
                None \<Rightarrow> Inl (Panic ''trap'')
              | Some i \<Rightarrow>
                  rbind (cprintf (Some (map of_char (''pid %d %s: trap %d err %d on cpu %d eip 0x%x addr 0x%x--kill proc'' @ [CHR 0x0A])))
                          [PInt (of_int (p_pid (procs s ! i))), PStr (Some (takeWhile (\<lambda>c. c \<noteq> 0) (p_name (procs s ! i)))),
                           PInt n, PInt (tf_err tf), PInt (of_nat cpu), PInt (tf_eip tf), PInt cr2] s) (\<lambda>s1.
                  Inr (TReturns, upd_proc i (\<lambda>p. p\<lparr>p_killed := True\<rparr>) s1)))"

text \<open>What follows the \<^verbatim>\<open>switch\<close>, up to the call of \<^verbatim>\<open>yield\<close>; afterwards only the test for \<^verbatim>\<open>killed\<close> is repeated.\<close>

definition trap :: "nat \<Rightarrow> uint \<Rightarrow> int list \<Rightarrow> trapframe \<Rightarrow> 'a kstate_scheme \<Rightarrow> (tstatus \<times> 'a kstate_scheme) res" where
  "trap cpu cr2 keys tf s =
     (if tf_trapno tf = 64 then trap_syscall tf s
      else rbind (trap_switch cpu cr2 keys tf s) (\<lambda>(st, s1).
           if st = TExits then Inr (TExits, s1)
           else case curp s1 of
                  None \<Rightarrow> Inr (TReturns, s1)
                | Some i \<Rightarrow>
                    rbind (if tf_cs tf AND 3 = 3 then exit_if_killed i s1 else Inr (TReturns, s1)) (\<lambda>(st2, s2).
                    if st2 = TExits then Inr (TExits, s2)
                    else if p_state (procs s2 ! i) = RUNNING \<and> tf_trapno tf = 32
                    then Inr (TYields, s2\<lparr>procs := yield_enter i (procs s2)\<rparr>)
                    else Inr (TReturns, s2))))"

definition trap_resume :: "trapframe \<Rightarrow> 'a kstate_scheme \<Rightarrow> (tstatus \<times> 'a kstate_scheme) res" where
  "trap_resume tf s =
     (case curp s of
        None \<Rightarrow> Inr (TReturns, s)
      | Some i \<Rightarrow> if tf_cs tf AND 3 = 3 then exit_if_killed i s else Inr (TReturns, s))"

end
